(* ===== verification/Prelude.thy ===== *)
theory Prelude
  imports Main "HOL-Library.Multiset" "HOL-Library.Code_Target_Nat"
begin

text \<open>
  What every component shares: the results a C++ operation can have (a value, or the reason
  why the source has no defined result), vector accesses with their bounds written out,
  unsigned 64-bit arithmetic on natural numbers, the sequential loop over a container, and
  the parallel loop of the Galois runtime, whose execution order is a parameter.
\<close>

named_theorems res_simps \<open>evaluation of results, vector accesses and loops\<close>

section \<open>Results of C++ operations\<close>

text \<open>
  \<open>OutOfRange\<close>: an element access past the end of a vector or array (undefined behaviour).
  \<open>UnsortedRange\<close>: a binary search whose range is not partitioned by the searched value
  (the precondition of the standard library is violated).
  \<open>BadRange\<close>: a pair of iterators that is not a range (its begin lies after its end).
  \<open>AssertFailed\<close>: a failed \<open>GALOIS_ASSERT\<close>, which aborts the program.
  \<open>Indeterminate\<close>: a read of a variable the code never initialised.
  \<open>InvalidArgument\<close> and \<open>OutOfRangeArg\<close>: the two exceptions of \<open>std::stoull\<close>.
  \<open>DivByZero\<close>: an integer division by zero.
  \<open>NotImplemented\<close>: the \<open>std::runtime_error\<close> the parsers throw.
  \<open>NoReturn\<close>: a loop that does not end.
  \<open>IntOverflow\<close>: an addition of two \<open>int\<close> past their range (undefined behaviour).
  \<open>NullPointer\<close>: an access through an empty \<open>std::unique_ptr\<close>.
  \<open>BadCast\<close>: the exception Boost throws for an option that was not given.
  \<open>CannotMap\<close>: the exception Boost throws for a file that cannot be mapped.
\<close>

datatype cxx_error =
    OutOfRange | UnsortedRange | BadRange | AssertFailed | Indeterminate
  | InvalidArgument | OutOfRangeArg | DivByZero | NotImplemented | NoReturn | IntOverflow
  | NullPointer | BadCast | CannotMap

type_synonym 'a res = "cxx_error + 'a"

definition res_bind :: "'a res \<Rightarrow> ('a \<Rightarrow> 'b res) \<Rightarrow> 'b res" where
  "res_bind m f = (case m of Inl e \<Rightarrow> Inl e | Inr x \<Rightarrow> f x)"

definition res_map :: "('a \<Rightarrow> 'b) \<Rightarrow> 'a res \<Rightarrow> 'b res" where
  "res_map f m = (case m of Inl e \<Rightarrow> Inl e | Inr x \<Rightarrow> Inr (f x))"

lemma res_bind_simps [simp, res_simps]:
  "res_bind (Inl e) f = Inl e"
  "res_bind (Inr x) f = f x"
  by (simp_all add: res_bind_def)

lemma res_map_simps [simp, res_simps]:
  "res_map h (Inl e) = Inl e"
  "res_map h (Inr x) = Inr (h x)"
  by (simp_all add: res_map_def)

lemma res_bind_Inr_iff: "res_bind m f = Inr y \<longleftrightarrow> (\<exists>x. m = Inr x \<and> f x = Inr y)"
  by (cases m) auto

lemma res_map_Inr_iff: "res_map h m = Inr y \<longleftrightarrow> (\<exists>x. m = Inr x \<and> y = h x)"
  by (cases m) auto

lemma res_bind_cong [fundef_cong]:
  "m = m' \<Longrightarrow> (\<And>x. m' = Inr x \<Longrightarrow> f x = f' x) \<Longrightarrow> res_bind m f = res_bind m' f'"
  by (cases m') auto

text \<open>A loop as a partial function: \<open>None\<close> is a loop that does not end.\<close>

definition returns :: "'a option \<Rightarrow> 'a res" where
  "returns r = (case r of None \<Rightarrow> Inl NoReturn | Some x \<Rightarrow> Inr x)"

lemma returns_Some [simp]: "returns (Some x) = Inr x"
  by (simp add: returns_def)

section \<open>Vectors\<close>

definition vec_get :: "'a list \<Rightarrow> nat \<Rightarrow> 'a res" where
  "vec_get xs i = (if i < length xs then Inr (xs ! i) else Inl OutOfRange)"

definition vec_set :: "'a list \<Rightarrow> nat \<Rightarrow> 'a \<Rightarrow> 'a list res" where
  "vec_set xs i x = (if i < length xs then Inr (xs[i := x]) else Inl OutOfRange)"

definition vec_update :: "'a list \<Rightarrow> nat \<Rightarrow> ('a \<Rightarrow> 'a) \<Rightarrow> 'a list res" where
  "vec_update xs i f = (if i < length xs then Inr (xs[i := f (xs ! i)]) else Inl OutOfRange)"

text \<open>\<open>std::vector::resize\<close>: shorten, or append value-initialised elements.\<close>

definition vec_resize :: "nat \<Rightarrow> 'a \<Rightarrow> 'a list \<Rightarrow> 'a list" where
  "vec_resize n d xs = take n xs @ replicate (n - length xs) d"

lemma vec_get_in [simp, res_simps]: "i < length xs \<Longrightarrow> vec_get xs i = Inr (xs ! i)"
  by (simp add: vec_get_def)

lemma vec_get_out [simp, res_simps]: "\<not> i < length xs \<Longrightarrow> vec_get xs i = Inl OutOfRange"
  by (simp add: vec_get_def)

lemma vec_set_in [simp, res_simps]: "i < length xs \<Longrightarrow> vec_set xs i x = Inr (xs[i := x])"
  by (simp add: vec_set_def)

lemma vec_update_in [simp, res_simps]:
  "i < length xs \<Longrightarrow> vec_update xs i f = Inr (xs[i := f (xs ! i)])"
  by (simp add: vec_update_def)

text \<open>\<open>std::sort\<close> between two offsets, and the elements between two offsets.\<close>

definition sort_range :: "nat \<Rightarrow> nat \<Rightarrow> 'a::linorder list \<Rightarrow> 'a list res" where
  "sort_range a b xs =
     (if a \<le> b \<and> b \<le> length xs
      then Inr (take a xs @ sort (take (b - a) (drop a xs)) @ drop b xs) else Inl BadRange)"

definition sub_range :: "nat \<Rightarrow> nat \<Rightarrow> 'a list \<Rightarrow> 'a list res" where
  "sub_range a b xs =
     (if a \<le> b \<and> b \<le> length xs then Inr (take (b - a) (drop a xs)) else Inl BadRange)"

lemma length_vec_resize [simp]: "length (vec_resize n d xs) = n"
  by (simp add: vec_resize_def)

lemma nth_vec_resize:
  "i < n \<Longrightarrow> vec_resize n d xs ! i = (if i < length xs then xs ! i else d)"
  by (auto simp: vec_resize_def nth_append)

section \<open>Unsigned 64-bit values\<close>

definition u64_max :: nat where
  "u64_max = 2 ^ 64 - 1"

definition u64_add :: "nat \<Rightarrow> nat \<Rightarrow> nat" where
  "u64_add a b = (a + b) mod 2 ^ 64"

definition u64_sub :: "nat \<Rightarrow> nat \<Rightarrow> nat" where
  "u64_sub a b = (a + 2 ^ 64 - b) mod 2 ^ 64"

definition u64_mul :: "nat \<Rightarrow> nat \<Rightarrow> nat" where
  "u64_mul a b = a * b mod 2 ^ 64"

lemma u64_sub_small: "b \<le> a \<Longrightarrow> a \<le> u64_max \<Longrightarrow> u64_sub a b = a - b"
proof -
  assume "b \<le> a" "a \<le> u64_max"
  moreover from this have "(a + 2 ^ 64 - b) mod 2 ^ 64 = (a - b) mod 2 ^ 64"
    by (simp only: diff_add_assoc2 mod_add_self2)
  ultimately show ?thesis by (simp add: u64_sub_def u64_max_def)
qed

lemma u64_mul_small: "a * b \<le> u64_max \<Longrightarrow> u64_mul a b = a * b"
  by (simp add: u64_mul_def u64_max_def)

lemma u64_add_small: "a + b \<le> u64_max \<Longrightarrow> u64_add a b = a + b"
  by (simp add: u64_add_def u64_max_def)

lemma u64_add_wraps: "u64_add u64_max 1 = 0"
  by (simp add: u64_add_def u64_max_def)

section \<open>Sequential loops\<close>

fun fold_res :: "('x \<Rightarrow> 's \<Rightarrow> 's res) \<Rightarrow> 'x list \<Rightarrow> 's \<Rightarrow> 's res" where
  "fold_res f [] s = Inr s"
| "fold_res f (x # xs) s = res_bind (f x s) (fold_res f xs)"

declare fold_res.simps [res_simps]

lemma fold_res_append:
  "fold_res f (xs @ ys) s = res_bind (fold_res f xs s) (fold_res f ys)"
  by (induction xs arbitrary: s) (auto simp: res_bind_def split: sum.splits)

lemma fold_res_cong [fundef_cong]:
  "xs = ys \<Longrightarrow> s = t \<Longrightarrow> (\<And>x u. x \<in> set ys \<Longrightarrow> f x u = g x u) \<Longrightarrow>
    fold_res f xs s = fold_res g ys t"
proof -
  have "(\<And>x u. x \<in> set ys \<Longrightarrow> f x u = g x u) \<Longrightarrow> fold_res f ys t = fold_res g ys t"
    by (induction ys arbitrary: t) (auto intro!: res_bind_cong)
  then show "xs = ys \<Longrightarrow> s = t \<Longrightarrow> (\<And>x u. x \<in> set ys \<Longrightarrow> f x u = g x u) \<Longrightarrow>
    fold_res f xs s = fold_res g ys t" by simp
qed

text \<open>A loop whose body always succeeds is a fold.\<close>

lemma fold_res_total:
  assumes "\<And>x s. x \<in> set xs \<Longrightarrow> f x s = Inr (h x s)"
  shows "fold_res f xs s = Inr (fold h xs s)"
  using assms by (induction xs arbitrary: s) auto

text \<open>
  The loop rule: \<open>P\<close> relates the items already processed to the state; every iteration
  succeeds and keeps it.
\<close>

lemma fold_res_rule:
  assumes "P [] s"
    and "\<And>ys x zs t. xs = ys @ x # zs \<Longrightarrow> P ys t \<Longrightarrow> \<exists>t'. f x t = Inr t' \<and> P (ys @ [x]) t'"
  shows "\<exists>t. fold_res f xs s = Inr t \<and> P xs t"
  using assms
proof (induction xs rule: rev_induct)
  case Nil
  then show ?case by simp
next
  case (snoc x xs)
  have "\<exists>t. fold_res f xs s = Inr t \<and> P xs t"
  proof (rule snoc.IH)
    fix ys y zs t
    assume "xs = ys @ y # zs" and "P ys t"
    then show "\<exists>t'. f y t = Inr t' \<and> P (ys @ [y]) t'"
      using snoc.prems(2) [of ys y "zs @ [x]" t] by simp
  qed (rule snoc.prems(1))
  then obtain t where t: "fold_res f xs s = Inr t" "P xs t" by blast
  then obtain t' where "f x t = Inr t'" "P (xs @ [x]) t'"
    using snoc.prems(2) [of xs x "[]" t] by auto
  with t show ?case by (auto simp: fold_res_append)
qed

text \<open>What every iteration keeps, a loop that ends without an error keeps.\<close>

lemma fold_res_preserve:
  assumes "fold_res f xs s = Inr s'" "I s"
    and "\<And>x t t'. x \<in> set xs \<Longrightarrow> I t \<Longrightarrow> f x t = Inr t' \<Longrightarrow> I t'"
  shows "I s'"
  using assms
proof (induction xs arbitrary: s)
  case (Cons x xs)
  obtain s1 where "f x s = Inr s1" "fold_res f xs s1 = Inr s'"
    using Cons.prems(1) by (auto simp: res_bind_Inr_iff)
  then show ?case using Cons.IH [of s1] Cons.prems(2,3) by (metis list.set_intros)
qed simp

section \<open>The Galois runtime\<close>

text \<open>
  Galois is a submodule, not part of the repository; what the code calls of it is a parameter.
  \<open>order rt k n\<close> is the order in which the \<open>k\<close>-th parallel loop of an operation runs
  the \<open>n\<close> items of its range. \<open>reduce_max\<close> and \<open>reduce_sum\<close> are what
  \<open>GReduceMax\<close> and \<open>GAccumulator\<close> return after the given updates.
  \<open>prefix_serial\<close> and \<open>prefix_par\<close> are the two entry points of \<open>PrefixSum\<close>,
  applied to the three template functions the code hands over and to the source array.
\<close>

record galois_rt =
  order :: "nat \<Rightarrow> nat \<Rightarrow> nat list"
  reduce_max :: "nat list \<Rightarrow> nat"
  reduce_sum :: "nat list \<Rightarrow> nat"
  prefix_serial :: "(nat list \<Rightarrow> nat) \<Rightarrow> (nat list \<Rightarrow> nat \<Rightarrow> nat) \<Rightarrow> (nat \<Rightarrow> nat \<Rightarrow> nat)
    \<Rightarrow> nat list list \<Rightarrow> nat list"
  prefix_par :: "(nat list \<Rightarrow> nat) \<Rightarrow> (nat list \<Rightarrow> nat \<Rightarrow> nat) \<Rightarrow> (nat \<Rightarrow> nat \<Rightarrow> nat)
    \<Rightarrow> nat list list \<Rightarrow> nat list"

text \<open>The inclusive scan both prefix sums document.\<close>

fun scan_from :: "('a \<Rightarrow> nat \<Rightarrow> nat) \<Rightarrow> nat \<Rightarrow> 'a list \<Rightarrow> nat list" where
  "scan_from op acc [] = []"
| "scan_from op acc (x # xs) = op x acc # scan_from op (op x acc) xs"

fun inclusive_scan :: "('a \<Rightarrow> nat) \<Rightarrow> ('a \<Rightarrow> nat \<Rightarrow> nat) \<Rightarrow> 'a list \<Rightarrow> nat list" where
  "inclusive_scan t op [] = []"
| "inclusive_scan t op (x # xs) = t x # scan_from op (t x) xs"

text \<open>
  The documented behaviour the code relies on: a parallel loop runs every item of its range
  exactly once; a maximum reduction starts from the least 64-bit value; a sum is taken in
  64-bit arithmetic; both prefix sums are the inclusive scan, the parallel one for a
  combiner that agrees with the scan operation and is associative.
\<close>

definition galois_ok :: "galois_rt \<Rightarrow> bool" where
  "galois_ok rt \<longleftrightarrow>
     (\<forall>k n. mset (order rt k n) = mset [0..<n]) \<and>
     (\<forall>xs. reduce_max rt xs = fold max xs 0) \<and>
     (\<forall>xs. reduce_sum rt xs = sum_list xs mod 2 ^ 64) \<and>
     (\<forall>t op c xs. prefix_serial rt t op c xs = inclusive_scan t op xs) \<and>
     (\<forall>t op c xs. (\<forall>x l. op x l = c (t x) l) \<and> (\<forall>x y z. c (c x y) z = c x (c y z)) \<longrightarrow>
        prefix_par rt t op c xs = inclusive_scan t op xs)"

text \<open>
  A runtime that satisfies the contract (one thread, items in the order of the range), used
  where a theorem is applied to concrete data, and one that runs every range backwards.
\<close>

definition serial_rt :: galois_rt where
  "serial_rt = \<lparr>order = (\<lambda>k n. [0..<n]), reduce_max = (\<lambda>xs. fold max xs 0),
     reduce_sum = (\<lambda>xs. sum_list xs mod 2 ^ 64),
     prefix_serial = (\<lambda>t op c. inclusive_scan t op),
     prefix_par = (\<lambda>t op c. inclusive_scan t op)\<rparr>"

definition backward_rt :: galois_rt where
  "backward_rt = serial_rt\<lparr>order := (\<lambda>k n. rev [0..<n])\<rparr>"

lemma galois_ok_serial [simp, intro]: "galois_ok serial_rt"
  by (simp add: galois_ok_def serial_rt_def)

lemma galois_ok_backward [simp, intro]: "galois_ok backward_rt"
  by (simp add: galois_ok_def serial_rt_def backward_rt_def)

lemma galois_order: "galois_ok rt \<Longrightarrow> mset (order rt k n) = mset [0..<n]"
  by (simp add: galois_ok_def)

text \<open>
  \<open>galois::do_all\<close> over a container: the iterations one after the other in the runtime's
  order. Iterations that touch shared data in several steps are modelled step by step in the
  theories that need it.
\<close>

definition do_all ::
  "galois_rt \<Rightarrow> nat \<Rightarrow> ('x \<Rightarrow> 's \<Rightarrow> 's res) \<Rightarrow> 'x list \<Rightarrow> 's \<Rightarrow> 's res" where
  "do_all rt k f xs s = fold_res f (map (\<lambda>i. xs ! i) (order rt k (length xs))) s"

lemma mset_do_all_order:
  assumes "galois_ok rt"
  shows "mset (map (\<lambda>i. xs ! i) (order rt k (length xs))) = mset xs"
proof -
  have "mset (map (\<lambda>i. xs ! i) (order rt k (length xs))) =
      mset (map (\<lambda>i. xs ! i) [0..<length xs])"
    by (simp only: mset_map galois_order [OF assms])
  then show ?thesis by (simp add: map_nth)
qed

lemma do_all_as_perm:
  assumes "galois_ok rt"
  obtains ys where "mset ys = mset xs" and "do_all rt k f xs s = fold_res f ys s"
  using mset_do_all_order [OF assms] unfolding do_all_def by blast

lemma do_all_cong:
  assumes "galois_ok rt" and "\<And>x u. x \<in> set xs \<Longrightarrow> f x u = g x u"
  shows "do_all rt k f xs s = do_all rt k g xs s"
proof -
  let ?ys = "map (\<lambda>i. xs ! i) (order rt k (length xs))"
  have "set ?ys = set xs"
    using mset_do_all_order [OF assms(1)] by (metis set_mset_mset)
  then show ?thesis
    unfolding do_all_def by (intro fold_res_cong) (auto simp: assms(2))
qed

text \<open>The rule of a parallel loop: \<open>P\<close> relates the items run so far to the state.\<close>

lemma do_all_rule:
  assumes "galois_ok rt" and "P [] s"
    and "\<And>ys x t. mset (ys @ [x]) \<subseteq># mset xs \<Longrightarrow> x \<in> set xs \<Longrightarrow> P ys t \<Longrightarrow>
      \<exists>t'. f x t = Inr t' \<and> P (ys @ [x]) t'"
  shows "\<exists>ys t. mset ys = mset xs \<and> do_all rt k f xs s = Inr t \<and> P ys t"
proof -
  obtain ys where ys: "mset ys = mset xs" and eq: "do_all rt k f xs s = fold_res f ys s"
    using assms(1) by (rule do_all_as_perm)
  have "\<exists>t. fold_res f ys s = Inr t \<and> P ys t"
  proof (rule fold_res_rule)
    fix us x zs t
    assume split: "ys = us @ x # zs" and "P us t"
    have "mset (us @ [x]) \<subseteq># mset ys" unfolding split by simp
    moreover have "x \<in> set xs" using ys split by (metis in_set_conv_decomp mset_eq_setD)
    ultimately show "\<exists>t'. f x t = Inr t' \<and> P (us @ [x]) t'"
      using assms(3) \<open>P us t\<close> ys by simp
  qed (rule assms(2))
  with ys eq show ?thesis by auto
qed

lemma do_all_preserve:
  assumes "do_all rt k f xs s = Inr s'" "I s" and "\<And>x t t'. I t \<Longrightarrow> f x t = Inr t' \<Longrightarrow> I t'"
  shows "I s'"
  using assms(1) unfolding do_all_def by (rule fold_res_preserve) (use assms(2,3) in blast)+

text \<open>Over distinct items no iteration runs twice.\<close>

lemma do_all_fresh:
  assumes "mset (ys @ [x]) \<subseteq># mset xs" "distinct xs"
  shows "x \<notin> set ys"
proof -
  obtain zs where "mset xs = mset (ys @ [x]) + mset zs"
    using assms(1) by (metis ex_mset mset_subset_eq_exists_conv)
  then have "mset xs = mset ((ys @ [x]) @ zs)" by simp
  then have "distinct ((ys @ [x]) @ zs)"
    using assms(2) mset_eq_imp_distinct_iff by blast
  then show ?thesis by simp
qed

text \<open>A parallel loop that stores one value per index fills the array.\<close>

lemma do_all_fill:
  assumes "galois_ok rt" "length v = n"
  shows "do_all rt k (\<lambda>i v. vec_set v i (f i)) [0..<n] v = Inr (map f [0..<n])"
proof -
  have "\<exists>ys w. mset ys = mset [0..<n] \<and> do_all rt k (\<lambda>i v. vec_set v i (f i)) [0..<n] v = Inr w \<and>
      (length w = n \<and> (\<forall>i\<in>set ys. w ! i = f i))"
    by (rule do_all_rule [OF assms(1)]) (auto simp: assms(2) nth_list_update)
  then obtain ys w where "mset ys = mset [0..<n]" and run: "do_all rt k (\<lambda>i v. vec_set v i (f i)) [0..<n] v = Inr w"
    and w: "length w = n" "\<forall>i\<in>set ys. w ! i = f i" by blast
  then have "set ys = {..<n}" by (metis atLeast_upt mset_eq_setD)
  then have "w = map f [0..<n]" using w by (intro nth_equalityI) auto
  with run show ?thesis by simp
qed

section \<open>Lists\<close>

text \<open>\<open>std::max_element\<close> of a non-empty range, and the order-independent maximum.\<close>

definition max_element :: "nat list \<Rightarrow> nat" where
  "max_element xs = fold max xs 0"

lemma fold_max_ge_init: "m \<le> fold max xs (m::nat)"
  by (induction xs arbitrary: m) (auto intro: order_trans [OF max.cobounded2])

lemma fold_max_ge: "x \<in> set xs \<Longrightarrow> x \<le> fold max xs (m::nat)"
proof (induction xs arbitrary: m)
  case (Cons y ys)
  then show ?case
    using fold_max_ge_init [of "max y m" ys] by auto
qed simp

lemma fold_max_in: "fold max xs (m::nat) = m \<or> fold max xs m \<in> set xs"
proof (induction xs arbitrary: m)
  case (Cons y ys)
  then show ?case using Cons.IH [of "max y m"] by (auto simp: max_def)
qed simp

lemma fold_max_le_iff: "fold max xs (m::nat) \<le> b \<longleftrightarrow> m \<le> b \<and> (\<forall>x\<in>set xs. x \<le> b)"
  by (induction xs arbitrary: m) auto

lemma fold_max_mset_eq:
  "set xs = set ys \<Longrightarrow> fold max xs (0::nat) = fold max ys 0"
  by (intro antisym) (auto simp: fold_max_le_iff fold_max_ge)

lemma max_element_in: "xs \<noteq> [] \<Longrightarrow> max_element xs \<in> set xs"
  using fold_max_in [of xs 0] fold_max_ge [of "hd xs" xs 0]
  by (cases xs) (auto simp: max_element_def)

lemma map_upd_upt:
  "(map f [0..<n])[i := y] = map (\<lambda>v. if v = i then y else f v) [0..<n]"
  by (intro nth_equalityI) (auto simp: nth_list_update)

text \<open>Reading a slice of a concatenation back.\<close>

lemma take_drop_concat:
  assumes "i < length xss"
  shows "take (length (xss ! i)) (drop (length (concat (take i xss))) (concat xss)) = xss ! i"
proof -
  have "concat xss = concat (take i xss) @ xss ! i @ concat (drop (Suc i) xss)"
    using assms by (metis concat.simps(2) concat_append id_take_nth_drop)
  then show ?thesis by simp
qed

lemma mset_eq_short: "mset xs = mset ys \<Longrightarrow> length ys \<le> 1 \<Longrightarrow> xs = ys"
  by (cases ys) auto

text \<open>Where each key occurs at most once, the order of an association list does not matter.\<close>

lemma concat_append_at:
  assumes "mset ps = mset qs" and "distinct (map fst qs)"
  shows "concat (map snd (filter (\<lambda>p. fst p = u) ps)) =
    concat (map snd (filter (\<lambda>p. fst p = u) qs))"
proof -
  let ?f = "filter (\<lambda>p. fst p = u)"
  have "distinct (map fst (?f qs))" using assms(2) by (simp add: distinct_map_filter)
  moreover have "set (map fst (?f qs)) \<subseteq> {u}" by auto
  ultimately have "length (map fst (?f qs)) \<le> card {u}"
    by (metis card_mono distinct_card finite.emptyI finite_insert)
  then have "length (?f qs) \<le> 1" by simp
  moreover have "mset (?f ps) = mset (?f qs)"
    using assms(1) by (metis mset_filter)
  ultimately show ?thesis by (metis mset_eq_short)
qed

end
