(* ===== verification/TextStream.thy ===== *)
theory TextStream
  imports Prelude
begin

text \<open>
  What the text programs use of the C++ input streams: \<open>operator>>\<close> into a
  \<open>uint64_t\<close>, \<open>std::getline\<close>, and the two state bits, with the behaviour of the standard
  library written out. A failed extraction that never reaches the number (the stream is not
  good, or only white space is left) does not assign the variable: the result is \<open>None\<close>.
  One that finds no digit assigns zero, and one that overflows the largest value.
\<close>

record istream =
  rest :: string
  eofbit :: bool
  failbit :: bool

definition stream_of :: "string \<Rightarrow> istream" where
  "stream_of cs = \<lparr>rest = cs, eofbit = False, failbit = False\<rparr>"

definition newline :: char where
  "newline = CHR 0x0A"

definition is_space :: "char \<Rightarrow> bool" where
  "is_space c \<longleftrightarrow> c \<in> {CHR '' '', CHR 0x09, CHR 0x0A, CHR 0x0B, CHR 0x0C, CHR 0x0D}"

definition is_digit :: "char \<Rightarrow> bool" where
  "is_digit c \<longleftrightarrow> 48 \<le> (of_char c :: nat) \<and> (of_char c :: nat) \<le> 57"

definition read_digits :: "string \<Rightarrow> nat" where
  "read_digits ds = fold (\<lambda>c v. 10 * v + (of_char c - 48)) ds 0"

definition get_u64 :: "istream \<Rightarrow> nat option \<times> istream" where
  "get_u64 s =
     (if eofbit s \<or> failbit s then (None, s\<lparr>failbit := True\<rparr>)
      else let r = dropWhile is_space (rest s) in
        if r = [] then (None, \<lparr>rest = [], eofbit = True, failbit = True\<rparr>)
        else let r1 = (if hd r \<in> {CHR ''+'', CHR ''-''} then tl r else r);
                 ds = takeWhile is_digit r1;
                 r2 = dropWhile is_digit r1;
                 v = read_digits ds
             in if ds = [] then (Some 0, \<lparr>rest = r2, eofbit = (r2 = []), failbit = True\<rparr>)
                else if v > u64_max then (Some u64_max, \<lparr>rest = r2, eofbit = (r2 = []), failbit = True\<rparr>)
                else (Some (if hd r = CHR ''-'' then u64_sub 0 v else v),
                      \<lparr>rest = r2, eofbit = (r2 = []), failbit = False\<rparr>))"

definition getline :: "istream \<Rightarrow> string option \<times> istream" where
  "getline s =
     (if eofbit s \<or> failbit s then (None, s\<lparr>failbit := True\<rparr>)
      else let l = takeWhile (\<lambda>c. c \<noteq> newline) (rest s);
               r = dropWhile (\<lambda>c. c \<noteq> newline) (rest s)
           in if r \<noteq> [] then (Some l, s\<lparr>rest := tl r\<rparr>)
              else if l = [] then (None, \<lparr>rest = [], eofbit = True, failbit = True\<rparr>)
              else (Some l, \<lparr>rest = [], eofbit = True, failbit = False\<rparr>))"

text \<open>\<open>operator<<\<close> of a \<open>uint64_t\<close>: decimal digits.\<close>

definition digit_char :: "nat \<Rightarrow> char" where
  "digit_char n = char_of (48 + n)"

fun show_u64 :: "nat \<Rightarrow> string" where
  "show_u64 n = (if n < 10 then [digit_char n] else show_u64 (n div 10) @ [digit_char (n mod 10)])"

declare show_u64.simps [simp del]

section \<open>Progress\<close>

text \<open>Every successful or failing read leaves less to do: characters, or bits not yet set.\<close>

definition stream_size :: "istream \<Rightarrow> nat" where
  "stream_size s = 2 * length (rest s) + (if eofbit s \<or> failbit s then 0 else 1)"

lemma length_dropWhile_less: "takeWhile p xs \<noteq> [] \<Longrightarrow> length (dropWhile p xs) < length xs"
  by (cases xs) (auto simp: le_imp_less_Suc length_dropWhile_le split: if_splits)

lemma get_u64_progress:
  assumes "get_u64 s = (Some v, s')"
  shows "stream_size s' < stream_size s"
proof -
  let ?r = "dropWhile is_space (rest s)"
  let ?r1 = "if hd ?r \<in> {CHR ''+'', CHR ''-''} then tl ?r else ?r"
  have s: "\<not> eofbit s" "\<not> failbit s" "?r \<noteq> []"
    using assms
    by (auto simp: get_u64_def Let_def simp del: dropWhile_eq_Nil_conv split: if_splits)
  have "length ?r1 \<le> length (rest s)"
    using length_dropWhile_le [of is_space "rest s"] by auto
  then have le: "length (dropWhile is_digit ?r1) \<le> length (rest s)"
    using length_dropWhile_le [of is_digit ?r1] by linarith
  show ?thesis
  proof (cases "takeWhile is_digit ?r1 = []")
    case True
    with assms s le show ?thesis
      by (auto simp: get_u64_def stream_size_def Let_def
          simp del: dropWhile_eq_Nil_conv takeWhile_eq_Nil_iff split: if_splits)
  next
    case False
    then have "length (dropWhile is_digit ?r1) < length (rest s)"
      using length_dropWhile_less [OF False] \<open>length ?r1 \<le> length (rest s)\<close> by linarith
    moreover have "rest s' = dropWhile is_digit ?r1"
      using assms s False
      by (auto simp: get_u64_def Let_def
          simp del: dropWhile_eq_Nil_conv takeWhile_eq_Nil_iff split: if_splits)
    ultimately show ?thesis by (simp add: stream_size_def)
  qed
qed

lemma getline_progress:
  assumes "getline s = (Some l, s')"
  shows "length (rest s') < length (rest s)" and "\<not> failbit s'"
proof -
  let ?r = "dropWhile (\<lambda>c. c \<noteq> newline) (rest s)"
  have s: "\<not> eofbit s" "\<not> failbit s" using assms by (auto simp: getline_def)
  have "length (tl ?r) < length (rest s)" if "?r \<noteq> []"
    using that length_dropWhile_le [of "\<lambda>c. c \<noteq> newline" "rest s"]
    by (cases ?r) auto
  moreover have "rest s \<noteq> []" using assms s by (auto simp: getline_def)
  ultimately show "length (rest s') < length (rest s)" and "\<not> failbit s'"
    using assms s by (auto simp: getline_def Let_def simp del: dropWhile_eq_Nil_conv split: if_splits)
qed

lemma getline_end: "getline s = (None, s') \<Longrightarrow> \<not> failbit s \<Longrightarrow> eofbit s'"
  by (auto simp: getline_def Let_def split: if_splits)

section \<open>Numbers\<close>

lemma of_char_digit: "n < 10 \<Longrightarrow> (of_char (digit_char n) :: nat) = 48 + n"
  by (simp add: digit_char_def)

lemma is_digit_digit_char [simp]: "n < 10 \<Longrightarrow> is_digit (digit_char n)"
  by (simp add: is_digit_def of_char_digit)

lemma show_u64_digits: "c \<in> set (show_u64 n) \<Longrightarrow> is_digit c"
proof (induction n rule: show_u64.induct)
  case (1 n)
  show ?case
  proof (cases "n < 10")
    case True
    with 1(2) show ?thesis by (simp add: show_u64.simps [of n])
  next
    case False
    with 1(2) have "c \<in> set (show_u64 (n div 10)) \<or> c = digit_char (n mod 10)"
      by (auto simp: show_u64.simps [of n])
    with 1(1) False show ?thesis by auto
  qed
qed

lemma show_u64_not_Nil [simp]: "show_u64 n \<noteq> []"
  by (simp add: show_u64.simps [of n])

lemma read_show: "read_digits (show_u64 n) = n"
proof (induction n rule: show_u64.induct)
  case (1 n)
  show ?case
  proof (cases "n < 10")
    case True
    then show ?thesis by (simp add: show_u64.simps [of n] read_digits_def of_char_digit)
  next
    case False
    then show ?thesis
      using 1 by (simp add: show_u64.simps [of n] read_digits_def of_char_digit)
  qed
qed

lemma digit_not_space: "is_digit c \<Longrightarrow> \<not> is_space c"
  by (auto simp: is_digit_def is_space_def)

lemma digit_not_sign: "is_digit c \<Longrightarrow> c \<noteq> CHR ''+'' \<and> c \<noteq> CHR ''-''"
  by (auto simp: is_digit_def)

lemma digit_not_newline: "is_digit c \<Longrightarrow> c \<noteq> newline"
  by (auto simp: is_digit_def newline_def)

text \<open>Reading a printed number back, after any white space.\<close>

lemma get_shown:
  assumes "n \<le> u64_max" and "\<forall>c\<in>set sp. is_space c" and "r = [] \<or> \<not> is_digit (hd r)"
  shows "get_u64 \<lparr>rest = sp @ show_u64 n @ r, eofbit = False, failbit = False\<rparr> =
    (Some n, \<lparr>rest = r, eofbit = (r = []), failbit = False\<rparr>)"
proof -
  obtain c cs where c: "show_u64 n = c # cs" by (cases "show_u64 n") auto
  then have "is_digit c" using show_u64_digits [of c n] by simp
  have drop: "dropWhile is_space (sp @ show_u64 n @ r) = show_u64 n @ r"
    using assms(2) digit_not_space [OF \<open>is_digit c\<close>] by (simp add: c dropWhile_append2)
  have all: "\<forall>d\<in>set (show_u64 n). is_digit d" using show_u64_digits by blast
  have take: "takeWhile is_digit (show_u64 n @ r) = show_u64 n"
    using all assms(3) by (cases r) (simp_all add: takeWhile_append2)
  have rest: "dropWhile is_digit (show_u64 n @ r) = r"
    using all assms(3) by (cases r) (simp_all add: dropWhile_append2)
  have sign: "hd (show_u64 n @ r) = c" by (simp add: c)
  have "v > u64_max \<longleftrightarrow> False" if "v = n" for v using assms(1) that by simp
  then show ?thesis
    using digit_not_sign [OF \<open>is_digit c\<close>]
    unfolding get_u64_def istream.simps drop Let_def sign
    by (simp add: take rest read_show)
qed

end
