(* ===== verification/Options.thy ===== *)
theory Options
  imports Prelude TextStream Complex_Main
begin

text \<open>
  The parsed command line, as Boost hands it to the four programs that use it: a map from option
  names to values. An option that is absent, or has another type, makes \<open>as\<close> throw (\<open>BadCast\<close>).
\<close>

datatype opt_value = OptText string | OptNum nat | OptFloat rat | OptFlag bool

type_synonym variables = "string \<Rightarrow> opt_value option"

definition as_text :: "variables \<Rightarrow> string \<Rightarrow> string res" where
  "as_text vm opt = (case vm opt of Some (OptText s) \<Rightarrow> Inr s | _ \<Rightarrow> Inl BadCast)"

definition as_num :: "variables \<Rightarrow> string \<Rightarrow> nat res" where
  "as_num vm opt = (case vm opt of Some (OptNum n) \<Rightarrow> Inr n | _ \<Rightarrow> Inl BadCast)"

definition as_float :: "variables \<Rightarrow> string \<Rightarrow> rat res" where
  "as_float vm opt = (case vm opt of Some (OptFloat x) \<Rightarrow> Inr x | _ \<Rightarrow> Inl BadCast)"

definition as_flag :: "variables \<Rightarrow> string \<Rightarrow> bool res" where
  "as_flag vm opt = (case vm opt of Some (OptFlag b) \<Rightarrow> Inr b | _ \<Rightarrow> Inl BadCast)"

definition given :: "variables \<Rightarrow> string \<Rightarrow> bool" where
  "given vm opt \<longleftrightarrow> vm opt \<noteq> None"

lemma as_simps [simp]:
  "vm opt = Some (OptText s) \<Longrightarrow> as_text vm opt = Inr s"
  "vm opt = Some (OptNum n) \<Longrightarrow> as_num vm opt = Inr n"
  "vm opt = Some (OptFlag b) \<Longrightarrow> as_flag vm opt = Inr b"
  by (simp_all add: as_text_def as_num_def as_flag_def)

end
