(* ===== verification/GraphInterface.thy ===== *)
theory GraphInterface
  imports Prelude
begin

text \<open>
  The abstract class \<open>MutableGraph\<close> (include/scea/graph/mutable_graph\_interface.hpp) as a
  record of operations, and the contracts the benchmark algorithms rely on, as locales over
  that record. \<open>for_each_edge\<close> takes a callback in the code; here it returns the
  destinations in the order in which the callback receives them, or the error of the access.
\<close>

type_synonym batch = "(nat \<times> nat list) list"

record 'g graph_ops =
  g_size :: "'g \<Rightarrow> nat"
  g_out_degree :: "'g \<Rightarrow> nat \<Rightarrow> nat res"
  g_ingest :: "galois_rt \<Rightarrow> batch \<Rightarrow> 'g \<Rightarrow> 'g res"
  g_post_ingest :: "galois_rt \<Rightarrow> 'g \<Rightarrow> 'g res"
  g_for_each_edge :: "'g \<Rightarrow> nat \<Rightarrow> nat list res"
  g_sort_edges :: "nat \<Rightarrow> 'g \<Rightarrow> 'g res"
  g_find_edge_sorted :: "'g \<Rightarrow> nat \<Rightarrow> nat \<Rightarrow> bool res"

section \<open>Searching a sorted range\<close>

text \<open>
  \<open>std::binary_search\<close>: the standard asks the range to be partitioned by \<open>e < value\<close>
  and by \<open>!(value < e)\<close>; without that the call has no defined result.
\<close>

definition partitioned_by :: "('a \<Rightarrow> bool) \<Rightarrow> 'a list \<Rightarrow> bool" where
  "partitioned_by p xs \<longleftrightarrow> filter p xs = takeWhile p xs"

definition binary_search :: "nat list \<Rightarrow> nat \<Rightarrow> bool res" where
  "binary_search xs x =
     (if partitioned_by (\<lambda>e. e < x) xs \<and> partitioned_by (\<lambda>e. \<not> x < e) xs
      then Inr (x \<in> set xs) else Inl UnsortedRange)"

lemma partitioned_by_sorted:
  assumes "sorted xs" and "\<And>a b. a \<le> b \<Longrightarrow> p b \<Longrightarrow> p a"
  shows "partitioned_by p xs"
  using assms(1)
proof (induction xs)
  case (Cons x xs)
  then have "partitioned_by p xs" by simp
  moreover have "\<not> p x \<Longrightarrow> filter p xs = []"
    using Cons.prems assms(2) by (auto simp: filter_empty_conv)
  ultimately show ?case by (simp add: partitioned_by_def)
qed (simp add: partitioned_by_def)

lemma binary_search_sorted: "sorted xs \<Longrightarrow> binary_search xs x = Inr (x \<in> set xs)"
  by (auto simp: binary_search_def intro!: partitioned_by_sorted)

section \<open>What a graph holds\<close>

text \<open>
  The abstraction: the list of adjacency lists, indexed by vertex. \<open>apply_batch\<close> is what
  a batch of insertions means: the vertex set grows to hold every identifier named, and each
  source's new destinations follow its old ones.
\<close>

definition closed_graph :: "nat list list \<Rightarrow> bool" where
  "closed_graph ss \<longleftrightarrow> (\<forall>ds\<in>set ss. \<forall>d\<in>set ds. d < length ss)"

definition batch_ids :: "batch \<Rightarrow> nat list" where
  "batch_ids es = concat (map (\<lambda>p. fst p # snd p) es)"

definition batch_max :: "batch \<Rightarrow> nat" where
  "batch_max es = fold max (batch_ids es) 0"

definition batch_for :: "batch \<Rightarrow> nat \<Rightarrow> nat list" where
  "batch_for es u = concat (map snd (filter (\<lambda>p. fst p = u) es))"

definition adj_of :: "nat list list \<Rightarrow> nat \<Rightarrow> nat list" where
  "adj_of ss u = (if u < length ss then ss ! u else [])"

definition apply_batch :: "batch \<Rightarrow> nat list list \<Rightarrow> nat list list" where
  "apply_batch es ss =
     map (\<lambda>u. adj_of ss u @ batch_for es u) [0..<max (length ss) (Suc (batch_max es))]"

definition edge_total :: "nat list list \<Rightarrow> nat" where
  "edge_total ss = sum_list (map length ss)"

text \<open>
  What the callers provide: every source occurs once (the batches come from hash maps; two
  entries for one source would append to one vector from two threads), and identifiers leave
  room for the number of vertices in 64 bits.
\<close>

definition batch_ok :: "batch \<Rightarrow> bool" where
  "batch_ok es \<longleftrightarrow> distinct (map fst es) \<and> (\<forall>x\<in>set (batch_ids es). x < u64_max)"

lemma batch_max_ge: "x \<in> set (batch_ids es) \<Longrightarrow> x \<le> batch_max es"
  by (simp add: batch_max_def fold_max_ge)

lemma batch_max_less: "batch_ok es \<Longrightarrow> batch_max es < u64_max"
  using fold_max_in [of "batch_ids es" 0]
  by (auto simp: batch_ok_def batch_max_def u64_max_def)

lemma length_apply_batch [simp]:
  "length (apply_batch es ss) = max (length ss) (Suc (batch_max es))"
  by (simp add: apply_batch_def)

lemma nth_apply_batch:
  "u < max (length ss) (Suc (batch_max es)) \<Longrightarrow>
    apply_batch es ss ! u = adj_of ss u @ batch_for es u"
  by (simp add: apply_batch_def)

lemma set_batch_for: "d \<in> set (batch_for es u) \<Longrightarrow> d \<in> set (batch_ids es)"
  by (force simp: batch_for_def batch_ids_def)

lemma closed_graphI:
  "(\<And>u d. u < length ss \<Longrightarrow> d \<in> set (ss ! u) \<Longrightarrow> d < length ss) \<Longrightarrow> closed_graph ss"
  by (metis closed_graph_def in_set_conv_nth)

lemma closed_graphD:
  "closed_graph ss \<Longrightarrow> u < length ss \<Longrightarrow> d \<in> set (ss ! u) \<Longrightarrow> d < length ss"
  by (auto simp: closed_graph_def)

lemma closed_apply_batch:
  assumes "closed_graph ss"
  shows "closed_graph (apply_batch es ss)"
proof (rule closed_graphI)
  fix u d
  assume u: "u < length (apply_batch es ss)" and "d \<in> set (apply_batch es ss ! u)"
  then have "d \<in> set (adj_of ss u) \<or> d \<in> set (batch_for es u)"
    by (simp add: nth_apply_batch)
  then have "d < length ss \<or> d \<le> batch_max es"
    using assms closed_graphD set_batch_for batch_max_ge
    by (fastforce simp: adj_of_def split: if_splits)
  then show "d < length (apply_batch es ss)" by auto
qed

section \<open>Contracts\<close>

text \<open>Reading: size, degree and adjacency agree with the abstraction.\<close>

locale graph_reading =
  fixes ops :: "'g graph_ops"
    and ginv :: "'g \<Rightarrow> bool"
    and succs :: "'g \<Rightarrow> nat list list"
  assumes size_law: "ginv g \<Longrightarrow> g_size ops g = length (succs g)"
    and degree_law: "ginv g \<Longrightarrow> u < length (succs g) \<Longrightarrow>
      g_out_degree ops g u = Inr (length (succs g ! u))"
    and edges_law: "ginv g \<Longrightarrow> u < length (succs g) \<Longrightarrow>
      g_for_each_edge ops g u = Inr (succs g ! u)"
    and closed_law: "ginv g \<Longrightarrow> closed_graph (succs g)"

text \<open>Updating: a batch followed by its post-processing is \<open>apply_batch\<close>.\<close>

locale graph_updating = graph_reading +
  assumes batch_law: "galois_ok rt \<Longrightarrow> ginv g \<Longrightarrow> batch_ok es \<Longrightarrow>
      edge_total (apply_batch es (succs g)) \<le> u64_max \<Longrightarrow>
      \<exists>g' g''. g_ingest ops rt es g = Inr g' \<and> g_post_ingest ops rt g' = Inr g'' \<and>
        ginv g'' \<and> succs g'' = apply_batch es (succs g)"

text \<open>Sorting: the two operations triangle counting needs besides reading.\<close>

locale graph_sorting = graph_reading +
  assumes sort_law: "ginv g \<Longrightarrow> u < length (succs g) \<Longrightarrow>
      \<exists>g'. g_sort_edges ops u g = Inr g' \<and> ginv g' \<and>
        succs g' = (succs g)[u := sort (succs g ! u)]"
    and find_law: "ginv g \<Longrightarrow> u < length (succs g) \<Longrightarrow> sorted (succs g ! u) \<Longrightarrow>
      g_find_edge_sorted ops g u d = Inr (d \<in> set (succs g ! u))"

text \<open>A sequence of batches, as the two benchmark drivers feed them.\<close>

definition load_batch :: "'g graph_ops \<Rightarrow> galois_rt \<Rightarrow> batch \<Rightarrow> 'g \<Rightarrow> 'g res" where
  "load_batch ops rt es g = res_bind (g_ingest ops rt es g) (g_post_ingest ops rt)"

definition load_batches :: "'g graph_ops \<Rightarrow> galois_rt \<Rightarrow> batch list \<Rightarrow> 'g \<Rightarrow> 'g res" where
  "load_batches ops rt bs g = fold_res (load_batch ops rt) bs g"

fun batches_fit :: "batch list \<Rightarrow> nat list list \<Rightarrow> bool" where
  "batches_fit [] ss = True"
| "batches_fit (es # bs) ss =
     (batch_ok es \<and> edge_total (apply_batch es ss) \<le> u64_max \<and>
      batches_fit bs (apply_batch es ss))"

context graph_updating
begin

lemma load_batch_ok:
  assumes "galois_ok rt" "ginv g" "batch_ok es"
    "edge_total (apply_batch es (succs g)) \<le> u64_max"
  shows "\<exists>g'. load_batch ops rt es g = Inr g' \<and> ginv g' \<and> succs g' = apply_batch es (succs g)"
  using batch_law [OF assms] by (auto simp: load_batch_def)

lemma load_batches_ok:
  assumes "galois_ok rt" "ginv g" "batches_fit bs (succs g)"
  shows "\<exists>g'. load_batches ops rt bs g = Inr g' \<and> ginv g' \<and>
    succs g' = fold apply_batch bs (succs g)"
  using assms(2,3)
proof (induction bs arbitrary: g)
  case Nil
  then show ?case by (simp add: load_batches_def)
next
  case (Cons es bs)
  then obtain g' where "load_batch ops rt es g = Inr g'" "ginv g'"
      "succs g' = apply_batch es (succs g)"
    using load_batch_ok [OF assms(1), of g es] by auto
  with Cons.IH [of g'] Cons.prems show ?case by (simp add: load_batches_def)
qed

end

end
