(* ===== verification/AdjGraph.thy ===== *)
theory AdjGraph
  imports GraphInterface
begin

text \<open>
  \<open>AdjGraph\<close> (include/scea/graph/adj.hpp): a vector of adjacency vectors. The operations are
  defined for every extension of its record, because \<open>CSR\<close> and \<open>LC_CSR\<close> derive from
  the class and inherit them.
\<close>

record adj_graph =
  m_edges :: "nat list list"

definition adj_size :: "'a adj_graph_scheme \<Rightarrow> nat" where
  "adj_size g = length (m_edges g)"

definition adj_get_out_degree :: "'a adj_graph_scheme \<Rightarrow> nat \<Rightarrow> nat res" where
  "adj_get_out_degree g src = res_map length (vec_get (m_edges g) src)"

text \<open>The two loops of \<open>ingest\<close>: what each edge list reports to the maximum, and the copy.\<close>

definition find_max_updates :: "nat \<times> nat list \<Rightarrow> nat list \<Rightarrow> nat list res" where
  "find_max_updates p ups =
     (case p of (src, dsts) \<Rightarrow>
        Inr (ups @ src # (if dsts = [] then [] else [max_element dsts])))"

definition append_edges :: "nat \<times> nat list \<Rightarrow> nat list list \<Rightarrow> nat list list res" where
  "append_edges p es = (case p of (src, dsts) \<Rightarrow> vec_update es src (\<lambda>old. old @ dsts))"

definition adj_ingest ::
  "galois_rt \<Rightarrow> batch \<Rightarrow> 'a adj_graph_scheme \<Rightarrow> 'a adj_graph_scheme res" where
  "adj_ingest rt edges g =
     res_bind (do_all rt 0 find_max_updates edges []) (\<lambda>ups.
     let m = m_edges g;
         m' = vec_resize (max (length m) (u64_add (reduce_max rt ups) 1)) [] m
     in res_bind (do_all rt 1 append_edges edges m') (\<lambda>m''.
        Inr (g\<lparr>m_edges := m''\<rparr>)))"

definition adj_post_ingest :: "galois_rt \<Rightarrow> 'a adj_graph_scheme \<Rightarrow> 'a adj_graph_scheme res" where
  "adj_post_ingest rt g = Inr g"

definition adj_for_each_edge :: "'a adj_graph_scheme \<Rightarrow> nat \<Rightarrow> nat list res" where
  "adj_for_each_edge g src = vec_get (m_edges g) src"

definition adj_sort_edges :: "nat \<Rightarrow> 'a adj_graph_scheme \<Rightarrow> 'a adj_graph_scheme res" where
  "adj_sort_edges src g = res_map (\<lambda>m. g\<lparr>m_edges := m\<rparr>) (vec_update (m_edges g) src sort)"

definition adj_find_edge_sorted :: "'a adj_graph_scheme \<Rightarrow> nat \<Rightarrow> nat \<Rightarrow> bool res" where
  "adj_find_edge_sorted g src dst =
     res_bind (vec_get (m_edges g) src) (\<lambda>es. binary_search es dst)"

definition adj_ops :: "adj_graph graph_ops" where
  "adj_ops = \<lparr>g_size = adj_size, g_out_degree = adj_get_out_degree, g_ingest = adj_ingest,
     g_post_ingest = adj_post_ingest, g_for_each_edge = adj_for_each_edge,
     g_sort_edges = adj_sort_edges, g_find_edge_sorted = adj_find_edge_sorted\<rparr>"

definition empty_adj :: adj_graph where
  "empty_adj = \<lparr>m_edges = []\<rparr>"

lemmas adj_defs = adj_ops_def adj_size_def adj_get_out_degree_def adj_for_each_edge_def
  adj_post_ingest_def adj_sort_edges_def adj_find_edge_sorted_def

section \<open>Ingesting a batch\<close>

lemma find_max_loop:
  assumes "galois_ok rt"
  shows "\<exists>ups. do_all rt k find_max_updates es [] = Inr ups \<and> fold max ups 0 = batch_max es"
proof -
  let ?P = "\<lambda>ys ups. \<forall>b. fold max ups 0 \<le> b \<longleftrightarrow> (\<forall>x\<in>set (batch_ids ys). x \<le> b)"
  have "\<exists>ys ups. mset ys = mset es \<and> do_all rt k find_max_updates es [] = Inr ups \<and> ?P ys ups"
  proof (rule do_all_rule [OF assms])
    fix ys :: batch and x :: "nat \<times> nat list" and t
    assume "?P ys t"
    moreover obtain src dsts where "x = (src, dsts)" by (cases x)
    moreover have "dsts \<noteq> [] \<Longrightarrow> max_element dsts \<le> b \<longleftrightarrow> (\<forall>d\<in>set dsts. d \<le> b)" for b
      by (auto simp: max_element_def fold_max_le_iff)
    ultimately show "\<exists>t'. find_max_updates x t = Inr t' \<and> ?P (ys @ [x]) t'"
      by (auto simp: find_max_updates_def batch_ids_def fold_max_le_iff)
  qed (simp add: batch_ids_def fold_max_le_iff)
  then obtain ys ups where ys: "mset ys = mset es"
    and run: "do_all rt k find_max_updates es [] = Inr ups" and P: "?P ys ups" by blast
  have "set (batch_ids ys) = set (batch_ids es)"
    using mset_eq_setD [OF ys] by (simp add: batch_ids_def)
  with P have "fold max ups 0 \<le> b \<longleftrightarrow> batch_max es \<le> b" for b
    by (simp add: batch_max_def fold_max_le_iff)
  then have "fold max ups 0 = batch_max es" by (metis order_antisym order_refl)
  with run show ?thesis by blast
qed

lemma append_loop:
  assumes "galois_ok rt" and "distinct (map fst es)"
    and "\<And>p. p \<in> set es \<Longrightarrow> fst p < length m"
  shows "\<exists>m'. do_all rt k append_edges es m = Inr m' \<and> length m' = length m \<and>
    (\<forall>u<length m. m' ! u = m ! u @ batch_for es u)"
proof -
  let ?P = "\<lambda>ys t. length t = length m \<and> (\<forall>u<length m. t ! u = m ! u @ batch_for ys u)"
  have "\<exists>ys t. mset ys = mset es \<and> do_all rt k append_edges es m = Inr t \<and> ?P ys t"
  proof (rule do_all_rule [OF assms(1)])
    fix ys :: batch and x :: "nat \<times> nat list" and t
    assume "x \<in> set es" and P: "?P ys t"
    obtain src dsts where x: "x = (src, dsts)" by (cases x)
    have "src < length t" using assms(3) [OF \<open>x \<in> set es\<close>] P by (simp add: x)
    then have "append_edges x t = Inr (t[src := t ! src @ dsts])"
      by (simp add: append_edges_def x)
    moreover have "?P (ys @ [x]) (t[src := t ! src @ dsts])"
      using P by (simp add: x batch_for_def nth_list_update)
    ultimately show "\<exists>t'. append_edges x t = Inr t' \<and> ?P (ys @ [x]) t'" by blast
  qed (simp add: batch_for_def)
  then obtain ys t where ys: "mset ys = mset es" and run: "do_all rt k append_edges es m = Inr t"
    and t: "length t = length m" "\<forall>u<length m. t ! u = m ! u @ batch_for ys u" by blast
  have "batch_for ys u = batch_for es u" for u
    unfolding batch_for_def by (rule concat_append_at [OF ys assms(2)])
  with run t show ?thesis by auto
qed

lemma adj_ingest_ok:
  assumes "galois_ok rt" and "batch_ok es"
  shows "adj_ingest rt es g = Inr (g\<lparr>m_edges := apply_batch es (m_edges g)\<rparr>)"
proof -
  let ?m = "m_edges g"
  let ?n = "max (length ?m) (Suc (batch_max es))"
  let ?r = "vec_resize ?n [] ?m"
  obtain ups where ups: "do_all rt 0 find_max_updates es [] = Inr ups"
    and max: "fold max ups 0 = batch_max es"
    using find_max_loop [OF assms(1)] by blast
  have red: "u64_add (reduce_max rt ups) 1 = Suc (batch_max es)"
    using assms batch_max_less [OF assms(2)] max
    by (simp add: galois_ok_def u64_add_small)
  have "fst p < length ?r" if "p \<in> set es" for p
  proof -
    have "fst p \<in> set (batch_ids es)" using that by (auto simp: batch_ids_def)
    then show ?thesis using batch_max_ge by fastforce
  qed
  then obtain m' where run: "do_all rt 1 append_edges es ?r = Inr m'"
    and len: "length m' = ?n" and nth: "\<forall>u<?n. m' ! u = ?r ! u @ batch_for es u"
    using append_loop [OF assms(1), of es ?r 1] assms(2) by (auto simp: batch_ok_def)
  have "m' = apply_batch es ?m"
    by (rule nth_equalityI)
      (auto simp: len nth nth_apply_batch nth_vec_resize adj_of_def)
  with ups run red show ?thesis by (simp add: adj_ingest_def)
qed

section \<open>The contracts hold\<close>

definition adj_inv :: "adj_graph \<Rightarrow> bool" where
  "adj_inv g \<longleftrightarrow> closed_graph (m_edges g)"

lemma length_sort_at [simp]: "length (xs[u := sort (xs ! u)]) = length xs"
  by simp

lemma closed_graph_sort_at:
  "closed_graph ss \<Longrightarrow> u < length ss \<Longrightarrow> closed_graph (ss[u := sort (ss ! u)])"
  by (rule closed_graphI) (auto simp: nth_list_update dest: closed_graphD split: if_splits)

interpretation adjr: graph_updating adj_ops adj_inv m_edges
proof unfold_locales
  fix rt g es
  assume "galois_ok rt" "adj_inv g" "batch_ok es"
  then show "\<exists>g' g''. g_ingest adj_ops rt es g = Inr g' \<and> g_post_ingest adj_ops rt g' = Inr g'' \<and>
      adj_inv g'' \<and> m_edges g'' = apply_batch es (m_edges g)"
    by (simp add: adj_defs adj_ingest_ok adj_inv_def closed_apply_batch)
qed (auto simp: adj_defs adj_inv_def)

interpretation adjs: graph_sorting adj_ops adj_inv m_edges
  by unfold_locales
    (auto simp: adj_defs adj_inv_def closed_graph_sort_at binary_search_sorted)

end
