(* ===== verification/CsrGraph.thy ===== *)
theory CsrGraph
  imports AdjGraph
begin

text \<open>
  \<open>CSR\<close> (include/scea/graph/csr.hpp): derives from \<open>AdjGraph\<close>, inherits its \<open>ingest\<close>,
  and rebuilds a compressed sparse row copy of the adjacency vectors in \<open>post_ingest\<close>.
  The reading operations use the copy. The prefix sum is the runtime's; the three functions
  handed to it are the code's.
\<close>

record csr_graph = adj_graph +
  m_vertices :: "nat list"
  m_edges_compact :: "nat list"

definition transmute :: "nat list \<Rightarrow> nat" where
  "transmute p = length p"

definition scan_op :: "nat list \<Rightarrow> nat \<Rightarrow> nat" where
  "scan_op p l = u64_add (length p) l"

definition combiner :: "nat \<Rightarrow> nat \<Rightarrow> nat" where
  "combiner f s = u64_add f s"

definition parallel_prefix_sum_vertex_threshold :: nat where
  "parallel_prefix_sum_vertex_threshold = 2 ^ 25"

definition empty_csr :: csr_graph where
  "empty_csr = \<lparr>m_edges = [], m_vertices = [0], m_edges_compact = []\<rparr>"

definition csr_size :: "csr_graph \<Rightarrow> nat" where
  "csr_size g = length (m_vertices g) - 1"

definition csr_get_out_degree :: "csr_graph \<Rightarrow> nat \<Rightarrow> nat res" where
  "csr_get_out_degree g src =
     res_bind (vec_get (m_vertices g) (src + 1)) (\<lambda>b.
     res_bind (vec_get (m_vertices g) src) (\<lambda>a. Inr (u64_sub b a)))"

text \<open>\<open>std::copy\<close> of a vector into the compact array, at an offset.\<close>

definition copy_at :: "nat \<Rightarrow> nat list \<Rightarrow> nat list \<Rightarrow> nat list res" where
  "copy_at off xs ys =
     (if off + length xs \<le> length ys
      then Inr (take off ys @ xs @ drop (off + length xs) ys) else Inl OutOfRange)"

definition copy_edges :: "nat list list \<Rightarrow> nat list \<Rightarrow> nat \<Rightarrow> nat list \<Rightarrow> nat list res" where
  "copy_edges m v i c =
     res_bind (vec_get m i) (\<lambda>es. res_bind (vec_get v i) (\<lambda>off. copy_at off es c))"

definition csr_post_ingest :: "galois_rt \<Rightarrow> csr_graph \<Rightarrow> csr_graph res" where
  "csr_post_ingest rt g =
     (let m = m_edges g; num_vertices = length m in
      if num_vertices = 0 then Inr g
      else
        let v = vec_resize (num_vertices + 1) 0 (m_vertices g);
            pfx = (if num_vertices < parallel_prefix_sum_vertex_threshold
                   then prefix_serial rt transmute scan_op combiner m
                   else prefix_par rt transmute scan_op combiner m);
            v' = take 1 v @ pfx
        in if v' ! 0 \<noteq> 0 then Inl AssertFailed
           else res_map (\<lambda>c. g\<lparr>m_vertices := v', m_edges_compact := c\<rparr>)
             (do_all rt 2 (copy_edges m v') [0..<num_vertices]
               (vec_resize (last v') 0 (m_edges_compact g))))"

definition csr_for_each_edge :: "csr_graph \<Rightarrow> nat \<Rightarrow> nat list res" where
  "csr_for_each_edge g src =
     res_bind (vec_get (m_vertices g) src) (\<lambda>a.
     res_bind (vec_get (m_vertices g) (src + 1)) (\<lambda>b.
       fold_res (\<lambda>i out. res_map (\<lambda>d. out @ [d]) (vec_get (m_edges_compact g) i)) [a..<b] []))"

text \<open>Both ends of the sorted range are \<open>m_vertices[src]\<close>, as in the source.\<close>

definition csr_sort_edges :: "nat \<Rightarrow> csr_graph \<Rightarrow> csr_graph res" where
  "csr_sort_edges src g =
     res_bind (vec_get (m_vertices g) src) (\<lambda>a.
     res_bind (vec_get (m_vertices g) src) (\<lambda>b.
       res_map (\<lambda>c. g\<lparr>m_edges_compact := c\<rparr>) (sort_range a b (m_edges_compact g))))"

definition csr_find_edge_sorted :: "csr_graph \<Rightarrow> nat \<Rightarrow> nat \<Rightarrow> bool res" where
  "csr_find_edge_sorted g src dst =
     res_bind (vec_get (m_vertices g) src) (\<lambda>a.
     res_bind (vec_get (m_vertices g) (src + 1)) (\<lambda>b.
     res_bind (sub_range a b (m_edges_compact g)) (\<lambda>es. binary_search es dst)))"

definition csr_ops :: "csr_graph graph_ops" where
  "csr_ops = \<lparr>g_size = csr_size, g_out_degree = csr_get_out_degree, g_ingest = adj_ingest,
     g_post_ingest = csr_post_ingest, g_for_each_edge = csr_for_each_edge,
     g_sort_edges = csr_sort_edges, g_find_edge_sorted = csr_find_edge_sorted\<rparr>"

section \<open>Offsets\<close>

definition row_start :: "nat list list \<Rightarrow> nat \<Rightarrow> nat" where
  "row_start m i = length (concat (take i m))"

lemma row_start_0 [simp]: "row_start m 0 = 0"
  by (simp add: row_start_def)

lemma row_start_Suc: "i < length m \<Longrightarrow> row_start m (Suc i) = row_start m i + length (m ! i)"
  by (simp add: row_start_def take_Suc_conv_app_nth)

lemma row_start_Cons: "row_start (x # m) (Suc i) = length x + row_start m i"
  by (simp add: row_start_def)

lemma row_start_end: "row_start m (length m) = edge_total m"
  by (simp add: row_start_def edge_total_def length_concat)

lemma row_start_mono: "i \<le> j \<Longrightarrow> row_start m i \<le> row_start m j"
  using take_add [of i "j - i" m] by (simp add: row_start_def)

lemma row_start_le_total: "row_start m i \<le> edge_total m"
  by (metis append_take_drop_id concat_append edge_total_def le_add1 length_append
      length_concat row_start_def)

lemma row_slice:
  "i < length m \<Longrightarrow> take (length (m ! i)) (drop (row_start m i) (concat m)) = m ! i"
  by (simp add: row_start_def take_drop_concat)

lemma row_entry:
  assumes "i < length m" "k < length (m ! i)"
  shows "concat m ! (row_start m i + k) = m ! i ! k"
proof -
  have "m ! i ! k = take (length (m ! i)) (drop (row_start m i) (concat m)) ! k"
    by (simp add: row_slice assms(1))
  also have "\<dots> = concat m ! (row_start m i + k)"
    using assms row_start_le_total [of m "Suc i"]
    by (simp add: row_start_Suc edge_total_def length_concat)
  finally show ?thesis by simp
qed

text \<open>Every position of the concatenation belongs to a row.\<close>

lemma position_in_row:
  assumes "p < length (concat m)"
  shows "\<exists>i<length m. row_start m i \<le> p \<and> p < row_start m (Suc i)"
  using assms
proof (induction m arbitrary: p)
  case (Cons x m)
  show ?case
  proof (cases "p < length x")
    case True
    then show ?thesis by (intro exI [of _ 0]) (simp add: row_start_Cons)
  next
    case False
    with Cons.prems have "p - length x < length (concat m)" by auto
    then obtain i where "i < length m" "row_start m i \<le> p - length x"
      "p - length x < row_start m (Suc i)"
      using Cons.IH by blast
    with False show ?thesis
      by (intro exI [of _ "Suc i"]) (auto simp: row_start_Cons)
  qed
qed simp

section \<open>The prefix sum\<close>

lemma scan_from_nth:
  assumes "acc + edge_total m \<le> u64_max"
  shows "scan_from scan_op acc m = map (\<lambda>i. acc + row_start m (Suc i)) [0..<length m]"
  using assms
proof (induction m arbitrary: acc)
  case (Cons x m)
  then have step: "scan_op x acc = acc + length x"
    by (simp add: scan_op_def u64_add_small edge_total_def)
  have "scan_from scan_op (acc + length x) m =
      map (\<lambda>i. acc + length x + row_start m (Suc i)) [0..<length m]"
    using Cons.prems by (intro Cons.IH) (simp add: edge_total_def)
  then show ?case
    by (simp add: step row_start_Cons map_upt_Suc add.assoc del: upt_Suc)
qed simp

lemma inclusive_scan_rows:
  assumes "edge_total m \<le> u64_max"
  shows "inclusive_scan transmute scan_op m = map (\<lambda>i. row_start m (Suc i)) [0..<length m]"
proof (cases m)
  case (Cons x xs)
  have "scan_from scan_op (length x) xs =
      map (\<lambda>i. length x + row_start xs (Suc i)) [0..<length xs]"
    using assms by (intro scan_from_nth) (simp add: Cons edge_total_def)
  then show ?thesis
    by (simp add: Cons transmute_def row_start_Cons map_upt_Suc del: upt_Suc)
qed simp

lemma combiner_laws:
  "scan_op p l = combiner (transmute p) l"
  "combiner (combiner a b) c = combiner a (combiner b c)"
  by (simp_all add: scan_op_def combiner_def transmute_def u64_add_def mod_add_left_eq
      mod_add_right_eq add.assoc)

lemma prefix_sum_rows:
  assumes "galois_ok rt" and "edge_total m \<le> u64_max"
  shows "prefix_serial rt transmute scan_op combiner m =
      map (\<lambda>i. row_start m (Suc i)) [0..<length m]"
    and "prefix_par rt transmute scan_op combiner m =
      map (\<lambda>i. row_start m (Suc i)) [0..<length m]"
  using assms combiner_laws by (simp_all add: galois_ok_def inclusive_scan_rows)

section \<open>Compacting the edges\<close>

definition row_starts :: "nat list list \<Rightarrow> nat list" where
  "row_starts m = map (row_start m) [0..<Suc (length m)]"

lemma length_row_starts [simp]: "length (row_starts m) = Suc (length m)"
  by (simp add: row_starts_def)

lemma nth_row_starts [simp]: "i \<le> length m \<Longrightarrow> row_starts m ! i = row_start m i"
  by (simp add: row_starts_def del: upt_Suc)

lemma row_starts_Cons:
  "row_starts m = 0 # map (\<lambda>i. row_start m (Suc i)) [0..<length m]"
  by (simp add: row_starts_def map_upt_Suc del: upt_Suc)

lemma last_row_starts [simp]: "last (row_starts m) = edge_total m"
  by (simp add: row_starts_def row_start_end)

text \<open>
  The copies may run in any order. What is kept: wherever a row has been copied, the array
  agrees with the concatenation.
\<close>

lemma copy_loop:
  assumes "galois_ok rt" and len: "length c = edge_total m"
  shows "do_all rt k (copy_edges m (row_starts m)) [0..<length m] c = Inr (concat m)"
proof -
  let ?in = "\<lambda>p i. row_start m i \<le> p \<and> p < row_start m (Suc i)"
  let ?P = "\<lambda>ys t. length t = length (concat m) \<and>
    (\<forall>p. (\<exists>i\<in>set ys. i < length m \<and> ?in p i) \<longrightarrow> t ! p = concat m ! p)"
  have "\<exists>ys t. mset ys = mset [0..<length m] \<and>
      do_all rt k (copy_edges m (row_starts m)) [0..<length m] c = Inr t \<and> ?P ys t"
  proof (rule do_all_rule [OF assms(1)])
    fix ys x t
    assume "x \<in> set [0..<length m]" and P: "?P ys t"
    then have x: "x < length m" by simp
    let ?a = "row_start m x" and ?es = "m ! x"
    let ?t' = "take ?a t @ ?es @ drop (?a + length ?es) t"
    have fits: "?a + length ?es \<le> length t"
      using row_start_le_total [of m "Suc x"] P x
      by (simp add: row_start_Suc edge_total_def length_concat)
    have "t' ! p = concat m ! p"
      if "t' = ?t'" and "\<exists>i\<in>set (ys @ [x]). i < length m \<and> ?in p i" for p t'
    proof (cases "?in p x")
      case True
      then have "p = ?a + (p - ?a)" "p - ?a < length ?es"
        using x by (auto simp: row_start_Suc)
      then show ?thesis
        using True fits row_entry [OF x, of "p - ?a"] that(1) by (simp add: nth_append)
    next
      case False
      then have "t ! p = concat m ! p" using that(2) P by auto
      moreover from False have "p < ?a \<or> ?a + length ?es \<le> p"
        using x by (auto simp: row_start_Suc)
      moreover have "p < length t"
        using that(2) P row_start_le_total [of m]
        by (auto simp: edge_total_def length_concat intro: order.strict_trans2)
      ultimately show ?thesis
        using fits that(1) by (auto simp: nth_append)
    qed
    moreover have "copy_edges m (row_starts m) x t = Inr ?t'"
      using x fits by (simp add: copy_edges_def copy_at_def)
    ultimately show "\<exists>t'. copy_edges m (row_starts m) x t = Inr t' \<and> ?P (ys @ [x]) t'"
      using P fits by auto
  qed (simp add: len edge_total_def length_concat)
  then obtain ys t where ys: "mset ys = mset [0..<length m]"
    and run: "do_all rt k (copy_edges m (row_starts m)) [0..<length m] c = Inr t"
    and t: "?P ys t" by blast
  have "set ys = {0..<length m}" using mset_eq_setD [OF ys] by simp
  with t position_in_row [of _ m] have "t = concat m"
    by (intro nth_equalityI) (auto, meson atLeastLessThan_iff le0)
  with run show ?thesis by simp
qed

section \<open>The contracts hold, but for sorting\<close>

definition csr_inv :: "csr_graph \<Rightarrow> bool" where
  "csr_inv g \<longleftrightarrow> closed_graph (m_edges g) \<and> edge_total (m_edges g) \<le> u64_max \<and>
     m_vertices g = row_starts (m_edges g) \<and> m_edges_compact g = concat (m_edges g)"

lemma csr_inv_empty [simp]: "csr_inv empty_csr"
  by (simp add: csr_inv_def empty_csr_def closed_graph_def edge_total_def row_starts_def)

lemma csr_post_ingest_ok:
  assumes "galois_ok rt" and "m_edges g \<noteq> []" and "edge_total (m_edges g) \<le> u64_max"
    and "m_vertices g = 0 # vs"
  shows "csr_post_ingest rt g = Inr (g\<lparr>m_vertices := row_starts (m_edges g),
    m_edges_compact := concat (m_edges g)\<rparr>)"
proof -
  let ?m = "m_edges g"
  have "take 1 (vec_resize (length ?m + 1) 0 (m_vertices g)) = [0]"
    by (simp add: vec_resize_def assms(4))
  then have v: "take 1 (vec_resize (length ?m + 1) 0 (m_vertices g)) @
      (if length ?m < parallel_prefix_sum_vertex_threshold
       then prefix_serial rt transmute scan_op combiner ?m
       else prefix_par rt transmute scan_op combiner ?m) = row_starts ?m"
    using prefix_sum_rows [OF assms(1,3)] by (simp add: row_starts_Cons)
  show ?thesis
    unfolding csr_post_ingest_def Let_def v
    using assms(2) copy_loop [OF assms(1)] by simp
qed

lemma csr_row_bounds:
  assumes "csr_inv g" "u < length (m_edges g)"
  shows "vec_get (m_vertices g) u = Inr (row_start (m_edges g) u)"
    and "vec_get (m_vertices g) (Suc u) = Inr (row_start (m_edges g) u + length (m_edges g ! u))"
    and "row_start (m_edges g) u + length (m_edges g ! u) \<le> length (m_edges_compact g)"
  using assms row_start_le_total [of "m_edges g" "Suc u"]
  by (auto simp: csr_inv_def row_start_Suc edge_total_def length_concat)

lemma collect_slice:
  assumes "b \<le> length c"
  shows "fold_res (\<lambda>i out. res_map (\<lambda>d. out @ [d]) (vec_get c i)) [a..<b] out =
    Inr (out @ map ((!) c) [a..<b])"
proof -
  have "fold_res (\<lambda>i out. res_map (\<lambda>d. out @ [d]) (vec_get c i)) is out =
      Inr (out @ map ((!) c) is)" if "\<forall>i\<in>set is. i < length c" for "is"
    using that by (induction "is" arbitrary: out) auto
  then show ?thesis using assms by simp
qed

lemma map_nth_slice: "a + n \<le> length c \<Longrightarrow> map ((!) c) [a..<a + n] = take n (drop a c)"
  by (rule nth_equalityI) auto

lemma csr_for_each_edge_ok:
  "csr_inv g \<Longrightarrow> u < length (m_edges g) \<Longrightarrow> csr_for_each_edge g u = Inr (m_edges g ! u)"
  using csr_row_bounds [of g u]
  by (simp add: csr_for_each_edge_def collect_slice map_nth_slice row_slice)
    (simp add: csr_inv_def row_slice)

lemma csr_degree_ok:
  assumes "csr_inv g" "u < length (m_edges g)"
  shows "csr_get_out_degree g u = Inr (length (m_edges g ! u))"
proof -
  have "length (m_edges g ! u) \<le> u64_max"
    using csr_row_bounds [OF assms] assms(1)
    by (auto simp: csr_inv_def edge_total_def length_concat)
  then show ?thesis
    using csr_row_bounds [OF assms]
    by (simp add: csr_get_out_degree_def u64_sub_def u64_max_def)
qed

lemma csr_find_ok:
  assumes "csr_inv g" "u < length (m_edges g)"
  shows "csr_find_edge_sorted g u d = binary_search (m_edges g ! u) d"
  using csr_row_bounds [OF assms] assms
  by (simp add: csr_find_edge_sorted_def sub_range_def) (simp add: csr_inv_def row_slice)

interpretation csrr: graph_updating csr_ops csr_inv m_edges
proof unfold_locales
  fix rt :: galois_rt and g es
  assume rt: "galois_ok rt" and g: "csr_inv g" and es: "batch_ok es"
    and fits: "edge_total (apply_batch es (m_edges g)) \<le> u64_max"
  let ?g = "g\<lparr>m_edges := apply_batch es (m_edges g)\<rparr>"
  have "m_vertices ?g = 0 # map (\<lambda>i. row_start (m_edges g) (Suc i)) [0..<length (m_edges g)]"
    using g by (simp add: csr_inv_def row_starts_Cons)
  moreover have "apply_batch es (m_edges g) \<noteq> []"
    by (metis length_apply_batch list.size(3) max.cobounded2 not_less_eq_eq zero_le)
  ultimately have "csr_post_ingest rt ?g = Inr (?g\<lparr>m_vertices := row_starts (m_edges ?g),
      m_edges_compact := concat (m_edges ?g)\<rparr>)"
    using fits by (intro csr_post_ingest_ok [OF rt]) auto
  then show "\<exists>g' g''. g_ingest csr_ops rt es g = Inr g' \<and>
      g_post_ingest csr_ops rt g' = Inr g'' \<and>
      csr_inv g'' \<and> m_edges g'' = apply_batch es (m_edges g)"
    using adj_ingest_ok [OF rt es, of g] g fits
    by (simp add: csr_ops_def csr_inv_def closed_apply_batch)
qed (auto simp: csr_ops_def csr_size_def csr_degree_ok csr_for_each_edge_ok csr_inv_def)

text \<open>\<open>sort_edges\<close> sorts an empty range: it changes nothing.\<close>

lemma csr_sort_edges_noop:
  assumes "csr_inv g" "u < length (m_edges g)"
  shows "csr_sort_edges u g = Inr g"
  using csr_row_bounds [OF assms] by (simp add: csr_sort_edges_def sort_range_def)

end
