(* ===== verification/Batches.thy ===== *)
theory Batches
  imports CsrGraph
begin

text \<open>
  Where the batches come from: grouping an edge list by source (the hash maps of
  \<open>prepare_batch\<close> and of the text driver), the index arithmetic that splits the edges of a
  binary file into batches, and the loading loop of microbench/edit\_scalability\_large.cpp.
\<close>

type_synonym edge = "nat \<times> nat"

section \<open>Edges as multisets\<close>

definition edge_list :: "nat list list \<Rightarrow> edge list" where
  "edge_list ss = concat (map (\<lambda>u. map (Pair u) (ss ! u)) [0..<length ss])"

definition batch_edges :: "batch \<Rightarrow> edge list" where
  "batch_edges es = concat (map (\<lambda>(u, ds). map (Pair u) ds) es)"

lemma batch_edges_simps [simp]:
  "batch_edges [] = []"
  "batch_edges ((u, ds) # es) = map (Pair u) ds @ batch_edges es"
  by (simp_all add: batch_edges_def)

lemma mset_concat_upt: "mset (concat (map f [0..<n])) = (\<Sum>u<n. mset (f u))"
  by (induction n) (simp_all add: lessThan_Suc add.commute)

lemma sum_single_key:
  fixes u n :: nat
  shows "u < n \<Longrightarrow> (\<Sum>v<n. image_mset (Pair v) (mset (if u = v then ds else []))) =
    image_mset (Pair u) (mset ds)"
proof -
  assume "u < n"
  have "(\<Sum>v<n. image_mset (Pair v) (mset (if u = v then ds else []))) =
      (\<Sum>v<n. if u = v then image_mset (Pair u) (mset ds) else {#})"
    by (intro sum.cong) auto
  also have "\<dots> = image_mset (Pair u) (mset ds)"
    using \<open>u < n\<close> by (subst sum.delta') auto
  finally show ?thesis .
qed

lemma mset_batch_edges:
  "\<forall>p\<in>set es. fst p < n \<Longrightarrow>
    (\<Sum>u<n. image_mset (Pair u) (mset (batch_for es u))) = mset (batch_edges es)"
proof (induction es)
  case Nil
  then show ?case by (simp add: batch_for_def)
next
  case (Cons p es)
  obtain u ds where p: "p = (u, ds)" by (cases p)
  have "mset (batch_for (p # es) v) = mset (if u = v then ds else []) + mset (batch_for es v)" for v
    by (simp add: batch_for_def p)
  with Cons p show ?case by (simp add: sum.distrib sum_single_key)
qed

lemma mset_edge_list_padded:
  assumes "length ss \<le> n"
  shows "(\<Sum>u<n. image_mset (Pair u) (mset (adj_of ss u))) = mset (edge_list ss)"
proof -
  have "(\<Sum>u<n. image_mset (Pair u) (mset (adj_of ss u))) =
      (\<Sum>u<length ss. image_mset (Pair u) (mset (ss ! u)))"
    using assms by (intro sum.mono_neutral_cong_right) (auto simp: adj_of_def)
  then show ?thesis by (simp add: edge_list_def mset_concat_upt)
qed

text \<open>Loading a batch adds exactly its edges.\<close>

lemma edges_apply_batch:
  "mset (edge_list (apply_batch es ss)) = mset (edge_list ss) + mset (batch_edges es)"
proof -
  let ?n = "max (length ss) (Suc (batch_max es))"
  have src: "\<forall>p\<in>set es. fst p < ?n"
  proof
    fix p
    assume "p \<in> set es"
    then have "fst p \<in> set (batch_ids es)" by (auto simp: batch_ids_def)
    then show "fst p < ?n" using batch_max_ge by fastforce
  qed
  have "mset (edge_list (apply_batch es ss)) =
      (\<Sum>u<?n. image_mset (Pair u) (mset (adj_of ss u @ batch_for es u)))"
    by (simp add: edge_list_def mset_concat_upt nth_apply_batch)
  then show ?thesis
    by (simp add: sum.distrib mset_edge_list_padded mset_batch_edges [OF src])
qed

lemma edges_load:
  "mset (edge_list (fold apply_batch bs ss)) =
    mset (edge_list ss) + mset (concat (map batch_edges bs))"
  by (induction bs arbitrary: ss) (auto simp: edges_apply_batch add.assoc)

lemma edge_total_length: "edge_total ss = length (edge_list ss)"
proof -
  have "map length ss = map (\<lambda>u. length (ss ! u)) [0..<length ss]"
    by (rule nth_equalityI) simp_all
  then show ?thesis by (simp add: edge_total_def edge_list_def length_concat comp_def)
qed

lemma edge_total_load:
  "edge_total (fold apply_batch bs ss) = edge_total ss + length (concat (map batch_edges bs))"
  using edges_load [of bs ss] unfolding edge_total_length
  by (metis size_mset size_union)

section \<open>Grouping by source\<close>

text \<open>
  One insertion into a hash map from sources to destination vectors: \<open>lazy_emplace_l\<close> in
  \<open>prepare_batch\<close>, \<open>insertions[src].emplace_back(tmp)\<close> in the text driver. The map is an
  association list; the order in which its entries are later enumerated is a parameter.
\<close>

fun add_dst :: "nat \<Rightarrow> nat \<Rightarrow> batch \<Rightarrow> batch" where
  "add_dst s d [] = [(s, [d])]"
| "add_dst s d ((u, ds) # m) = (if u = s then (u, ds @ [d]) # m else (u, ds) # add_dst s d m)"

definition map_order_ok :: "(batch \<Rightarrow> batch) \<Rightarrow> bool" where
  "map_order_ok h \<longleftrightarrow> (\<forall>m. mset (h m) = mset m)"

lemma map_order_ok_id [simp]: "map_order_ok (\<lambda>m. m)" "map_order_ok rev"
  by (simp_all add: map_order_ok_def)

lemma add_dst_keys: "set (map fst (add_dst s d m)) = insert s (set (map fst m))"
  by (induction s d m rule: add_dst.induct) auto

lemma add_dst_distinct: "distinct (map fst m) \<Longrightarrow> distinct (map fst (add_dst s d m))"
proof (induction s d m rule: add_dst.induct)
  case (2 s d u ds m)
  then show ?case using add_dst_keys [of s d m] by auto
qed simp

lemma add_dst_edges: "mset (batch_edges (add_dst s d m)) = add_mset (s, d) (mset (batch_edges m))"
  by (induction s d m rule: add_dst.induct) auto

text \<open>Well-formed maps: distinct sources, none of them without a destination.\<close>

definition grouped :: "batch \<Rightarrow> bool" where
  "grouped m \<longleftrightarrow> distinct (map fst m) \<and> (\<forall>p\<in>set m. snd p \<noteq> [])"

lemma grouped_empty [simp]: "grouped []"
  by (simp add: grouped_def)

lemma grouped_add_dst: "grouped m \<Longrightarrow> grouped (add_dst s d m)"
  unfolding grouped_def
  by (intro conjI add_dst_distinct) (blast, induction s d m rule: add_dst.induct, auto split: if_splits)

lemma batch_ids_grouped:
  "grouped m \<Longrightarrow> set (batch_ids m) = fst ` set (batch_edges m) \<union> snd ` set (batch_edges m)"
  unfolding grouped_def
proof (induction m)
  case Nil
  then show ?case by (simp add: batch_ids_def)
next
  case (Cons p m)
  obtain u ds where p: "p = (u, ds)" "ds \<noteq> []" using Cons.prems by (cases p) auto
  have "set (batch_ids (p # m)) = insert u (set ds) \<union> set (batch_ids m)"
    by (simp add: batch_ids_def p)
  moreover have "fst ` set (batch_edges (p # m)) = insert u (fst ` set (batch_edges m))"
    "snd ` set (batch_edges (p # m)) = set ds \<union> snd ` set (batch_edges m)"
    using p by (auto simp: image_Un image_image image_constant_conv)
  ultimately show ?case using Cons by auto
qed

text \<open>The requirement on batches holds for every grouped edge list of vertex identifiers.\<close>

definition ids_ok :: "edge list \<Rightarrow> bool" where
  "ids_ok xs \<longleftrightarrow> (\<forall>e\<in>set xs. fst e < u64_max \<and> snd e < u64_max)"

lemma mset_batch_edges_sum:
  "mset (batch_edges es) = sum_mset (image_mset (\<lambda>p. mset (map (Pair (fst p)) (snd p))) (mset es))"
  by (induction es) (auto simp: batch_edges_def)

lemma mset_batch_edges_perm: "mset es = mset es' \<Longrightarrow> mset (batch_edges es) = mset (batch_edges es')"
  by (simp add: mset_batch_edges_sum)

lemma grouped_perm:
  assumes "mset es = mset es'" "grouped es'"
  shows "grouped es"
proof -
  have "mset (map fst es) = mset (map fst es')" using assms(1) by simp
  then have "distinct (map fst es) \<longleftrightarrow> distinct (map fst es')"
    by (rule mset_eq_imp_distinct_iff)
  with assms mset_eq_setD [OF assms(1)] show ?thesis by (simp add: grouped_def)
qed

lemma grouped_batch_ok: "grouped m \<Longrightarrow> ids_ok (batch_edges m) \<Longrightarrow> batch_ok m"
  using batch_ids_grouped [of m]
  by (auto simp: batch_ok_def ids_ok_def grouped_def)

section \<open>prepare\_batch\<close>

text \<open>
  The edges between two indices of the mapped file, grouped in parallel under one lock per
  submap. \<open>h\<close> is the enumeration order of the finished map. Mapping a file is Boost's; reading
  the part of a mapped region that lies past the end of the file is an access out of range.
\<close>

definition emplace_edge :: "edge \<Rightarrow> batch \<Rightarrow> batch res" where
  "emplace_edge e m = Inr (add_dst (fst e) (snd e) m)"

definition prepare_batch ::
  "galois_rt \<Rightarrow> (batch \<Rightarrow> batch) \<Rightarrow> edge list \<Rightarrow> nat \<Rightarrow> nat \<Rightarrow> batch res" where
  "prepare_batch rt h file start_index end_index =
     (if end_index \<le> start_index then Inr []
      else if end_index > length file then Inl OutOfRange
      else res_map h (do_all rt 3 emplace_edge
             (take (end_index - start_index) (drop start_index file)) []))"

lemma emplace_loop:
  assumes "galois_ok rt"
  shows "\<exists>m. do_all rt k emplace_edge xs [] = Inr m \<and> grouped m \<and> mset (batch_edges m) = mset xs"
proof -
  let ?P = "\<lambda>ys m. grouped m \<and> mset (batch_edges m) = mset ys"
  have "\<exists>ys m. mset ys = mset xs \<and> do_all rt k emplace_edge xs [] = Inr m \<and> ?P ys m"
    by (rule do_all_rule [OF assms])
      (auto simp: emplace_edge_def grouped_add_dst add_dst_edges)
  then show ?thesis by auto
qed

lemma prepare_batch_ok:
  assumes "galois_ok rt" "map_order_ok h" "b \<le> length file"
  shows "\<exists>m. prepare_batch rt h file a b = Inr m \<and> grouped m \<and>
    mset (batch_edges m) = mset (take (b - a) (drop a file))"
proof (cases "b \<le> a")
  case True
  then show ?thesis by (simp add: prepare_batch_def)
next
  case False
  obtain m where m: "do_all rt 3 emplace_edge (take (b - a) (drop a file)) [] = Inr m"
    "grouped m" "mset (batch_edges m) = mset (take (b - a) (drop a file))"
    using emplace_loop [OF assms(1)] by blast
  moreover have "mset (h m) = mset m" using assms(2) by (simp add: map_order_ok_def)
  ultimately show ?thesis
    using False assms(3) grouped_perm [of "h m" m] mset_batch_edges_perm [of "h m" m]
    by (simp add: prepare_batch_def)
qed

section \<open>Splitting the rest of the file\<close>

text \<open>
  \<open>pre\<close> is the number of edges loaded before batching. The bounds are clamped to the number
  of edges; all arithmetic is on 64 bits.
\<close>

definition num_edges_per_batch :: "nat \<Rightarrow> nat \<Rightarrow> nat \<Rightarrow> nat res" where
  "num_edges_per_batch num_edges pre num_batches =
     (if num_batches = 0 then Inl DivByZero
      else Inr (u64_add (u64_sub num_edges pre) (u64_sub num_batches 1) div num_batches))"

definition batch_range :: "nat \<Rightarrow> nat \<Rightarrow> nat \<Rightarrow> nat \<Rightarrow> nat \<times> nat" where
  "batch_range num_edges pre per batch_number =
     (min num_edges (u64_add pre (u64_mul batch_number per)),
      min num_edges (u64_add pre (u64_mul (u64_add batch_number 1) per)))"

lemma ceil_div_bounds:
  fixes m k :: nat
  assumes "0 < k"
  shows "m \<le> k * ((m + (k - 1)) div k)" and "k * ((m + (k - 1)) div k) \<le> m + (k - 1)"
proof -
  have "k * ((m + (k - 1)) div k) + (m + (k - 1)) mod k = m + (k - 1)" by simp
  moreover have "(m + (k - 1)) mod k < k" using assms by simp
  ultimately show "m \<le> k * ((m + (k - 1)) div k)" by linarith
  show "k * ((m + (k - 1)) div k) \<le> m + (k - 1)" by (rule times_div_less_eq_dividend)
qed

lemma slices_concat:
  assumes "\<And>i. f i \<le> f (Suc i)"
  shows "concat (map (\<lambda>i. take (f (Suc i) - f i) (drop (f i) xs)) [0..<k]) =
    take (f k - f 0) (drop (f 0) xs)"
proof (induction k)
  case (Suc k)
  have mono: "f 0 \<le> f k" "f k \<le> f (Suc k)"
    using lift_Suc_mono_le [of f, OF assms] by auto
  then have "f (Suc k) - f 0 = (f k - f 0) + (f (Suc k) - f k)" by simp
  then have "take (f (Suc k) - f 0) (drop (f 0) xs) =
      take (f k - f 0) (drop (f 0) xs) @ take (f (Suc k) - f k) (drop (f k - f 0) (drop (f 0) xs))"
    by (simp only: take_add)
  with Suc mono show ?case by simp
qed simp

end
