(* ===== verification/TextDriver.thy ===== *)
theory TextDriver
  imports TextStream Batches
begin

text \<open>
  The text format of the batched edge lists, \<open>src dst1 dst2 ...\<close> per line and an empty line
  after every batch: the reading loop of microbench/edit\_scalability.cpp, with and without
  the debug checks of vertex identifiers, and the counting loop of scripts/count\_batched.cpp.
  Variables that an extraction may leave unassigned are options; reading one that was never
  assigned is the error \<open>Indeterminate\<close>.
\<close>

section \<open>Reading a batch\<close>

text \<open>The loop over the destinations of a line; \<open>acc\<close> is the map and the number of edges.\<close>

function dst_loop :: "bool \<Rightarrow> nat \<Rightarrow> nat option \<Rightarrow> istream \<Rightarrow> batch \<times> nat \<Rightarrow> (batch \<times> nat) res" where
  "dst_loop ndebug num_vertices src s acc =
     (if eofbit s then Inr acc
      else case get_u64 s of
          (None, s') \<Rightarrow> Inl Indeterminate
        | (Some tmp, s') \<Rightarrow>
            if \<not> ndebug \<and> tmp \<ge> num_vertices then dst_loop ndebug num_vertices src s' acc
            else (case src of
                None \<Rightarrow> Inl Indeterminate
              | Some x \<Rightarrow> dst_loop ndebug num_vertices src s'
                  (add_dst x tmp (fst acc), u64_add (snd acc) 1)))"
  by pat_completeness auto

termination
  by (relation "measure (\<lambda>(nd, nv, src, s, acc). stream_size s)") (auto dest!: get_u64_progress [OF sym])

declare dst_loop.simps [simp del]

text \<open>One line; the flag says whether the debug check of the source leaves the batch.\<close>

definition parse_line ::
  "bool \<Rightarrow> nat \<Rightarrow> string \<Rightarrow> batch \<times> nat \<Rightarrow> (bool \<times> batch \<times> nat) res" where
  "parse_line ndebug num_vertices batch_raw acc =
     (case get_u64 (stream_of batch_raw) of (src, s) \<Rightarrow>
        if \<not> ndebug \<and> src = None then Inl Indeterminate
        else if \<not> ndebug \<and> the src \<ge> num_vertices then Inr (True, acc)
        else res_map (Pair False) (dst_loop ndebug num_vertices src s acc))"

function read_lines ::
  "bool \<Rightarrow> nat \<Rightarrow> istream \<Rightarrow> batch \<times> nat \<Rightarrow> ((batch \<times> nat) \<times> istream) res" where
  "read_lines ndebug num_vertices s acc =
     (case getline s of
        (None, s') \<Rightarrow> Inr (acc, s')
      | (Some l, s') \<Rightarrow>
          if l = [] then Inr (acc, s')
          else res_bind (parse_line ndebug num_vertices l acc) (\<lambda>(leave, acc').
            if leave then Inr (acc', s') else read_lines ndebug num_vertices s' acc'))"
  by pat_completeness auto

termination
  by (relation "measure (\<lambda>(nd, nv, s, acc). length (rest s))") (auto dest!: getline_progress(1) [OF sym])

declare read_lines.simps [simp del]

section \<open>The driver\<close>

text \<open>
  \<open>h\<close> is the enumeration order of the hash map, \<open>i\<close> the number of the batch. The loop tests
  only the end-of-file bit, so a stream that failed to open never satisfies it; \<open>None\<close> is a
  run that does not end.
\<close>

partial_function (option) drive :: "'g graph_ops \<Rightarrow> (nat \<Rightarrow> 'g \<Rightarrow> 'g res) \<Rightarrow> galois_rt \<Rightarrow>
    (batch \<Rightarrow> batch) \<Rightarrow> bool \<Rightarrow> nat \<Rightarrow> istream \<Rightarrow> nat \<Rightarrow> 'g \<Rightarrow> (nat \<times> 'g) res option" where
  "drive ops algo rt h ndebug num_vertices s i g =
     (if eofbit s then Some (Inr (i, g))
      else case read_lines ndebug num_vertices s ([], 0) of
          Inl e \<Rightarrow> Some (Inl e)
        | Inr (acc, s') \<Rightarrow>
            (case res_bind (if h (fst acc) = [] then Inr g else load_batch ops rt (h (fst acc)) g)
                    (algo i) of
               Inl e \<Rightarrow> Some (Inl e)
             | Inr g' \<Rightarrow> drive ops algo rt h ndebug num_vertices s' (i + 1) g'))"

declare drive.simps [code]

section \<open>Counting\<close>

function count_dsts :: "istream \<Rightarrow> nat \<times> nat \<Rightarrow> (nat \<times> nat) res" where
  "count_dsts s acc =
     (if eofbit s then Inr acc
      else case get_u64 s of
          (None, s') \<Rightarrow> Inl Indeterminate
        | (Some tmp, s') \<Rightarrow> count_dsts s' (max (fst acc) tmp, u64_add (snd acc) 1))"
  by pat_completeness auto

termination
  by (relation "measure (\<lambda>(s, acc). stream_size s)") (auto dest!: get_u64_progress [OF sym])

declare count_dsts.simps [simp del]

definition count_line :: "string \<Rightarrow> nat \<times> nat \<Rightarrow> (nat \<times> nat) res" where
  "count_line batch_raw acc =
     (case get_u64 (stream_of batch_raw) of
        (None, s) \<Rightarrow> Inl Indeterminate
      | (Some src, s) \<Rightarrow> count_dsts s (max (fst acc) src, snd acc))"

function count_lines :: "istream \<Rightarrow> nat \<times> nat \<Rightarrow> ((nat \<times> nat) \<times> istream) res" where
  "count_lines s acc =
     (case getline s of
        (None, s') \<Rightarrow> Inr (acc, s')
      | (Some l, s') \<Rightarrow>
          if l = [] then Inr (acc, s')
          else res_bind (count_line l acc) (\<lambda>acc'. count_lines s' acc'))"
  by pat_completeness auto

termination
  by (relation "measure (\<lambda>(s, acc). length (rest s))") (auto dest!: getline_progress(1) [OF sym])

declare count_lines.simps [simp del]

text \<open>The two numbers the program prints: one more than the largest identifier, and the edges.\<close>

partial_function (option) count_loop :: "istream \<Rightarrow> nat \<times> nat \<Rightarrow> (nat \<times> nat) res option" where
  "count_loop s acc =
     (if eofbit s then Some (Inr (u64_add (fst acc) 1, snd acc))
      else case count_lines s acc of
          Inl e \<Rightarrow> Some (Inl e)
        | Inr (acc', s') \<Rightarrow> count_loop s' acc')"

declare count_loop.simps [code]

definition count_batched :: "string \<Rightarrow> (nat \<times> nat) res option" where
  "count_batched text = count_loop (stream_of text) (0, 0)"

section \<open>Every run over an open stream ends\<close>

definition open_stream :: "istream \<Rightarrow> bool" where
  "open_stream s \<longleftrightarrow> (failbit s \<longrightarrow> eofbit s)"

lemma open_stream_of [simp]: "open_stream (stream_of t)"
  by (simp add: open_stream_def stream_of_def)

definition stream_left :: "istream \<Rightarrow> nat" where
  "stream_left s = length (rest s) + (if eofbit s then 0 else 1)"

lemma getline_left:
  assumes "getline s = (r, s')" "\<not> eofbit s" "open_stream s"
  shows "stream_left s' < stream_left s" and "open_stream s'"
proof -
  have f: "\<not> failbit s" using assms(2,3) by (simp add: open_stream_def)
  show "open_stream s'"
    using assms f getline_progress(2) getline_end by (cases r) (auto simp: open_stream_def)
  show "stream_left s' < stream_left s"
  proof (cases r)
    case None
    then have "s' = \<lparr>rest = [], eofbit = True, failbit = True\<rparr>"
      using assms f by (auto simp: getline_def Let_def split: if_splits)
    then show ?thesis using assms(2) by (simp add: stream_left_def)
  next
    case (Some l)
    then show ?thesis
      using getline_progress(1) [of s l s'] assms by (simp add: stream_left_def)
  qed
qed

lemma read_lines_left:
  assumes "read_lines nd nv s acc = Inr (acc', s')" "\<not> eofbit s" "open_stream s"
  shows "stream_left s' < stream_left s \<and> open_stream s'"
  using assms
proof (induction nd nv s acc rule: read_lines.induct)
  case (1 nd nv s acc)
  obtain r s1 where r: "getline s = (r, s1)" by (cases "getline s")
  note left = getline_left [OF r 1(3,4)]
  show ?case
  proof (cases "r = None \<or> r = Some []")
    case True
    then have "s' = s1" using 1(2) r by (auto simp: read_lines.simps [of nd nv s])
    then show ?thesis using left by simp
  next
    case False
    then obtain l where l: "r = Some l" "l \<noteq> []" by auto
    with 1(2) r obtain leave acc1 where p: "parse_line nd nv l acc = Inr (leave, acc1)"
      by (auto simp: read_lines.simps [of nd nv s] res_bind_Inr_iff)
    show ?thesis
    proof (cases "leave \<or> eofbit s1")
      case True
      then have "s' = s1 \<or> read_lines nd nv s1 acc1 = Inr (acc', s')"
        using 1(2) r l p by (auto simp: read_lines.simps [of nd nv s] split: if_splits)
      moreover have "stream_left s' = stream_left s1 \<and> open_stream s'"
        if "read_lines nd nv s1 acc1 = Inr (acc', s')" "eofbit s1"
      proof -
        have "s' = s1\<lparr>failbit := True\<rparr>"
          using that by (simp add: read_lines.simps [of nd nv s1] getline_def)
        with that(2) show ?thesis by (simp add: stream_left_def open_stream_def)
      qed
      ultimately show ?thesis
        using True left 1(2) r l p
        by (auto simp: read_lines.simps [of nd nv s] split: if_splits)
    next
      case False
      then have "read_lines nd nv s1 acc1 = Inr (acc', s')"
        using 1(2) r l p by (simp add: read_lines.simps [of nd nv s])
      then have "stream_left s' < stream_left s1 \<and> open_stream s'"
        using 1(1) [of r s1 l] r l p False left by auto
      then show ?thesis using left by linarith
    qed
  qed
qed

lemma drive_ends:
  "open_stream s \<Longrightarrow> drive ops algo rt h nd nv s i g \<noteq> None"
proof (induction "stream_left s" arbitrary: s i g rule: less_induct)
  case less
  show ?case
  proof (cases "eofbit s")
    case True
    then show ?thesis by (simp add: drive.simps [of _ _ _ _ _ _ s])
  next
    case False
    show ?thesis
    proof (cases "read_lines nd nv s ([], 0)")
      case (Inl e)
      then show ?thesis using False by (simp add: drive.simps [of _ _ _ _ _ _ s])
    next
      case (Inr p)
      obtain acc s' where p: "p = (acc, s')" by (cases p)
      then have "stream_left s' < stream_left s \<and> open_stream s'"
        using read_lines_left [of nd nv s "([], 0)" acc s'] Inr False less.prems by simp
      then show ?thesis
        using less.hyps [of s'] False Inr p
        by (auto simp: drive.simps [of _ _ _ _ _ _ s] split: sum.splits)
    qed
  qed
qed

text \<open>A stream that has failed but is not at its end is read for ever.\<close>

lemma read_lines_failed:
  "failbit s \<Longrightarrow> read_lines nd nv s acc = Inr (acc, s)"
  by (cases s, subst read_lines.simps) (simp add: getline_def)

lemma drive_failed_stream:
  assumes "\<And>i g. \<exists>g'. algo i g = Inr g'" and "h [] = []" and "\<not> eofbit s" "failbit s"
  shows "drive ops algo rt h nd nv s i g = None"
proof -
  let ?P = "\<lambda>ops algo rt (h :: batch \<Rightarrow> batch) nd nv s i g y.
    \<not> ((\<forall>i g. \<exists>g'. algo i g = Inr g') \<and> h [] = [] \<and> \<not> eofbit s \<and> failbit s)"
  have "?P ops algo rt h nd nv s i g y" if "drive ops algo rt h nd nv s i g = Some y" for y
  proof (rule drive.raw_induct [rotated, where P = ?P, OF that], goal_cases)
    case (1 dr ops algo rt h nd nv s i g y)
    show ?case
    proof
      assume failed: "(\<forall>i g. \<exists>g'. algo i g = Inr g') \<and> h [] = [] \<and> \<not> eofbit s \<and> failbit s"
      then obtain g' where "algo i g = Inr g'" by blast
      with failed 1(2) have "dr ops algo rt h nd nv s (i + 1) g' = Some y"
        by (simp add: read_lines_failed)
      from 1(1) [OF this] failed show False by blast
    qed
  qed
  then show ?thesis using assms by (cases "drive ops algo rt h nd nv s i g") auto
qed

end
