(* ===== verification/DivideBatches.thy ===== *)
theory DivideBatches
  imports TextDriver "HOL-Library.Product_Lexorder"
begin

text \<open>
  scripts/divide\_into\_batches.cpp: read an edge list, split it into batches of equal size,
  sort each and print it in the format the benchmark driver reads. The shuffle is a parameter.
\<close>

section \<open>Reading the edge list\<close>

text \<open>\<open>while (fin.peek() == '#') fin.ignore(...)\<close>.\<close>

function skip_comments :: "istream \<Rightarrow> istream" where
  "skip_comments s =
     (if eofbit s \<or> failbit s then s\<lparr>failbit := True\<rparr>
      else if rest s = [] then s\<lparr>eofbit := True\<rparr>
      else if hd (rest s) = CHR ''#''
      then let r = dropWhile (\<lambda>c. c \<noteq> newline) (rest s)
           in skip_comments (if r = [] then s\<lparr>rest := [], eofbit := True\<rparr> else s\<lparr>rest := tl r\<rparr>)
      else s)"
  by pat_completeness auto

termination
proof (relation "measure stream_size", goal_cases)
  case (2 s r)
  have "length r \<le> length (rest s)" unfolding 2(4) by (rule length_dropWhile_le)
  moreover have "0 < length (rest s)" using 2(2) by simp
  ultimately have "length r - 1 < length (rest s)" by linarith
  with 2(1,2) show ?case by (simp add: stream_size_def)
qed simp

declare skip_comments.simps [simp del]

text \<open>\<open>while (fin >> src >> dst) edges.emplace_back(src, dst)\<close>.\<close>

function read_edges :: "istream \<Rightarrow> edge list" where
  "read_edges s =
     (case get_u64 s of (a, s1) \<Rightarrow>
      case get_u64 s1 of (b, s2) \<Rightarrow>
        if failbit s2 \<or> a = None \<or> b = None then [] else (the a, the b) # read_edges s2)"
  by pat_completeness auto

termination
  by (relation "measure stream_size")
    (auto dest!: get_u64_progress [OF sym] intro: order.strict_trans)

declare read_edges.simps [simp del]

section \<open>Splitting, sorting and printing\<close>

definition max_vertex_id :: "edge list \<Rightarrow> nat res" where
  "max_vertex_id edges =
     (if edges = [] then Inl OutOfRange
      else Inr (fold max (concat (map (\<lambda>e. [fst e, snd e]) edges)) 0))"

text \<open>The loop over a sorted batch; \<open>prev\<close> is \<open>prev_src\<close>.\<close>

fun print_batch :: "nat option \<Rightarrow> edge list \<Rightarrow> string" where
  "print_batch prev [] = []"
| "print_batch prev ((s, d) # es) =
     (if prev \<noteq> Some s
      then (if prev \<noteq> None then [newline] else []) @ show_u64 s @ '' '' @ show_u64 d
      else '' '' @ show_u64 d) @ print_batch (Some s) es"

text \<open>One round of the loop: the begin of the range is not clamped, its end is.\<close>

definition divide_batch :: "nat \<Rightarrow> nat \<Rightarrow> nat \<Rightarrow> edge list \<times> string \<Rightarrow> (edge list \<times> string) res" where
  "divide_batch num_edges per i st =
     (let b = u64_mul i per; e = min num_edges (u64_mul (u64_add i 1) per) in
      res_bind (sort_range b e (fst st)) (\<lambda>edges.
      res_map (\<lambda>slice. (edges, snd st @ print_batch None slice @ [newline, newline]))
        (sub_range b e edges)))"

definition edges_per_batch :: "nat \<Rightarrow> nat \<Rightarrow> nat" where
  "edges_per_batch num_edges num_batches =
     u64_add num_edges (u64_sub num_batches 1) div num_batches"

text \<open>The exit code and the contents of the output file.\<close>

definition divide_main ::
  "(edge list \<Rightarrow> edge list) \<Rightarrow> bool \<Rightarrow> nat \<Rightarrow> string \<Rightarrow> (nat \<times> string) res" where
  "divide_main shuffle randomize num_batches text =
     (let edges = read_edges (skip_comments (stream_of text)) in
      res_bind (max_vertex_id edges) (\<lambda>max_id.
        let edges' = (if randomize then shuffle edges else edges) in
        if num_batches = 0 then Inr (3, [])
        else res_map (\<lambda>st. (0, snd st))
          (fold_res (divide_batch (length edges) (edges_per_batch (length edges) num_batches))
            [0..<num_batches] (edges', []))))"

section \<open>Reading printed edges\<close>

definition print_edge :: "edge \<Rightarrow> string" where
  "print_edge e = show_u64 (fst e) @ '' '' @ show_u64 (snd e) @ [newline]"

lemma newline_space [simp]: "is_space newline" "\<not> is_digit newline"
  by (simp_all add: is_space_def newline_def is_digit_def)

lemma blank_space [simp]: "is_space CHR '' ''" "\<not> is_digit CHR '' ''"
  by (simp_all add: is_space_def is_digit_def)

lemma read_edges_printed:
  assumes "\<forall>e\<in>set es. fst e \<le> u64_max \<and> snd e \<le> u64_max" and "\<forall>c\<in>set sp. is_space c"
  shows "read_edges \<lparr>rest = sp @ concat (map print_edge es), eofbit = False, failbit = False\<rparr> = es"
  using assms
proof (induction es arbitrary: sp)
  case Nil
  have "dropWhile is_space sp = []" using Nil.prems(2) by (simp add: dropWhile_eq_Nil_conv)
  then show ?case by (simp add: read_edges.simps get_u64_def)
next
  case (Cons e es)
  obtain a b where e: "e = (a, b)" by (cases e)
  let ?tl = "[newline] @ concat (map print_edge es)"
  let ?s2 = "\<lparr>rest = ?tl, eofbit = False, failbit = False\<rparr>"
  have "get_u64 \<lparr>rest = sp @ show_u64 a @ '' '' @ show_u64 b @ ?tl, eofbit = False, failbit = False\<rparr> =
      (Some a, \<lparr>rest = '' '' @ show_u64 b @ ?tl, eofbit = False, failbit = False\<rparr>)"
    using get_shown [of a sp "'' '' @ show_u64 b @ ?tl"] Cons.prems e by simp
  moreover have "get_u64 \<lparr>rest = '' '' @ show_u64 b @ ?tl, eofbit = False, failbit = False\<rparr> =
      (Some b, ?s2)"
    using get_shown [of b "'' ''" ?tl] Cons.prems e by simp
  moreover have "read_edges ?s2 = es"
    using Cons.IH [of "[newline]"] Cons.prems(1) by simp
  ultimately show ?case
    by (subst read_edges.simps) (simp add: e print_edge_def)
qed

lemma skip_comment_line:
  assumes "newline \<notin> set c"
  shows "skip_comments (stream_of (CHR ''#'' # c @ newline # t)) = skip_comments (stream_of t)"
proof -
  have "CHR ''#'' \<noteq> newline" by (simp add: newline_def)
  then have "dropWhile (\<lambda>c. c \<noteq> newline) (CHR ''#'' # c @ newline # t) = newline # t"
    using assms by (induction c) auto
  then show ?thesis
    by (subst skip_comments.simps) (simp add: stream_of_def)
qed

lemma skip_comments_done:
  "t \<noteq> [] \<Longrightarrow> hd t \<noteq> CHR ''#'' \<Longrightarrow> skip_comments (stream_of t) = stream_of t"
  by (subst skip_comments.simps) (simp add: stream_of_def)

section \<open>The slices\<close>

definition slice_at :: "edge list \<Rightarrow> nat \<Rightarrow> nat \<Rightarrow> edge list" where
  "slice_at edges per i = take per (drop (i * per) edges)"

lemma slice_at_as_range:
  "take (min (length xs) ((i + 1) * per) - i * per) (drop (i * per) xs) = slice_at xs per i"
  by (simp add: slice_at_def min_def add.commute [of per])

text \<open>After \<open>k\<close> rounds the first \<open>k\<close> slices are sorted in place and printed.\<close>

definition divided :: "edge list \<Rightarrow> nat \<Rightarrow> nat \<Rightarrow> edge list \<times> string" where
  "divided edges per k =
     (concat (map (\<lambda>i. sort (slice_at edges per i)) [0..<k]) @ drop (k * per) edges,
      concat (map (\<lambda>i. print_batch None (sort (slice_at edges per i)) @ [newline, newline]) [0..<k]))"

lemma concat_slices:
  "concat (map (slice_at xs per) [0..<k]) = take (k * per) xs"
proof (induction k)
  case (Suc k)
  have "take (k * per + per) xs = take (k * per) xs @ slice_at xs per k"
    by (simp only: take_add slice_at_def)
  with Suc show ?case by (simp add: add.commute)
qed simp

lemma length_sorted_slices:
  "length (concat (map (\<lambda>i. sort (slice_at xs per i)) [0..<k])) = min (length xs) (k * per)"
  using arg_cong [OF concat_slices [of xs per k], of length]
  by (simp add: length_concat comp_def)

lemma divide_batch_ok:
  assumes "i * per \<le> length xs" "(i + 1) * per \<le> u64_max" "i < u64_max"
  shows "divide_batch (length xs) per i (divided xs per i) = Inr (divided xs per (Suc i))"
proof -
  let ?pre = "concat (map (\<lambda>i. sort (slice_at xs per i)) [0..<i])"
  let ?e = "min (length xs) ((i + 1) * per)"
  have pre: "length ?pre = i * per" using assms(1) by (simp add: length_sorted_slices)
  have mul: "u64_mul i per = i * per" "u64_add i 1 = i + 1" "u64_mul (i + 1) per = (i + 1) * per"
    using assms by (simp_all add: u64_mul_small u64_add_small)
  have le: "i * per \<le> ?e" using assms(1) by simp
  have slice: "take (?e - i * per) (drop (i * per) xs) = slice_at xs per i"
    by (rule slice_at_as_range)
  have rest: "drop ?e xs = drop (Suc i * per) xs"
    by (simp add: min_def add.commute)
  have len: "length (slice_at xs per i) = ?e - i * per"
    using assms(1) by (auto simp: slice_at_def min_def)
  let ?xs' = "?pre @ sort (slice_at xs per i) @ drop (Suc i * per) xs"
  have "drop ?e (?pre @ drop (i * per) xs) = drop (Suc i * per) xs"
    using le pre rest by simp
  moreover have "?e \<le> length (?pre @ drop (i * per) xs)" using pre assms(1) by simp
  ultimately have "sort_range (i * per) ?e (?pre @ drop (i * per) xs) = Inr ?xs'"
    using le pre slice by (simp add: sort_range_def)
  moreover have "sub_range (i * per) ?e ?xs' = Inr (sort (slice_at xs per i))"
  proof -
    have "?e \<le> length ?xs'" using pre len by simp
    moreover have "take (?e - i * per) (drop (i * per) ?xs') = sort (slice_at xs per i)"
      using pre len by simp
    ultimately show ?thesis using le by (simp add: sub_range_def)
  qed
  ultimately show ?thesis
    unfolding divide_batch_def divided_def Let_def fst_conv snd_conv mul by simp
qed

lemma divide_rounds:
  assumes "\<And>i. i < k \<Longrightarrow> i * per \<le> length xs" "k * per \<le> u64_max" "k \<le> u64_max"
  shows "fold_res (divide_batch (length xs) per) [0..<k] (xs, []) = Inr (divided xs per k)"
  using assms
proof (induction k)
  case 0
  then show ?case by (simp add: divided_def)
next
  case (Suc k)
  then have "fold_res (divide_batch (length xs) per) [0..<k] (xs, []) = Inr (divided xs per k)"
    by simp
  moreover have "divide_batch (length xs) per k (divided xs per k) = Inr (divided xs per (Suc k))"
    using Suc.prems by (intro divide_batch_ok) auto
  ultimately show ?case by (simp add: fold_res_append)
qed

text \<open>A round whose begin lies past the edges sorts from there backwards: not a range.\<close>

lemma divide_batch_past:
  assumes "length xs < i * per" "i * per \<le> u64_max"
  shows "divide_batch (length xs) per i st = Inl BadRange"
  using assms by (simp add: divide_batch_def u64_mul_small sort_range_def)

lemma edges_per_batch_bounds:
  assumes "0 < nb" "ne + nb \<le> u64_max"
  shows "edges_per_batch ne nb = (ne + (nb - 1)) div nb"
    and "ne \<le> nb * edges_per_batch ne nb" and "nb * edges_per_batch ne nb \<le> ne + (nb - 1)"
  using assms ceil_div_bounds [OF assms(1), of ne]
  by (simp_all add: edges_per_batch_def u64_sub_small u64_add_small)

lemma divide_loop_ok:
  assumes "0 < nb" "length xs + nb \<le> u64_max"
    and "(nb - 1) * edges_per_batch (length xs) nb \<le> length xs"
  shows "fold_res (divide_batch (length xs) (edges_per_batch (length xs) nb)) [0..<nb] (xs, []) =
    Inr (divided xs (edges_per_batch (length xs) nb) nb)"
proof (rule divide_rounds)
  fix i
  assume "i < nb"
  then have "i * edges_per_batch (length xs) nb \<le> (nb - 1) * edges_per_batch (length xs) nb"
    by (intro mult_right_mono) auto
  with assms(3) show "i * edges_per_batch (length xs) nb \<le> length xs" by linarith
qed (use edges_per_batch_bounds [OF assms(1,2)] assms in linarith)+

lemma divide_loop_bad:
  assumes "0 < nb" "length xs + nb \<le> u64_max"
    and "(nb - 1) * edges_per_batch (length xs) nb > length xs"
  shows "fold_res (divide_batch (length xs) (edges_per_batch (length xs) nb)) [0..<nb] (xs, []) =
    Inl BadRange"
proof -
  define per where "per = edges_per_batch (length xs) nb"
  define i where "i = (LEAST i. length xs < i * per)"
  have bad: "length xs < (nb - 1) * per" using assms(3) by (simp add: per_def)
  then have i: "length xs < i * per" unfolding i_def by (rule LeastI)
  have "i \<le> nb - 1" unfolding i_def using bad by (rule Least_le)
  then have "i < nb" using assms(1) by simp
  have total: "nb * per \<le> u64_max"
    using edges_per_batch_bounds(3) [OF assms(1,2)] assms(1,2) unfolding per_def by linarith
  have "i * per \<le> nb * per" using \<open>i < nb\<close> by (intro mult_right_mono) auto
  with total have small: "i * per \<le> u64_max" by linarith
  have "fold_res (divide_batch (length xs) per) [0..<i] (xs, []) = Inr (divided xs per i)"
  proof (rule divide_rounds)
    fix j
    assume "j < i"
    then show "j * per \<le> length xs" using not_less_Least [of j] unfolding i_def by force
  qed (use small \<open>i < nb\<close> assms(2) in linarith)+
  moreover have "divide_batch (length xs) per i (divided xs per i) = Inl BadRange"
    by (rule divide_batch_past [OF i small])
  moreover have "[0..<nb] = [0..<i] @ i # [Suc i..<nb]"
    using \<open>i < nb\<close> by (metis append_Cons less_imp_add_positive upt_add_eq_append upt_conv_Cons zero_le)
  ultimately show ?thesis unfolding per_def [symmetric] by (simp add: fold_res_append)
qed

end
