(* ===== verification/LargeDriver.thy ===== *)
theory LargeDriver
  imports Batches
begin

text \<open>
  The loading loop of microbench/edit\_scalability\_large.cpp, over any representation and any
  algorithm: an optional first batch of \<open>pre\<close> edges, and then \<open>num_batches\<close> rounds of
  preparing a batch, ingesting it, post-processing, and running the algorithm. \<open>pre\<close> stands
  for the floating-point product of the number of edges and the startup fraction.
\<close>

definition large_round :: "'g graph_ops \<Rightarrow> (nat \<Rightarrow> 'g \<Rightarrow> 'g res) \<Rightarrow> galois_rt \<Rightarrow> (batch \<Rightarrow> batch) \<Rightarrow>
    edge list \<Rightarrow> nat \<Rightarrow> nat \<Rightarrow> nat \<Rightarrow> 'g \<Rightarrow> 'g res" where
  "large_round ops algo rt h file pre per i g =
     (case batch_range (length file) pre per i of (a, b) \<Rightarrow>
        res_bind (prepare_batch rt h file a b) (\<lambda>es.
        res_bind (load_batch ops rt es g) (algo i)))"

definition large_main :: "'g graph_ops \<Rightarrow> (nat \<Rightarrow> 'g \<Rightarrow> 'g res) \<Rightarrow> galois_rt \<Rightarrow> (batch \<Rightarrow> batch) \<Rightarrow>
    edge list \<Rightarrow> nat \<Rightarrow> nat \<Rightarrow> 'g \<Rightarrow> 'g res" where
  "large_main ops algo rt h file pre num_batches g =
     res_bind (if pre > 0
               then res_bind (prepare_batch rt h file 0 pre) (\<lambda>es. load_batch ops rt es g)
               else Inr g) (\<lambda>g0.
     res_bind (num_edges_per_batch (length file) pre num_batches) (\<lambda>per.
       fold_res (large_round ops algo rt h file pre per) [0..<num_batches] g0))"

text \<open>What an algorithm may do to the graph: reorder adjacency lists, as triangle counting does.\<close>

definition keeps_edges ::
  "('g \<Rightarrow> bool) \<Rightarrow> ('g \<Rightarrow> nat list list) \<Rightarrow> (nat \<Rightarrow> 'g \<Rightarrow> 'g res) \<Rightarrow> bool" where
  "keeps_edges ginv succs algo \<longleftrightarrow> (\<forall>i g. ginv g \<longrightarrow>
     (\<exists>g'. algo i g = Inr g' \<and> ginv g' \<and>
        mset (edge_list (succs g')) = mset (edge_list (succs g))))"

lemma keeps_edges_nop: "keeps_edges ginv succs (\<lambda>i. Inr)"
  by (simp add: keeps_edges_def)

section \<open>The ranges\<close>

definition split_at :: "nat \<Rightarrow> nat \<Rightarrow> nat \<Rightarrow> nat \<Rightarrow> nat" where
  "split_at num_edges pre per i = min num_edges (pre + i * per)"

text \<open>No product or sum of the loop wraps round as long as edges and batches fit together.\<close>

lemma batch_range_split:
  assumes "pre \<le> ne" "0 < nb" "ne + nb \<le> u64_max" "i < nb"
  shows "num_edges_per_batch ne pre nb = Inr ((ne - pre + (nb - 1)) div nb)"
    and "batch_range ne pre ((ne - pre + (nb - 1)) div nb) i =
      (split_at ne pre ((ne - pre + (nb - 1)) div nb) i,
       split_at ne pre ((ne - pre + (nb - 1)) div nb) (Suc i))"
proof -
  let ?per = "(ne - pre + (nb - 1)) div nb"
  show "num_edges_per_batch ne pre nb = Inr ?per"
    using assms by (simp add: num_edges_per_batch_def u64_sub_small u64_add_small)
  have "Suc i * ?per \<le> nb * ?per" using assms(4) by (intro mult_right_mono) auto
  also have "\<dots> \<le> ne - pre + (nb - 1)" by (rule ceil_div_bounds) (rule assms(2))
  finally have le: "Suc i * ?per \<le> ne - pre + (nb - 1)" .
  moreover have "i * ?per \<le> Suc i * ?per" by simp
  ultimately have bounds: "pre + i * ?per \<le> u64_max" "pre + Suc i * ?per \<le> u64_max"
    using assms by linarith+
  have "i + 1 \<le> u64_max" using assms by linarith
  with bounds show "batch_range ne pre ?per i = (split_at ne pre ?per i, split_at ne pre ?per (Suc i))"
    by (simp add: batch_range_def split_at_def u64_mul_small u64_add_small)
qed

lemma split_at_mono: "split_at ne pre per i \<le> split_at ne pre per (Suc i)"
  by (simp add: split_at_def)

lemma split_at_last:
  assumes "pre \<le> ne" "0 < nb"
  shows "split_at ne pre ((ne - pre + (nb - 1)) div nb) nb = ne"
  using ceil_div_bounds(1) [OF assms(2), of "ne - pre"] assms(1) by (simp add: split_at_def)

definition rest_slice :: "edge list \<Rightarrow> nat \<Rightarrow> nat \<Rightarrow> nat \<Rightarrow> edge list" where
  "rest_slice file pre per i =
     (let f = split_at (length file) pre per in take (f (Suc i) - f i) (drop (f i) file))"

lemma rest_slices_concat:
  assumes "pre \<le> length file" "0 < nb"
  shows "concat (map (rest_slice file pre ((length file - pre + (nb - 1)) div nb)) [0..<nb]) =
    drop pre file"
proof -
  let ?f = "split_at (length file) pre ((length file - pre + (nb - 1)) div nb)"
  have "concat (map (\<lambda>i. take (?f (Suc i) - ?f i) (drop (?f i) file)) [0..<nb]) =
      take (?f nb - ?f 0) (drop (?f 0) file)"
    by (rule slices_concat) (rule split_at_mono)
  moreover have "?f 0 = pre" using assms(1) by (simp add: split_at_def)
  ultimately show ?thesis
    unfolding rest_slice_def [abs_def] Let_def split_at_last [OF assms] by simp
qed

text \<open>What has been loaded before round i.\<close>

definition loaded_by :: "edge list \<Rightarrow> nat \<Rightarrow> nat \<Rightarrow> nat \<Rightarrow> edge list" where
  "loaded_by file pre nb i =
     take (split_at (length file) pre ((length file - pre + (nb - 1)) div nb) i) file"

lemma upt_split_len: "[0..<n] = ys @ i # zs \<Longrightarrow> length ys = i"
proof -
  assume split: "[0..<n] = ys @ i # zs"
  then have "length [0..<n] = length (ys @ i # zs)" by (rule arg_cong)
  then have "length ys < n" by simp
  then have "[0..<n] ! length ys = length ys" by simp
  then show "length ys = i" unfolding split by simp
qed

lemma ids_ok_sub: "ids_ok xs \<Longrightarrow> set ys \<subseteq> set xs \<Longrightarrow> ids_ok ys"
  by (auto simp: ids_ok_def)

section \<open>Every edge is loaded once\<close>

context graph_updating
begin

lemma load_prepared:
  assumes "galois_ok rt" "map_order_ok h" "ginv g" "ids_ok file" "b \<le> length file"
    and fits: "length (edge_list (succs g)) + length (take (b - a) (drop a file)) \<le> u64_max"
  shows "\<exists>es g'. prepare_batch rt h file a b = Inr es \<and> load_batch ops rt es g = Inr g' \<and>
    ginv g' \<and> mset (edge_list (succs g')) =
      mset (edge_list (succs g)) + mset (take (b - a) (drop a file))"
proof -
  obtain es where es: "prepare_batch rt h file a b = Inr es" "grouped es"
    "mset (batch_edges es) = mset (take (b - a) (drop a file))"
    using prepare_batch_ok [OF assms(1,2,5)] by blast
  have "ids_ok (batch_edges es)"
    using mset_eq_setD [OF es(3)] order_trans [OF set_take_subset set_drop_subset]
    by (intro ids_ok_sub [OF assms(4)]) simp
  with es(2) have "batch_ok es" by (rule grouped_batch_ok)
  moreover have edges: "mset (edge_list (apply_batch es (succs g))) =
      mset (edge_list (succs g)) + mset (take (b - a) (drop a file))"
    by (simp add: edges_apply_batch es(3))
  then have "edge_total (apply_batch es (succs g)) \<le> u64_max"
    using fits unfolding edge_total_length by (metis size_mset size_union)
  ultimately show ?thesis
    using load_batch_ok [OF assms(1,3), of es] es(1) edges by metis
qed

text \<open>
  The algorithm may report something about the graph it runs on: \<open>log\<close> is what has been
  reported, and \<open>msg\<close> what round i adds to it.
\<close>

lemma large_main_logs:
  fixes log :: "'a \<Rightarrow> 'l list"
  assumes rt: "galois_ok rt" and h: "map_order_ok h" and g: "ginv g" and ids: "ids_ok file"
    and pre: "pre \<le> length file" and nb: "0 < nb" "length file + nb \<le> u64_max"
    and fits: "length (edge_list (succs g)) + length file \<le> u64_max"
    and kept: "\<And>es g g'. ginv g \<Longrightarrow> load_batch ops rt es g = Inr g' \<Longrightarrow> log g' = log g"
    and algo: "\<And>i g. ginv g \<Longrightarrow> \<exists>g'. algo i g = Inr g' \<and> ginv g' \<and>
      mset (edge_list (succs g')) = mset (edge_list (succs g)) \<and>
      log g' = log g @ msg i (mset (edge_list (succs g)))"
  shows "\<exists>g'. large_main ops algo rt h file pre nb g = Inr g' \<and> ginv g' \<and>
    mset (edge_list (succs g')) = mset (edge_list (succs g)) + mset file \<and>
    log g' = log g @ concat (map (\<lambda>i. msg i (mset (edge_list (succs g)) + mset (loaded_by file pre nb (Suc i))))
      [0..<nb])"
proof -
  define per where "per = (length file - pre + (nb - 1)) div nb"
  note range = batch_range_split [OF pre nb, folded per_def]
  let ?f = "split_at (length file) pre per"
  let ?E = "\<lambda>x. mset (edge_list (succs x))"
  let ?L = "\<lambda>i. mset (loaded_by file pre nb i)"
  have L: "loaded_by file pre nb i = take (?f i) file" for i by (simp add: loaded_by_def per_def)
  have f: "?f i \<le> ?f (Suc i)" "?f i \<le> length file" "?f 0 = pre" for i
    using pre by (simp_all add: split_at_def)
  have next_slice: "?L (Suc i) = ?L i + mset (take (?f (Suc i) - ?f i) (drop (?f i) file))" for i
  proof -
    have "take (?f (Suc i)) file = take (?f i) file @ take (?f (Suc i) - ?f i) (drop (?f i) file)"
      using f(1) by (metis le_add_diff_inverse take_add)
    then show ?thesis unfolding L by simp
  qed
  have "\<exists>g0. (if pre > 0 then res_bind (prepare_batch rt h file 0 pre) (\<lambda>es. load_batch ops rt es g)
      else Inr g) = Inr g0 \<and> ginv g0 \<and> ?E g0 = ?E g + mset (take pre file) \<and> log g0 = log g"
    using load_prepared [OF rt h g ids pre, of 0] fits pre g kept by fastforce
  then obtain g0 where g0: "(if pre > 0 then res_bind (prepare_batch rt h file 0 pre)
      (\<lambda>es. load_batch ops rt es g) else Inr g) = Inr g0" "ginv g0"
    "?E g0 = ?E g + ?L 0" "log g0 = log g" unfolding L f(3) by blast
  let ?P = "\<lambda>ys t. ginv t \<and> ?E t = ?E g + ?L (length ys) \<and>
    log t = log g @ concat (map (\<lambda>i. msg i (?E g + ?L (Suc i))) ys)"
  have "\<exists>t. fold_res (large_round ops algo rt h file pre per) [0..<nb] g0 = Inr t \<and> ?P [0..<nb] t"
  proof (rule fold_res_rule)
    fix ys i zs t
    assume split: "[0..<nb] = ys @ i # zs" and P: "?P ys t"
    then have i: "i < nb" by (metis atLeastLessThan_iff in_set_conv_decomp set_upt)
    have "length ys = i" using upt_split_len [OF split] .
    note P = P [unfolded this]
    let ?s = "take (?f (Suc i) - ?f i) (drop (?f i) file)"
    have "length (loaded_by file pre nb i) + length ?s = length (loaded_by file pre nb (Suc i))"
      using arg_cong [OF next_slice [of i], of size] by simp
    moreover have "length (loaded_by file pre nb (Suc i)) \<le> length file" by (simp add: L)
    moreover have "length (edge_list (succs t)) = length (edge_list (succs g)) + length (loaded_by file pre nb i)"
      using arg_cong [OF P [THEN conjunct2, THEN conjunct1], of size] by simp
    ultimately have "length (edge_list (succs t)) + length ?s \<le> u64_max" using fits by linarith
    from load_prepared [OF rt h _ ids f(2) this] P obtain es t1 where t1:
      "prepare_batch rt h file (?f i) (?f (Suc i)) = Inr es"
      "load_batch ops rt es t = Inr t1" "ginv t1" "?E t1 = ?E t + mset ?s" by blast
    have E1: "?E t1 = ?E g + ?L (Suc i)" using t1(4) P next_slice [of i] by (simp add: add.assoc)
    obtain t2 where t2: "algo i t1 = Inr t2" "ginv t2" "?E t2 = ?E t1" "log t2 = log t1 @ msg i (?E t1)"
      using algo [OF t1(3), of i] by blast
    have "large_round ops algo rt h file pre per i t = Inr t2"
      by (simp only: large_round_def range(2) [OF i] prod.case t1 res_bind_simps t2(1))
    moreover have "?P (ys @ [i]) t2"
      using P t2 kept [OF _ t1(2)] \<open>length ys = i\<close> by (simp add: E1)
    ultimately show "\<exists>t'. large_round ops algo rt h file pre per i t = Inr t' \<and> ?P (ys @ [i]) t'"
      by blast
  qed (simp add: g0)
  then obtain t where t: "fold_res (large_round ops algo rt h file pre per) [0..<nb] g0 = Inr t"
    "?P [0..<nb] t" by blast
  have "loaded_by file pre nb nb = file"
    unfolding L per_def using split_at_last [OF pre nb(1)] by simp
  then show ?thesis
    using g0(1) range(1) [of 0] nb(1) t by (simp add: large_main_def)
qed

lemma large_main_loads:
  assumes rt: "galois_ok rt" and h: "map_order_ok h" and g: "ginv g" and ids: "ids_ok file"
    and pre: "pre \<le> length file" and nb: "0 < nb" "length file + nb \<le> u64_max"
    and algo: "keeps_edges ginv succs algo"
    and fits: "length (edge_list (succs g)) + length file \<le> u64_max"
  shows "\<exists>g'. large_main ops algo rt h file pre nb g = Inr g' \<and> ginv g' \<and>
    mset (edge_list (succs g')) = mset (edge_list (succs g)) + mset file"
proof -
  have "\<exists>g'. algo i g = Inr g' \<and> ginv g' \<and> mset (edge_list (succs g')) = mset (edge_list (succs g)) \<and>
      ([] :: unit list) = [] @ []" if "ginv g" for i g
    using algo that by (simp add: keeps_edges_def)
  from large_main_logs [where log = "\<lambda>_. [] :: unit list" and msg = "\<lambda>_ _. []", OF rt h g ids pre nb fits _ this]
  show ?thesis by auto
qed

end

end
