(* ===== verification/BatchRoundTrip.thy ===== *)
theory BatchRoundTrip
  imports DivideBatches LargeDriver
begin

text \<open>
  The two ends of the text format fit together: what divide\_into\_batches prints, the driver
  and count\_batched read back, batch by batch, with every edge in its batch.
\<close>

section \<open>Printed batches as lines\<close>

text \<open>The lines of a batch: maximal runs of edges with one source.\<close>

fun runs :: "edge list \<Rightarrow> batch" where
  "runs [] = []"
| "runs ((s, d) # es) =
     (case runs es of [] \<Rightarrow> [(s, [d])]
      | (u, ds) # m \<Rightarrow> if u = s then (s, d # ds) # m else (s, [d]) # (u, ds) # m)"

definition print_dsts :: "nat list \<Rightarrow> string" where
  "print_dsts ds = concat (map (\<lambda>d. '' '' @ show_u64 d) ds)"

definition print_line :: "nat \<times> nat list \<Rightarrow> string" where
  "print_line p = show_u64 (fst p) @ print_dsts (snd p)"

definition print_lines :: "batch \<Rightarrow> string" where
  "print_lines m = concat (map (\<lambda>p. newline # print_line p) m)"

lemma print_dsts_simps [simp]:
  "print_dsts [] = []" "print_dsts (d # ds) = CHR '' '' # show_u64 d @ print_dsts ds"
  by (simp_all add: print_dsts_def)

lemma print_lines_simps [simp]:
  "print_lines [] = []" "print_lines (p # m) = newline # print_line p @ print_lines m"
  by (simp_all add: print_lines_def)

lemma runs_Nil_iff [simp]: "runs es = [] \<longleftrightarrow> es = []"
  by (cases es rule: runs.cases) (auto split: list.splits prod.splits)

lemma print_batch_after:
  "print_batch (Some s) es =
    (case runs es of [] \<Rightarrow> []
     | (u, ds) # m \<Rightarrow> (if u = s then print_dsts ds else newline # print_line (u, ds)) @ print_lines m)"
proof (induction es arbitrary: s)
  case (Cons e es)
  obtain u d where e: "e = (u, d)" by (cases e)
  show ?case using Cons.IH [of u] by (auto simp: e print_line_def split: list.splits prod.splits)
qed simp

lemma print_batch_lines:
  assumes "es \<noteq> []"
  shows "newline # print_batch None es = print_lines (runs es)"
proof -
  obtain s d es' where es: "es = (s, d) # es'" using assms by (cases es) auto
  then show ?thesis
    using print_batch_after [of s es'] by (auto simp: print_line_def split: list.splits prod.splits)
qed

text \<open>The text of a batch ends every line; an empty line closes the batch.\<close>

definition batch_text :: "edge list \<Rightarrow> string" where
  "batch_text es = print_batch None es @ [newline, newline]"

definition lines_text :: "batch \<Rightarrow> string" where
  "lines_text m = concat (map (\<lambda>p. print_line p @ [newline]) m)"

lemma lines_text_Cons [simp]: "lines_text (p # m) = print_line p @ newline # lines_text m"
  by (simp add: lines_text_def)

lemma print_lines_text: "print_lines m @ [newline] = newline # lines_text m"
  by (induction m) (simp_all add: lines_text_def)

lemma batch_text_lines:
  assumes "es \<noteq> []"
  shows "batch_text es = lines_text (runs es) @ [newline]"
proof -
  have "newline # batch_text es = print_lines (runs es) @ [newline, newline]"
    using print_batch_lines [OF assms] by (simp add: batch_text_def flip: append_Cons)
  also have "\<dots> = (print_lines (runs es) @ [newline]) @ [newline]" by simp
  finally show ?thesis unfolding print_lines_text by simp
qed

section \<open>Reading a line back\<close>

lemma shown_no_newline: "newline \<notin> set (show_u64 n)"
  using show_u64_digits digit_not_newline by blast

lemma line_no_newline: "newline \<notin> set (print_line p)"
proof -
  have "newline \<noteq> CHR '' ''" by (simp add: newline_def)
  then have "newline \<notin> set (print_dsts ds)" for ds
    by (induction ds) (auto simp: shown_no_newline)
  then show ?thesis by (simp add: print_line_def shown_no_newline)
qed

lemma line_not_empty [simp]: "print_line p \<noteq> []"
  by (simp add: print_line_def)

lemma getline_line:
  assumes "newline \<notin> set l"
  shows "getline \<lparr>rest = l @ newline # r, eofbit = False, failbit = False\<rparr> =
    (Some l, \<lparr>rest = r, eofbit = False, failbit = False\<rparr>)"
proof -
  have "takeWhile (\<lambda>c. c \<noteq> newline) (l @ newline # r) = l"
    "dropWhile (\<lambda>c. c \<noteq> newline) (l @ newline # r) = newline # r"
    using assms by (induction l) auto
  then show ?thesis by (simp add: getline_def)
qed

text \<open>Identifiers that both builds accept: in 64 bits, and below the bound in a debug build.\<close>

definition id_ok :: "bool \<Rightarrow> nat \<Rightarrow> nat \<Rightarrow> bool" where
  "id_ok ndebug nv v \<longleftrightarrow> v \<le> u64_max \<and> (ndebug \<or> v < nv)"

lemma get_after_blank:
  assumes "d \<le> u64_max"
  shows "get_u64 \<lparr>rest = CHR '' '' # show_u64 d @ print_dsts ds, eofbit = False, failbit = False\<rparr> =
    (Some d, \<lparr>rest = print_dsts ds, eofbit = (ds = []), failbit = False\<rparr>)"
proof -
  have "print_dsts ds = [] \<or> \<not> is_digit (hd (print_dsts ds))" by (cases ds) simp_all
  moreover have "print_dsts ds = [] \<longleftrightarrow> ds = []" by (cases ds) simp_all
  ultimately show ?thesis using get_shown [OF assms, of "'' ''" "print_dsts ds"] by simp
qed

lemma get_source:
  assumes "s \<le> u64_max"
  shows "get_u64 (stream_of (print_line (s, ds))) =
    (Some s, \<lparr>rest = print_dsts ds, eofbit = (ds = []), failbit = False\<rparr>)"
proof -
  have "print_dsts ds = [] \<or> \<not> is_digit (hd (print_dsts ds))" by (cases ds) simp_all
  moreover have "print_dsts ds = [] \<longleftrightarrow> ds = []" by (cases ds) simp_all
  ultimately show ?thesis
    using get_shown [OF assms, of "[]" "print_dsts ds"] by (simp add: stream_of_def print_line_def)
qed

lemma u64_count_step: "u64_add n 1 < 2 ^ 64" "(u64_add n 1 + k) mod 2 ^ 64 = (n + Suc k) mod 2 ^ 64"
  by (simp_all add: u64_add_def mod_add_left_eq)

lemma dst_loop_printed:
  assumes "\<forall>d\<in>set ds. id_ok nd nv d" "snd acc < 2 ^ 64"
  shows "dst_loop nd nv (Some s) \<lparr>rest = print_dsts ds, eofbit = (ds = []), failbit = False\<rparr> acc =
    Inr (fold (add_dst s) ds (fst acc), (snd acc + length ds) mod 2 ^ 64)"
  using assms
proof (induction ds arbitrary: acc)
  case Nil
  then show ?case by (simp add: dst_loop.simps)
next
  case (Cons d ds)
  then have d: "d \<le> u64_max" "\<not> (\<not> nd \<and> d \<ge> nv)" by (auto simp: id_ok_def)
  have "dst_loop nd nv (Some s)
      \<lparr>rest = print_dsts (d # ds), eofbit = (d # ds = []), failbit = False\<rparr> acc =
    dst_loop nd nv (Some s) \<lparr>rest = print_dsts ds, eofbit = (ds = []), failbit = False\<rparr>
      (add_dst s d (fst acc), u64_add (snd acc) 1)"
    using d by (subst dst_loop.simps) (auto simp: get_after_blank)
  then show ?case
    using Cons.IH [of "(add_dst s d (fst acc), u64_add (snd acc) 1)"] Cons.prems
    by (simp only: fst_conv snd_conv u64_count_step fold.simps comp_def list.size add_Suc_right
        list.set_intros ball_simps(7) list.simps(15) add_0_right) simp
qed

lemma parse_printed:
  assumes "id_ok nd nv s" "\<forall>d\<in>set ds. id_ok nd nv d" "snd acc < 2 ^ 64"
  shows "parse_line nd nv (print_line (s, ds)) acc =
    Inr (False, fold (add_dst s) ds (fst acc), (snd acc + length ds) mod 2 ^ 64)"
  using assms dst_loop_printed [OF assms(2,3), of s]
  by (auto simp: parse_line_def get_source id_ok_def)

lemma count_dsts_printed:
  assumes "\<forall>d\<in>set ds. d \<le> u64_max" "snd acc < 2 ^ 64"
  shows "count_dsts \<lparr>rest = print_dsts ds, eofbit = (ds = []), failbit = False\<rparr> acc =
    Inr (fold max ds (fst acc), (snd acc + length ds) mod 2 ^ 64)"
  using assms
proof (induction ds arbitrary: acc)
  case Nil
  then show ?case by (simp add: count_dsts.simps)
next
  case (Cons d ds)
  have "count_dsts \<lparr>rest = print_dsts (d # ds), eofbit = (d # ds = []), failbit = False\<rparr> acc =
    count_dsts \<lparr>rest = print_dsts ds, eofbit = (ds = []), failbit = False\<rparr>
      (max (fst acc) d, u64_add (snd acc) 1)"
    using Cons.prems by (subst count_dsts.simps) (simp add: get_after_blank)
  then show ?case
    using Cons.IH [of "(max (fst acc) d, u64_add (snd acc) 1)"] Cons.prems u64_count_step(1)
    by (simp only: fst_conv snd_conv u64_count_step fold.simps comp_def list.size add_Suc_right
        list.set_intros list.simps(15) add_0_right max.commute) simp
qed

section \<open>Reading a batch back\<close>

definition group_edges :: "edge list \<Rightarrow> batch \<Rightarrow> batch" where
  "group_edges es m = fold (\<lambda>e. add_dst (fst e) (snd e)) es m"

definition group_runs :: "batch \<Rightarrow> batch \<Rightarrow> batch" where
  "group_runs ls m = fold (\<lambda>p. fold (add_dst (fst p)) (snd p)) ls m"

lemma group_runs_edges: "group_runs (runs es) m = group_edges es m"
proof (induction es arbitrary: m)
  case (Cons e es)
  obtain s d where e: "e = (s, d)" by (cases e)
  have "group_runs (runs ((s, d) # es)) m = group_runs (runs es) (add_dst s d m)"
    by (auto simp: group_runs_def split: list.splits prod.splits)
  with Cons show ?case by (simp add: e group_edges_def)
qed (simp add: group_runs_def group_edges_def)

lemma group_edges_ok:
  "grouped m \<Longrightarrow> grouped (group_edges es m) \<and>
    mset (batch_edges (group_edges es m)) = mset (batch_edges m) + mset es"
proof (induction es arbitrary: m)
  case (Cons e es)
  then show ?case
    using grouped_add_dst [of m "fst e" "snd e"] by (simp add: group_edges_def add_dst_edges)
qed (simp add: group_edges_def)

text \<open>What a run of lines must satisfy to be read back.\<close>

definition lines_ok :: "(nat \<Rightarrow> bool) \<Rightarrow> batch \<Rightarrow> bool" where
  "lines_ok ok m \<longleftrightarrow> (\<forall>p\<in>set m. ok (fst p) \<and> (\<forall>d\<in>set (snd p). ok d))"

lemma lines_ok_simps [simp]:
  "lines_ok ok []"
  "lines_ok ok (p # m) \<longleftrightarrow> ok (fst p) \<and> (\<forall>d\<in>set (snd p). ok d) \<and> lines_ok ok m"
  by (simp_all add: lines_ok_def)

lemma lines_ok_runs: "(\<forall>e\<in>set es. ok (fst e) \<and> ok (snd e)) \<Longrightarrow> lines_ok ok (runs es)"
  by (induction es rule: runs.induct) (auto split: list.splits)

definition dst_count :: "batch \<Rightarrow> nat" where
  "dst_count m = sum_list (map (\<lambda>p. length (snd p)) m)"

lemma dst_count_runs: "dst_count (runs es) = length es"
  by (induction es rule: runs.induct) (auto simp: dst_count_def split: list.splits)

lemma read_lines_printed:
  assumes "lines_ok (id_ok nd nv) m" "snd acc < 2 ^ 64"
  shows "read_lines nd nv \<lparr>rest = lines_text m @ newline # r, eofbit = False, failbit = False\<rparr> acc =
    Inr ((group_runs m (fst acc), (snd acc + dst_count m) mod 2 ^ 64),
      \<lparr>rest = r, eofbit = False, failbit = False\<rparr>)"
  using assms
proof (induction m arbitrary: acc)
  case Nil
  then show ?case
    using getline_line [of "[]" r]
    by (subst read_lines.simps) (simp add: lines_text_def group_runs_def dst_count_def)
next
  case (Cons p m)
  obtain s ds where p: "p = (s, ds)" by (cases p)
  let ?acc = "(fold (add_dst s) ds (fst acc), (snd acc + length ds) mod 2 ^ 64)"
  let ?s = "\<lparr>rest = lines_text m @ newline # r, eofbit = False, failbit = False\<rparr>"
  have "read_lines nd nv
      \<lparr>rest = lines_text (p # m) @ newline # r, eofbit = False, failbit = False\<rparr> acc =
    read_lines nd nv ?s ?acc"
    using getline_line [OF line_no_newline [of p], of "lines_text m @ newline # r"]
      parse_printed [of nd nv s ds acc] Cons.prems
    by (subst read_lines.simps) (simp add: p)
  also have "\<dots> = Inr ((group_runs m (fst ?acc), (snd ?acc + dst_count m) mod 2 ^ 64),
      \<lparr>rest = r, eofbit = False, failbit = False\<rparr>)"
    using Cons.prems by (intro Cons.IH) simp_all
  also have "(snd ?acc + dst_count m) mod 2 ^ 64 = (snd acc + dst_count (p # m)) mod 2 ^ 64"
    by (simp add: p dst_count_def mod_add_left_eq add.assoc)
  also have "group_runs m (fst ?acc) = group_runs (p # m) (fst acc)"
    by (simp add: group_runs_def p)
  finally show ?case .
qed

text \<open>One batch: non-empty ones come back grouped; an empty one leaves an empty line behind.\<close>

lemma read_batch:
  assumes "\<forall>e\<in>set es. id_ok nd nv (fst e) \<and> id_ok nd nv (snd e)" "es \<noteq> []"
  shows "read_lines nd nv \<lparr>rest = batch_text es @ r, eofbit = False, failbit = False\<rparr> ([], 0) =
    Inr ((group_edges es [], length es mod 2 ^ 64), \<lparr>rest = r, eofbit = False, failbit = False\<rparr>)"
  using read_lines_printed [OF lines_ok_runs [of es "id_ok nd nv"], of "([], 0)" r]
    batch_text_lines [OF assms(2)] assms(1)
  by (simp add: group_runs_edges dst_count_runs)

lemma read_empty_line:
  "read_lines nd nv \<lparr>rest = newline # r, eofbit = False, failbit = False\<rparr> acc =
    Inr (acc, \<lparr>rest = r, eofbit = False, failbit = False\<rparr>)"
  using getline_line [of "[]" r] by (subst read_lines.simps) simp

lemma read_end:
  "read_lines nd nv \<lparr>rest = [], eofbit = False, failbit = False\<rparr> acc =
    Inr (acc, \<lparr>rest = [], eofbit = True, failbit = True\<rparr>)"
  by (subst read_lines.simps) (simp add: getline_def)

section \<open>The driver over printed batches\<close>

text \<open>Rounds of the driver: one for a batch, two for an empty one, and one at the end of the file.\<close>

definition rounds :: "edge list list \<Rightarrow> nat" where
  "rounds sls = sum_list (map (\<lambda>sl. if sl = [] then 2 else 1) sls) + 1"

lemma rounds_simps [simp]:
  "rounds [] = 1" "rounds (sl # sls) = (if sl = [] then 2 else 1) + rounds sls"
  by (simp_all add: rounds_def)

lemma map_order_empty: "map_order_ok h \<Longrightarrow> h m = [] \<longleftrightarrow> m = []"
  unfolding map_order_ok_def by (metis mset_zero_iff)

context graph_updating
begin

lemma drive_skips:
  assumes "read_lines nd nv s ([], 0) = Inr (([], n), s')" "\<not> eofbit s" "map_order_ok h"
    and "algo i g = Inr g'"
  shows "drive ops algo rt h nd nv s i g = drive ops algo rt h nd nv s' (i + 1) g'"
  using assms map_order_empty [of h "[]"] by (subst drive.simps) simp

lemma drive_printed:
  assumes rt: "galois_ok rt" and h: "map_order_ok h" and algo: "keeps_edges ginv succs algo"
    and "ginv g" and "\<forall>sl\<in>set sls. ids_ok sl \<and>
      (\<forall>e\<in>set sl. id_ok nd nv (fst e) \<and> id_ok nd nv (snd e))"
    and "length (edge_list (succs g)) + length (concat sls) \<le> u64_max"
  shows "\<exists>g'. drive ops algo rt h nd nv
      \<lparr>rest = concat (map batch_text sls), eofbit = False, failbit = False\<rparr> i g =
      Some (Inr (i + rounds sls, g')) \<and> ginv g' \<and>
    mset (edge_list (succs g')) = mset (edge_list (succs g)) + mset (concat sls)"
  using assms(4-6)
proof (induction sls arbitrary: i g)
  case Nil
  obtain g1 where g1: "algo i g = Inr g1" "ginv g1"
    "mset (edge_list (succs g1)) = mset (edge_list (succs g))"
    using algo Nil.prems(1) unfolding keeps_edges_def by blast
  have "drive ops algo rt h nd nv \<lparr>rest = [], eofbit = False, failbit = False\<rparr> i g =
      drive ops algo rt h nd nv \<lparr>rest = [], eofbit = True, failbit = True\<rparr> (i + 1) g1"
    using drive_skips [OF read_end _ h, where algo = algo and i = i and g = g and g' = g1] g1 by simp
  then show ?case using g1 by (simp add: drive.simps [of _ _ _ _ _ _ "\<lparr>rest = [], eofbit = True, failbit = True\<rparr>"])
next
  case (Cons sl sls)
  let ?r = "\<lparr>rest = concat (map batch_text sls), eofbit = False, failbit = False\<rparr>"
  let ?s = "\<lparr>rest = concat (map batch_text (sl # sls)), eofbit = False, failbit = False\<rparr>"
  let ?k = "if sl = [] then 2 else 1"
  have "\<exists>g1. drive ops algo rt h nd nv ?s i g = drive ops algo rt h nd nv ?r (i + ?k) g1 \<and>
      ginv g1 \<and> mset (edge_list (succs g1)) = mset (edge_list (succs g)) + mset sl"
  proof (cases "sl = []")
    case True
    obtain g1 where g1: "algo i g = Inr g1" "ginv g1"
      "mset (edge_list (succs g1)) = mset (edge_list (succs g))"
      using algo Cons.prems(1) unfolding keeps_edges_def by blast
    obtain g2 where g2: "algo (i + 1) g1 = Inr g2" "ginv g2"
      "mset (edge_list (succs g2)) = mset (edge_list (succs g1))"
      using algo g1(2) unfolding keeps_edges_def by blast
    have "drive ops algo rt h nd nv ?s i g = drive ops algo rt h nd nv ?r (i + 1 + 1) g2"
      using drive_skips [OF read_empty_line _ h, where algo = algo and i = i and g = g and g' = g1]
        drive_skips [OF read_empty_line _ h, where algo = algo and i = "i + 1" and g = g1 and g' = g2] g1 g2 True
      by (simp add: batch_text_def)
    with True g1 g2 show ?thesis by auto
  next
    case False
    let ?m = "group_edges sl []"
    have ids: "ids_ok sl" "\<forall>e\<in>set sl. id_ok nd nv (fst e) \<and> id_ok nd nv (snd e)"
      using Cons.prems(2) by simp_all
    have m: "grouped ?m" "mset (batch_edges ?m) = mset sl"
      using group_edges_ok [of "[]" sl] by simp_all
    have hm: "mset (h ?m) = mset ?m" using h by (simp add: map_order_ok_def)
    have edges: "mset (batch_edges (h ?m)) = mset sl"
      using mset_batch_edges_perm [OF hm] m(2) by simp
    have "batch_ok (h ?m)"
      using grouped_perm [OF hm m(1)] ids_ok_sub [OF ids(1)] mset_eq_setD [OF edges]
      by (intro grouped_batch_ok) auto
    moreover have sum: "mset (edge_list (apply_batch (h ?m) (succs g))) =
        mset (edge_list (succs g)) + mset sl"
      by (simp add: edges_apply_batch edges)
    moreover have "edge_total (apply_batch (h ?m) (succs g)) \<le> u64_max"
      using arg_cong [OF sum, of size] Cons.prems(3) by (simp add: edge_total_length)
    ultimately obtain g1 where g1: "load_batch ops rt (h ?m) g = Inr g1" "ginv g1"
      "succs g1 = apply_batch (h ?m) (succs g)"
      using load_batch_ok [OF rt Cons.prems(1)] by blast
    obtain g2 where g2: "algo i g1 = Inr g2" "ginv g2"
      "mset (edge_list (succs g2)) = mset (edge_list (succs g1))"
      using algo g1(2) unfolding keeps_edges_def by blast
    have "h ?m \<noteq> []" using edges False by auto
    then have "drive ops algo rt h nd nv ?s i g = drive ops algo rt h nd nv ?r (i + 1) g2"
      using read_batch [OF ids(2) False, of "concat (map batch_text sls)"] g1 g2
      by (subst drive.simps) simp
    with False g1 g2 sum show ?thesis by auto
  qed
  then obtain g1 where g1: "drive ops algo rt h nd nv ?s i g =
      drive ops algo rt h nd nv ?r (i + ?k) g1" "ginv g1"
    "mset (edge_list (succs g1)) = mset (edge_list (succs g)) + mset sl" by blast
  have "length (edge_list (succs g1)) + length (concat sls) \<le> u64_max"
    using arg_cong [OF g1(3), of size] Cons.prems(3) by simp
  with Cons.IH [of g1 "i + ?k"] Cons.prems(2) g1 show ?case
    by (auto simp: add.assoc)
qed

end

section \<open>Counting printed batches\<close>

definition edge_ids :: "edge list \<Rightarrow> nat list" where
  "edge_ids es = concat (map (\<lambda>e. [fst e, snd e]) es)"

lemma batch_ids_simps: "batch_ids [] = []" "batch_ids (p # m) = fst p # snd p @ batch_ids m"
  by (simp_all add: batch_ids_def)

lemma edge_ids_simps: "edge_ids [] = []" "edge_ids (e # es) = fst e # snd e # edge_ids es"
  by (simp_all add: edge_ids_def)

lemma set_batch_ids_runs: "set (batch_ids (runs es)) = set (edge_ids es)"
proof (induction es)
  case (Cons e es)
  obtain s d where e: "e = (s, d)" by (cases e)
  have "set (batch_ids (runs ((s, d) # es))) = insert s (insert d (set (batch_ids (runs es))))"
    by (cases "runs es") (auto simp: batch_ids_simps split: if_splits)
  with Cons show ?case by (simp add: e edge_ids_simps)
qed (simp add: batch_ids_simps edge_ids_simps)

lemma count_lines_printed:
  assumes "lines_ok (\<lambda>v. v \<le> u64_max) m" "snd acc < 2 ^ 64"
  shows "count_lines \<lparr>rest = lines_text m @ newline # r, eofbit = False, failbit = False\<rparr> acc =
    Inr ((fold max (batch_ids m) (fst acc), (snd acc + dst_count m) mod 2 ^ 64),
      \<lparr>rest = r, eofbit = False, failbit = False\<rparr>)"
  using assms
proof (induction m arbitrary: acc)
  case Nil
  then show ?case
    using getline_line [of "[]" r]
    by (subst count_lines.simps) (simp add: lines_text_def batch_ids_def dst_count_def)
next
  case (Cons p m)
  obtain s ds where p: "p = (s, ds)" by (cases p)
  let ?acc = "(fold max ds (max (fst acc) s), (snd acc + length ds) mod 2 ^ 64)"
  let ?s = "\<lparr>rest = lines_text m @ newline # r, eofbit = False, failbit = False\<rparr>"
  have "count_line (print_line (s, ds)) acc = Inr ?acc"
    using count_dsts_printed [of ds "(max (fst acc) s, snd acc)"] Cons.prems p
    by (simp add: count_line_def get_source)
  then have "count_lines
      \<lparr>rest = lines_text (p # m) @ newline # r, eofbit = False, failbit = False\<rparr> acc =
    count_lines ?s ?acc"
    using getline_line [OF line_no_newline [of p], of "lines_text m @ newline # r"]
    by (subst count_lines.simps) (simp add: p)
  also have "\<dots> = Inr ((fold max (batch_ids m) (fst ?acc), (snd ?acc + dst_count m) mod 2 ^ 64),
      \<lparr>rest = r, eofbit = False, failbit = False\<rparr>)"
    using Cons.prems by (intro Cons.IH) simp_all
  also have "(snd ?acc + dst_count m) mod 2 ^ 64 = (snd acc + dst_count (p # m)) mod 2 ^ 64"
    by (simp add: p dst_count_def mod_add_left_eq add.assoc)
  also have "fold max (batch_ids m) (fst ?acc) = fold max (batch_ids (p # m)) (fst acc)"
    by (simp add: batch_ids_def p max.commute)
  finally show ?case .
qed

lemma count_empty_line:
  "count_lines \<lparr>rest = newline # r, eofbit = False, failbit = False\<rparr> acc =
    Inr (acc, \<lparr>rest = r, eofbit = False, failbit = False\<rparr>)"
  using getline_line [of "[]" r] by (subst count_lines.simps) simp

lemma count_end:
  "count_loop \<lparr>rest = [], eofbit = False, failbit = False\<rparr> acc =
    Some (Inr (u64_add (fst acc) 1, snd acc))"
proof -
  have "count_lines \<lparr>rest = [], eofbit = False, failbit = False\<rparr> acc =
      Inr (acc, \<lparr>rest = [], eofbit = True, failbit = True\<rparr>)"
    by (subst count_lines.simps) (simp add: getline_def)
  moreover have "count_loop \<lparr>rest = [], eofbit = True, failbit = True\<rparr> acc =
      Some (Inr (u64_add (fst acc) 1, snd acc))"
    by (subst count_loop.simps) simp
  ultimately show ?thesis by (subst count_loop.simps) simp
qed

lemma count_printed:
  assumes "\<forall>sl\<in>set sls. \<forall>e\<in>set sl. fst e \<le> u64_max \<and> snd e \<le> u64_max"
    and "snd acc < 2 ^ 64"
  shows "count_loop \<lparr>rest = concat (map batch_text sls), eofbit = False, failbit = False\<rparr> acc =
    Some (Inr (u64_add (fold max (concat (map (\<lambda>sl. batch_ids (runs sl)) sls)) (fst acc)) 1,
      (snd acc + length (concat sls)) mod 2 ^ 64))"
  using assms
proof (induction sls arbitrary: acc)
  case Nil
  then show ?case by (simp add: count_end)
next
  case (Cons sl sls)
  let ?r = "\<lparr>rest = concat (map batch_text sls), eofbit = False, failbit = False\<rparr>"
  let ?s = "\<lparr>rest = concat (map batch_text (sl # sls)), eofbit = False, failbit = False\<rparr>"
  let ?acc = "(fold max (batch_ids (runs sl)) (fst acc), (snd acc + length sl) mod 2 ^ 64)"
  have "count_loop ?s acc = count_loop ?r ?acc"
  proof (cases "sl = []")
    case True
    then have "count_loop ?s acc = count_loop ?r acc"
      by (subst count_loop.simps, simp add: batch_text_def count_empty_line,
          subst count_loop.simps, simp add: count_empty_line)
    moreover have "?acc = acc" using True Cons.prems(2) by (simp add: batch_ids_def)
    ultimately show ?thesis by simp
  next
    case False
    have "lines_ok (\<lambda>v. v \<le> u64_max) (runs sl)"
      using Cons.prems(1) by (intro lines_ok_runs) simp
    then have "count_lines ?s acc = Inr (?acc, ?r)"
      using count_lines_printed [of "runs sl" acc "concat (map batch_text sls)"]
        batch_text_lines [OF False] Cons.prems(2)
      by (simp add: dst_count_runs)
    then show ?thesis by (subst count_loop.simps) simp
  qed
  then show ?case
    using Cons.IH [of ?acc] Cons.prems by (simp add: mod_add_left_eq add.assoc)
qed

end
