(* ===== verification/TextProperties.thy ===== *)
theory TextProperties
  imports BatchRoundTrip
begin

text \<open>
  The properties of the batch tools and the two drivers: what they load, when they end, and
  which inputs the code does not handle.
\<close>

section \<open>Shared facts\<close>

lemma empty_csr_edges [simp]: "m_edges empty_csr = []"
  by (simp add: empty_csr_def)

lemma edge_list_Nil [simp]: "edge_list [] = []"
  by (simp add: edge_list_def)

definition input_edges :: "string \<Rightarrow> edge list" where
  "input_edges inp = read_edges (skip_comments (stream_of inp))"

definition shuffled :: "(edge list \<Rightarrow> edge list) \<Rightarrow> bool \<Rightarrow> edge list \<Rightarrow> edge list" where
  "shuffled shuffle randomize es = (if randomize then shuffle es else es)"

definition printed_slices :: "edge list \<Rightarrow> nat \<Rightarrow> edge list list" where
  "printed_slices es nb =
     map (\<lambda>i. sort (slice_at es (edges_per_batch (length es) nb) i)) [0..<nb]"

lemma mset_printed_slices:
  assumes "0 < nb" "length es + nb \<le> u64_max"
  shows "mset (concat (printed_slices es nb)) = mset es"
proof -
  let ?per = "edges_per_batch (length es) nb"
  have "mset (concat (printed_slices es nb)) = mset (concat (map (slice_at es ?per) [0..<nb]))"
    by (simp add: printed_slices_def mset_concat comp_def)
  also have "\<dots> = mset es"
    using edges_per_batch_bounds(2) [OF assms] by (simp add: concat_slices)
  finally show ?thesis .
qed

lemma divide_main_ok:
  fixes es shuffle randomize inp
  defines "es \<equiv> shuffled shuffle randomize (input_edges inp)"
  assumes "input_edges inp \<noteq> []" "mset es = mset (input_edges inp)" "0 < nb"
    "length es + nb \<le> u64_max"
  shows "divide_main shuffle randomize nb inp =
    (if (nb - 1) * edges_per_batch (length es) nb \<le> length es
     then Inr (0, concat (map batch_text (printed_slices es nb))) else Inl BadRange)"
proof -
  have len: "length (input_edges inp) = length es" using assms(3) by (metis size_mset)
  have main: "divide_main shuffle randomize nb inp = res_map (\<lambda>st. (0, snd st))
      (fold_res (divide_batch (length es) (edges_per_batch (length es) nb)) [0..<nb] (es, []))"
    using assms(2,4) len
    by (simp add: divide_main_def es_def input_edges_def shuffled_def max_vertex_id_def Let_def)
  show ?thesis
    unfolding main
    using divide_loop_ok [OF assms(4,5)] divide_loop_bad [OF assms(4,5)]
    by (auto simp: not_le divided_def printed_slices_def batch_text_def comp_def)
qed

section \<open>The binary driver\<close>

text \<open>
  The clamped ranges of edit\_scalability\_large split what is left of the file after the
  first load into consecutive pieces: every edge is in exactly one batch, in file order.
\<close>

theorem batch_ranges_partition:
  fixes edges :: "edge list"
  assumes "pre \<le> length edges" and "0 < num_batches" and "length edges + num_batches \<le> u64_max"
  shows "\<exists>per. num_edges_per_batch (length edges) pre num_batches = Inr per \<and>
    concat (map (\<lambda>i. case batch_range (length edges) pre per i of
        (a, b) \<Rightarrow> take (b - a) (drop a edges)) [0..<num_batches]) = drop pre edges"
proof -
  define per where "per = (length edges - pre + (num_batches - 1)) div num_batches"
  note range = batch_range_split [OF assms, folded per_def]
  have slices: "map (\<lambda>i. case batch_range (length edges) pre per i of
      (a, b) \<Rightarrow> take (b - a) (drop a edges)) [0..<num_batches] =
    map (rest_slice edges pre per) [0..<num_batches]"
    by (rule map_cong) (auto simp: range(2) rest_slice_def Let_def)
  show ?thesis
    using range(1) [OF assms(2)] rest_slices_concat [OF assms(1,2), folded per_def]
    by (intro exI [of _ per]) (simp only: slices)
qed

lemma batch_ranges_partition_witness:
  "\<exists>per. num_edges_per_batch 5 1 4 = Inr per \<and>
    concat (map (\<lambda>i. case batch_range 5 1 per i of
        (a, b) \<Rightarrow> take (b - a) (drop a [(0, 1), (1, 2), (2, 3), (3, 4), (4, 5 :: nat)])) [0..<4]) =
      [(1 :: nat, 2), (2, 3), (3, 4), (4, 5)]"
proof -
  let ?es = "[(0, 1), (1, 2), (2, 3), (3, 4), (4, 5)] :: edge list"
  have len: "length ?es = 5" by simp
  have "\<exists>per. num_edges_per_batch (length ?es) 1 4 = Inr per \<and>
      concat (map (\<lambda>i. case batch_range (length ?es) 1 per i of
        (a, b) \<Rightarrow> take (b - a) (drop a ?es)) [0..<4]) = drop 1 ?es"
    by (rule batch_ranges_partition) (simp_all add: u64_max_def)
  then show ?thesis unfolding len by simp
qed

text \<open>
  C23: loading a binary edge file into \<open>CSR\<close>, in any number of batches, with any startup load,
  any order of the parallel insertions into the hash map and any enumeration order of that
  map, ends with a graph that holds exactly the edges of the file, each as often as it occurs;
  the algorithm that runs between the batches may be any that keeps the edges.
\<close>

theorem large_driver_loads_file:
  assumes "galois_ok rt" and "map_order_ok h" and "ids_ok edges"
    and "pre \<le> length edges" and "0 < num_batches" and "length edges + num_batches \<le> u64_max"
    and "keeps_edges csr_inv m_edges algo"
  shows "\<exists>g. large_main csr_ops algo rt h edges pre num_batches empty_csr = Inr g \<and>
    csr_inv g \<and> mset (edge_list (m_edges g)) = mset edges"
  using csrr.large_main_loads [OF assms(1,2) csr_inv_empty assms(3-7)] assms(6) by auto

lemma large_driver_loads_file_witness:
  "\<exists>g. large_main csr_ops (\<lambda>i. Inr) backward_rt rev [(0, 1), (1, 2), (0, 2), (2, 0)] 1 2 empty_csr =
    Inr g \<and> csr_inv g \<and> mset (edge_list (m_edges g)) = mset [(0, 1), (1, 2), (0, 2), (2, 0)]"
proof (rule large_driver_loads_file [OF galois_ok_backward map_order_ok_id(2)])
  show "keeps_edges csr_inv m_edges (\<lambda>i. Inr)" by (rule keeps_edges_nop)
qed (simp_all add: ids_ok_def u64_max_def)

section \<open>divide\_into\_batches\<close>


definition five_edges :: string where
  "five_edges = concat (map print_edge [(0, 1), (1, 2), (2, 3), (3, 4), (4, 0)])"

lemma input_five_edges: "input_edges five_edges = [(0, 1), (1, 2), (2, 3), (3, 4), (4, 0)]"
  by code_simp

lemma five_edges_input:
  "input_edges five_edges \<noteq> []" "length (input_edges five_edges) = 5"
  "length (rev (input_edges five_edges)) = 5"
  by (simp_all add: input_five_edges)


text \<open>
  An edge list with comment lines in front, one edge per line, is read back exactly.
\<close>

theorem edge_list_read_back:
  assumes "\<forall>e\<in>set es. fst e \<le> u64_max \<and> snd e \<le> u64_max"
    and "\<forall>c\<in>set comments. newline \<notin> set c"
  shows "input_edges (concat (map (\<lambda>c. CHR ''#'' # c @ [newline]) comments) @
    concat (map print_edge es)) = es"
  using assms(2)
proof (induction comments)
  case Nil
  show ?case
  proof (cases es)
    case Nil
    then show ?thesis
      by (simp add: input_edges_def stream_of_def skip_comments.simps read_edges.simps get_u64_def)
  next
    case (Cons e es')
    have "show_u64 (fst e) \<noteq> []" by simp
    then have "hd (show_u64 (fst e)) \<in> set (show_u64 (fst e))" by (rule hd_in_set)
    then have "is_digit (hd (show_u64 (fst e)))" by (rule show_u64_digits)
    then have "hd (concat (map print_edge es)) \<noteq> CHR ''#''"
      by (auto simp: Cons print_edge_def is_digit_def)
    moreover have "concat (map print_edge es) \<noteq> []" by (simp add: Cons print_edge_def)
    ultimately have "skip_comments (stream_of (concat (map print_edge es))) =
        stream_of (concat (map print_edge es))" by (rule skip_comments_done [rotated])
    then show ?thesis
      using read_edges_printed [OF assms(1), of "[]"]
      by (simp add: input_edges_def) (simp add: stream_of_def)
  qed
next
  case (Cons c cs)
  then show ?case using skip_comment_line [of c] by (simp add: input_edges_def)
qed

lemma edge_list_read_back_witness:
  "input_edges (concat (map (\<lambda>c. CHR ''#'' # c @ [newline]) [''FromNode ToNode'']) @
    concat (map print_edge [(7, 0), (0, 18446744073709551615)])) = [(7, 0), (0, 18446744073709551615)]"
  by (rule edge_list_read_back) (simp_all add: u64_max_def newline_def)

section \<open>Both programs in a row\<close>



text \<open>
  Count\_batched over the same output reports one more than the largest vertex identifier
  of the original edge list, and its number of edges.
\<close>

theorem divide_then_count:
  assumes "input_edges inp \<noteq> []" and "0 < num_batches"
    and "mset (shuffled shuffle randomize (input_edges inp)) = mset (input_edges inp)"
    and "length (input_edges inp) + num_batches \<le> u64_max"
    and "\<forall>e\<in>set (input_edges inp). fst e < u64_max \<and> snd e < u64_max"
    and "divide_main shuffle randomize num_batches inp = Inr (0, out)"
  shows "count_batched out = Some (Inr
    (Suc (fold max (edge_ids (input_edges inp)) 0), length (input_edges inp)))"
proof -
  let ?es = "shuffled shuffle randomize (input_edges inp)"
  let ?sls = "printed_slices ?es num_batches"
  have len: "length ?es = length (input_edges inp)" using assms(3) by (metis size_mset)
  then have fits: "length ?es + num_batches \<le> u64_max" using assms(4) by simp
  have out: "out = concat (map batch_text ?sls)"
    using divide_main_ok [OF assms(1,3,2) fits] assms(6) by (auto split: if_splits)
  have all: "mset (concat ?sls) = mset (input_edges inp)"
    using mset_printed_slices [OF assms(2) fits] assms(3) by simp
  then have set: "set (concat ?sls) = set (input_edges inp)" by (rule mset_eq_setD)
  let ?ids = "concat (map (\<lambda>sl. batch_ids (runs sl)) ?sls)"
  have "set ?ids = (\<Union>sl\<in>set ?sls. set (edge_ids sl))" by (simp add: set_batch_ids_runs)
  also have "\<dots> = set (edge_ids (concat ?sls))" by (simp add: edge_ids_def)
  also have "\<dots> = set (edge_ids (input_edges inp))" using set by (simp add: edge_ids_def)
  finally have max: "fold max ?ids 0 = fold max (edge_ids (input_edges inp)) 0"
    by (rule fold_max_mset_eq)
  have "fold max (edge_ids (input_edges inp)) 0 \<le> u64_max - 1"
    using assms(5) unfolding fold_max_le_iff by (fastforce simp: edge_ids_def)
  then have "u64_add (fold max (edge_ids (input_edges inp)) 0) 1 =
      Suc (fold max (edge_ids (input_edges inp)) 0)"
    by (simp add: u64_add_small u64_max_def)
  moreover have "length (concat ?sls) = length (input_edges inp)"
    using arg_cong [OF all, of size] by simp
  moreover have "length (input_edges inp) mod 2 ^ 64 = length (input_edges inp)"
    using assms(4) by (simp add: u64_max_def)
  moreover have "\<forall>sl\<in>set ?sls. \<forall>e\<in>set sl. fst e \<le> u64_max \<and> snd e \<le> u64_max"
    using set assms(5) by (auto intro: less_imp_le)
  ultimately show ?thesis
    using count_printed [of ?sls "(0, 0)"] max out
    by (simp add: count_batched_def stream_of_def)
qed

lemma divide_then_count_witness:
  "\<exists>out. divide_main id False 2 five_edges = Inr (0, out) \<and> count_batched out = Some (Inr (5, 5))"
proof -
  let ?out = "concat (map batch_text (printed_slices (shuffled id False (input_edges five_edges)) 2))"
  have len: "length (shuffled id False (input_edges five_edges)) = 5"
    by (simp add: shuffled_def five_edges_input)
  have "edges_per_batch 5 2 = 3" by code_simp
  then have out: "divide_main id False 2 five_edges = Inr (0, ?out)"
    using divide_main_ok [of five_edges id False 2] five_edges_input(1)
    by (simp add: len u64_max_def) (simp add: shuffled_def)
  have "count_batched ?out = Some (Inr
      (Suc (fold max (edge_ids (input_edges five_edges)) 0), length (input_edges five_edges)))"
    using five_edges_input(1)
    by (intro divide_then_count [OF _ _ _ _ _ out])
      (simp_all add: shuffled_def five_edges_input, simp_all add: input_five_edges u64_max_def)
  then show ?thesis using out by (simp add: input_five_edges edge_ids_def)
qed

section \<open>When the text driver ends, and which lines it does not handle\<close>

text \<open>
  C37: over any text whatever, on any representation, with any algorithm and in either build,
  the driver ends: every round of the loop consumes input or reaches the end of the file.
\<close>

theorem text_driver_ends:
  "\<exists>r. drive ops algo rt h ndebug num_vertices (stream_of inp) i g = Some r"
  using drive_ends [OF open_stream_of [of inp]] by fast



text \<open>
  In a debug build a source that is out of range leaves the reading loop of its batch. The
  lines after it are not skipped, they become the next batch, although the warning printed
  for it speaks of ignored edges only.
\<close>

theorem debug_source_splits_batch:
  assumes "lines_ok (id_ok False num_vertices) m" and "num_vertices \<le> s" and "s \<le> u64_max"
  shows "read_lines False num_vertices
      \<lparr>rest = lines_text m @ print_line (s, ds) @ newline # r, eofbit = False, failbit = False\<rparr> ([], 0) =
    Inr ((group_runs m [], dst_count m mod 2 ^ 64), \<lparr>rest = r, eofbit = False, failbit = False\<rparr>)"
proof -
  have "read_lines False num_vertices
      \<lparr>rest = lines_text m @ print_line (s, ds) @ newline # r, eofbit = False, failbit = False\<rparr> acc =
    Inr ((group_runs m (fst acc), (snd acc + dst_count m) mod 2 ^ 64),
      \<lparr>rest = r, eofbit = False, failbit = False\<rparr>)" if "snd acc < 2 ^ 64" for acc
    using assms(1) that
  proof (induction m arbitrary: acc)
    case Nil
    have "parse_line False num_vertices (print_line (s, ds)) acc = Inr (True, acc)"
      using assms(2,3) by (simp add: parse_line_def get_source)
    then show ?case
      using getline_line [OF line_no_newline, of "(s, ds)" r] Nil.prems
      by (subst read_lines.simps) (simp add: lines_text_def group_runs_def dst_count_def)
  next
    case (Cons p m)
    obtain u us where p: "p = (u, us)" by (cases p)
    let ?acc = "(fold (add_dst u) us (fst acc), (snd acc + length us) mod 2 ^ 64)"
    let ?r = "lines_text m @ print_line (s, ds) @ newline # r"
    have "read_lines False num_vertices
        \<lparr>rest = lines_text (p # m) @ print_line (s, ds) @ newline # r, eofbit = False, failbit = False\<rparr> acc =
      read_lines False num_vertices \<lparr>rest = ?r, eofbit = False, failbit = False\<rparr> ?acc"
      using getline_line [OF line_no_newline [of p], of ?r] Cons.prems
        parse_printed [of False num_vertices u us acc]
      by (subst read_lines.simps) (simp add: p)
    also have "\<dots> = Inr ((group_runs m (fst ?acc), (snd ?acc + dst_count m) mod 2 ^ 64),
        \<lparr>rest = r, eofbit = False, failbit = False\<rparr>)"
      using Cons.prems by (intro Cons.IH) simp_all
    also have "(snd ?acc + dst_count m) mod 2 ^ 64 = (snd acc + dst_count (p # m)) mod 2 ^ 64"
      by (simp add: p dst_count_def mod_add_left_eq add.assoc)
    also have "group_runs m (fst ?acc) = group_runs (p # m) (fst acc)"
      by (simp add: group_runs_def p)
    finally show ?case .
  qed
  from this [of "([], 0)"] show ?thesis by simp
qed

lemma debug_source_splits_batch_witness:
  "read_lines False 3
      \<lparr>rest = lines_text [(0, [1])] @ print_line (9, [0]) @ newline # lines_text [(1, [2])],
        eofbit = False, failbit = False\<rparr> ([], 0) =
    Inr (([(0, [1])], 1), \<lparr>rest = lines_text [(1, [2])], eofbit = False, failbit = False\<rparr>)"
  using debug_source_splits_batch [of 3 "[(0, [1])]" 9 "[0]" "lines_text [(1, [2])]"]
  by (simp add: id_ok_def u64_max_def group_runs_def dst_count_def)

text \<open>
  C39: a line that ends in white space after its last number reads a variable that was never
  assigned, in both builds: the end-of-file bit is set only by the failing extraction.
\<close>

theorem trailing_blank_is_indeterminate:
  assumes "id_ok ndebug num_vertices s" and "\<forall>d\<in>set ds. id_ok ndebug num_vertices d"
    and "sp \<noteq> []" and "\<forall>c\<in>set sp. is_space c"
  shows "parse_line ndebug num_vertices (print_line (s, ds) @ sp) acc = Inl Indeterminate"
proof -
  have hd: "print_dsts ds @ sp \<noteq> [] \<and> \<not> is_digit (hd (print_dsts ds @ sp))" for ds
    using assms(3,4) digit_not_space by (cases ds; cases sp) auto
  have "dst_loop ndebug num_vertices (Some s)
      \<lparr>rest = print_dsts ds @ sp, eofbit = False, failbit = False\<rparr> acc = Inl Indeterminate" for acc
    using assms(2)
  proof (induction ds arbitrary: acc)
    case Nil
    have "get_u64 \<lparr>rest = sp, eofbit = False, failbit = False\<rparr> =
        (None, \<lparr>rest = [], eofbit = True, failbit = True\<rparr>)"
      using assms(4) by (simp add: get_u64_def)
    then show ?case by (subst dst_loop.simps) simp
  next
    case (Cons d ds)
    then have "d \<le> u64_max" "ndebug \<or> d < num_vertices" by (auto simp: id_ok_def)
    moreover from this(1) have "get_u64 \<lparr>rest = print_dsts (d # ds) @ sp, eofbit = False, failbit = False\<rparr> =
        (Some d, \<lparr>rest = print_dsts ds @ sp, eofbit = False, failbit = False\<rparr>)"
      using get_shown [of d "'' ''" "print_dsts ds @ sp"] hd [of ds] by simp
    ultimately show ?case
      using Cons.IH Cons.prems by (subst dst_loop.simps) auto
  qed
  moreover have "get_u64 (stream_of (print_line (s, ds) @ sp)) =
      (Some s, \<lparr>rest = print_dsts ds @ sp, eofbit = False, failbit = False\<rparr>)"
    using get_shown [of s "[]" "print_dsts ds @ sp"] hd [of ds] assms(1)
    by (simp add: stream_of_def print_line_def id_ok_def)
  ultimately show ?thesis using assms(1) by (auto simp: parse_line_def id_ok_def)
qed

lemma trailing_blank_is_indeterminate_witness:
  "parse_line True 0 (print_line (0, [1, 2]) @ '' '') ([], 0) = Inl Indeterminate"
  by (rule trailing_blank_is_indeterminate) (simp_all add: id_ok_def u64_max_def)

end
