(* ===== verification/ScriptMain.thy ===== *)
theory ScriptMain
  imports Options TextProperties
begin

text \<open>
  The \<open>main\<close> functions of scripts/divide\_into\_batches.cpp and scripts/count\_batched.cpp: from
  the parsed command line and the files to the exit code, what is printed, and the file that is
  written. \<open>failure\<close> is the message of the exception Boost throws for a command line it rejects,
  and \<open>usage\<close> its description of the options.
\<close>

record outcome =
  exit_code :: nat
  printed :: string
  complaints :: string

definition line :: "string \<Rightarrow> string" where
  "line s = s @ [newline]"

section \<open>divide\_into\_batches\<close>

text \<open>The variable of every option with a default value.\<close>

definition divide_defaults :: variables where
  "divide_defaults = [''randomize'' \<mapsto> OptFlag False, ''rseed'' \<mapsto> OptNum 0]"

text \<open>
  The outcome and the contents of the output file, if it was opened; \<open>shuffle seed\<close> is
  \<open>random_shuffle\<close> after \<open>srand\<close>.
\<close>

definition divide_program :: "(nat \<Rightarrow> edge list \<Rightarrow> edge list) \<Rightarrow> (string \<Rightarrow> string option) \<Rightarrow> (string \<Rightarrow> bool) \<Rightarrow>
    string \<Rightarrow> string option \<Rightarrow> variables \<Rightarrow> (outcome \<times> string option) res" where
  "divide_program shuffle files writable usage failure vm =
     (case failure of Some what \<Rightarrow> Inr (\<lparr>exit_code = 1, printed = line what, complaints = []\<rparr>, None)
      | None \<Rightarrow>
        if given vm ''help'' then Inr (\<lparr>exit_code = 1, printed = line usage, complaints = []\<rparr>, None)
        else res_bind (as_text vm ''input'') (\<lambda>input. case files input of
            None \<Rightarrow> Inr (\<lparr>exit_code = 1, printed = [], complaints = line ''Error opening input file''\<rparr>, None)
          | Some text \<Rightarrow> res_bind (as_text vm ''output'') (\<lambda>out_name.
              if \<not> writable out_name
              then Inr (\<lparr>exit_code = 2, printed = [], complaints = line ''Error opening output file''\<rparr>, None)
              else let edges = read_edges (skip_comments (stream_of text)) in
                res_bind (max_vertex_id edges) (\<lambda>max_id.
                res_bind (as_num vm ''rseed'') (\<lambda>seed.
                res_bind (as_flag vm ''randomize'') (\<lambda>randomize.
                res_bind (as_num vm ''num_batches'') (\<lambda>num_batches.
                res_map (\<lambda>r. (\<lparr>exit_code = fst r,
                    printed = line (''number of edges: '' @ show_u64 (length edges)) @
                      line (''maximum vertex id: '' @ show_u64 max_id),
                    complaints = if num_batches = 0 then line ''num_batches must be greater than zero'' else []\<rparr>,
                    Some (snd r)))
                  (divide_main (shuffle seed) randomize num_batches text))))))))"

section \<open>count\_batched\<close>

text \<open>A switch is only set when Boost has accepted the whole command line.\<close>

definition switch :: "string option \<Rightarrow> variables \<Rightarrow> string \<Rightarrow> bool" where
  "switch failure vm opt \<longleftrightarrow> failure = None \<and> vm opt = Some (OptFlag True)"

definition report_counts :: "bool \<Rightarrow> bool \<Rightarrow> bool \<Rightarrow> nat \<times> nat \<Rightarrow> string" where
  "report_counts quiet show_vertices show_edges r =
     (if show_vertices then line ((if \<not> quiet then ''max_vertex_id + 1: '' else []) @ show_u64 (fst r)) else []) @
     (if show_edges then line ((if \<not> quiet then ''num_edges: '' else []) @ show_u64 (snd r)) else [])"

text \<open>
  A rejected command line is only reported; the program goes on with what Boost has stored. The
  test whether an option is given more than once is never true of a map.
\<close>

definition count_program :: "(string \<Rightarrow> string option) \<Rightarrow> string \<Rightarrow> string \<Rightarrow> string option \<Rightarrow> variables \<Rightarrow>
    outcome res option" where
  "count_program files stdin usage failure vm =
     (let reported = (case failure of None \<Rightarrow> [] | Some what \<Rightarrow> line what @ line usage);
          quiet = switch failure vm ''quiet'';
          show_vertices = switch failure vm ''vertices''; show_edges = switch failure vm ''edges'';
          all = (\<not> show_vertices \<and> \<not> show_edges) in
      if given vm ''help'' then Some (Inr \<lparr>exit_code = 1, printed = reported @ line usage, complaints = []\<rparr>)
      else if \<not> given vm ''input-file''
      then Some (Inr \<lparr>exit_code = 1, printed = reported, complaints = line ''No input file specified.''\<rparr>)
      else case as_text vm ''input-file'' of Inl e \<Rightarrow> Some (Inl e)
      | Inr path \<Rightarrow>
          (case (if path \<noteq> ''-'' then files path else Some stdin) of
             None \<Rightarrow> Some (Inr \<lparr>exit_code = 1, printed = reported,
               complaints = line (''Could not open input file: '' @ path)\<rparr>)
           | Some text \<Rightarrow> map_option (res_map (\<lambda>r. \<lparr>exit_code = 0,
               printed = reported @ report_counts quiet (show_vertices \<or> all) (show_edges \<or> all) r,
               complaints = []\<rparr>)) (count_batched text)))"

section \<open>The two programs together\<close>

lemma max_of_edges: "es \<noteq> [] \<Longrightarrow> max_vertex_id es = Inr (fold max (edge_ids es) 0)"
  by (simp add: max_vertex_id_def edge_ids_def)



end
