(* ===== verification/Distance.thy ===== *)
theory Distance
  imports GraphInterface
begin

text \<open>
  Hop distances in a graph given by its adjacency lists: the specification of the breadth-first
  searches in include/scea/algo/bfs.hpp and bc.hpp, and the facts their proofs share.
\<close>

definition edge_rel :: "nat list list \<Rightarrow> (nat \<times> nat) set" where
  "edge_rel ss = {(u, v). u < length ss \<and> v \<in> set (ss ! u)}"

definition hops :: "nat list list \<Rightarrow> nat \<Rightarrow> nat \<Rightarrow> nat option" where
  "hops ss s v =
     (if \<exists>k. (s, v) \<in> edge_rel ss ^^ k then Some (LEAST k. (s, v) \<in> edge_rel ss ^^ k) else None)"

lemma hops_walk: "hops ss s v = Some k \<Longrightarrow> (s, v) \<in> edge_rel ss ^^ k"
  by (auto simp: hops_def intro: LeastI split: if_splits)

lemma hops_le: "(s, v) \<in> edge_rel ss ^^ k \<Longrightarrow> \<exists>j\<le>k. hops ss s v = Some j"
  by (auto simp: hops_def intro: Least_le)

lemma hops_SomeI:
  assumes "(s, v) \<in> edge_rel ss ^^ k" and "\<And>j. j < k \<Longrightarrow> (s, v) \<notin> edge_rel ss ^^ j"
  shows "hops ss s v = Some k"
  using hops_le [OF assms(1)] assms(2) hops_walk by (metis le_neq_implies_less)

lemma hops_source: "hops ss s s = Some 0"
  by (rule hops_SomeI) auto

lemma hops_0_iff: "hops ss s v = Some 0 \<longleftrightarrow> v = s"
  using hops_source hops_walk [of ss s v 0] by auto

text \<open>One edge adds at most one hop, and the last edge of a shortest walk starts one hop nearer.\<close>

lemma hops_step_le:
  assumes "hops ss s u = Some k" "u < length ss" "v \<in> set (ss ! u)"
  shows "\<exists>j\<le>Suc k. hops ss s v = Some j"
proof (rule hops_le)
  have "(u, v) \<in> edge_rel ss" using assms(2,3) by (simp add: edge_rel_def)
  then show "(s, v) \<in> edge_rel ss ^^ Suc k" using hops_walk [OF assms(1)] by auto
qed

lemma hops_pred:
  assumes "hops ss s v = Some (Suc k)"
  shows "\<exists>u<length ss. hops ss s u = Some k \<and> v \<in> set (ss ! u)"
proof -
  obtain u where walk: "(s, u) \<in> edge_rel ss ^^ k" and edge: "(u, v) \<in> edge_rel ss"
    using hops_walk [OF assms] by auto
  then have u: "u < length ss" "v \<in> set (ss ! u)" by (simp_all add: edge_rel_def)
  obtain j where j: "j \<le> k" "hops ss s u = Some j" using hops_le [OF walk] by auto
  with hops_step_le [of ss s u j v] u assms have "j = k" by auto
  with j u show ?thesis by auto
qed

lemma hops_bound:
  assumes "closed_graph ss" "s < length ss" "hops ss s v = Some k"
  shows "v < length ss"
proof (cases k)
  case 0
  then show ?thesis using assms hops_0_iff by simp
next
  case (Suc j)
  then show ?thesis using assms hops_pred closed_graphD by metis
qed

lemma hops_all_levels:
  assumes "hops ss s v = Some k" "j \<le> k"
  shows "\<exists>w. hops ss s w = Some j"
  using assms
proof (induction k arbitrary: v)
  case (Suc k)
  then show ?case using hops_pred [of ss s v k] by (auto simp: le_Suc_eq)
qed auto

lemma hops_less_size:
  assumes "closed_graph ss" "s < length ss" "hops ss s v = Some k"
  shows "k < length ss"
proof -
  obtain f where f: "\<And>j. j \<le> k \<Longrightarrow> hops ss s (f j) = Some j"
    using hops_all_levels [OF assms(3)] by metis
  then have "inj_on f {..k}"
    by (intro inj_onI) (metis atMost_iff option.inject)
  moreover have "f ` {..k} \<subseteq> {..<length ss}"
    using f hops_bound [OF assms(1,2)] by fastforce
  ultimately have "card {..k} \<le> card {..<length ss}"
    by (intro card_inj_on_le) auto
  then show ?thesis by simp
qed

end
