(* ===== verification/Paths.thy ===== *)
theory Paths
  imports Complex_Main Distance
begin

text \<open>
  Counting shortest walks, with parallel edges counted apart, and the dependencies of
  betweenness centrality: the specification of include/scea/algo/bc.hpp. The graph is given
  by its adjacency lists as in \<open>Distance\<close>.
\<close>

section \<open>Walks of a given length\<close>

fun walks :: "nat list list \<Rightarrow> nat \<Rightarrow> nat \<Rightarrow> nat \<Rightarrow> nat" where
  "walks ss 0 u v = (if u = v then 1 else 0)"
| "walks ss (Suc k) u v = (\<Sum>w\<leftarrow>adj_of ss u. walks ss k w v)"

lemma walks_pos_iff: "0 < walks ss k u v \<longleftrightarrow> (u, v) \<in> edge_rel ss ^^ k"
proof (induction k arbitrary: u)
  case (Suc k)
  have "0 < walks ss (Suc k) u v \<longleftrightarrow> (\<exists>w\<in>set (adj_of ss u). 0 < walks ss k w v)"
    by (auto simp: sum_list_nonneg_eq_0_iff simp flip: neq0_conv)
  also have "\<dots> \<longleftrightarrow> (\<exists>w. (u, w) \<in> edge_rel ss \<and> (w, v) \<in> edge_rel ss ^^ k)"
    by (auto simp: Suc.IH edge_rel_def adj_of_def)
  also have "\<dots> \<longleftrightarrow> (u, v) \<in> edge_rel ss ^^ Suc k"
    by (meson relpow_Suc_D2 relpow_Suc_I2)
  finally show ?case .
qed simp

lemma sum_list_over_graph:
  assumes "\<forall>w\<in>set ws. w < (n::nat)"
  shows "(\<Sum>w\<leftarrow>ws. f w) = (\<Sum>w<n. of_nat (count_list ws w) * (f w :: 'a::semiring_1))"
  using assms
proof (induction ws)
  case (Cons w ws)
  have "(\<Sum>u<n. of_nat (count_list (w # ws) u) * f u) =
      (\<Sum>u<n. (if u = w then f u else 0) + of_nat (count_list ws u) * f u)"
    by (intro sum.cong) (auto simp: distrib_right)
  also have "\<dots> = f w + (\<Sum>u<n. of_nat (count_list ws u) * f u)"
    using Cons.prems by (simp add: sum.distrib sum.delta)
  finally show ?case using Cons by simp
qed simp

lemma sum_list_sum_swap:
  "(\<Sum>w\<leftarrow>ws. \<Sum>u\<in>A. f w u) = (\<Sum>u\<in>A. \<Sum>w\<leftarrow>ws. (f w u :: 'a::comm_monoid_add))"
  by (induction ws) (simp_all add: sum.distrib)

lemma of_nat_sum_list: "of_nat (\<Sum>w\<leftarrow>ws. f w) = (\<Sum>w\<leftarrow>ws. of_nat (f w) :: 'a::semiring_1)"
  by (induction ws) simp_all

lemma closed_adj: "closed_graph ss \<Longrightarrow> \<forall>w\<in>set (adj_of ss u). w < length ss"
  using closed_graphD by (auto simp: adj_of_def)

text \<open>The same count, split at the last edge instead of the first.\<close>

lemma walks_back:
  assumes "closed_graph ss" "s < length ss"
  shows "walks ss (Suc k) s v = (\<Sum>u<length ss. walks ss k s u * count_list (adj_of ss u) v)"
  using assms(2)
proof (induction k arbitrary: s)
  case 0
  have "(\<Sum>w\<leftarrow>ws. if w = v then 1 else 0) = count_list ws v" for ws by (induction ws) auto
  moreover have "(\<Sum>u<length ss. (if s = u then 1 else 0) * count_list (adj_of ss u) v) =
      (\<Sum>u<length ss. if s = u then count_list (adj_of ss u) v else 0)"
    by (intro sum.cong) auto
  ultimately show ?case using 0 by simp
next
  case (Suc k)
  let ?n = "length ss"
  let ?ws = "adj_of ss s"
  have in_graph: "\<forall>w\<in>set ?ws. w < ?n" by (rule closed_adj [OF assms(1)])
  have "walks ss (Suc (Suc k)) s v = (\<Sum>w\<leftarrow>?ws. walks ss (Suc k) w v)" by simp
  also have "\<dots> = (\<Sum>w\<leftarrow>?ws. \<Sum>u<?n. walks ss k w u * count_list (adj_of ss u) v)"
    using in_graph Suc.IH by (intro arg_cong [where f = sum_list] map_cong) auto
  also have "\<dots> = (\<Sum>u<?n. (\<Sum>w\<leftarrow>?ws. walks ss k w u) * count_list (adj_of ss u) v)"
    by (simp add: sum_list_sum_swap sum_list_mult_const)
  finally show ?case by simp
qed

section \<open>Shortest walks\<close>

definition paths :: "nat list list \<Rightarrow> nat \<Rightarrow> nat \<Rightarrow> nat" where
  "paths ss s v = (case hops ss s v of None \<Rightarrow> 0 | Some k \<Rightarrow> walks ss k s v)"

lemma paths_pos: "hops ss s v = Some k \<Longrightarrow> 0 < paths ss s v"
  using hops_walk walks_pos_iff by (simp add: paths_def)

lemma paths_self [simp]: "paths ss s s = 1"
  by (simp add: paths_def hops_source)

lemma paths_none: "hops ss s v = None \<Longrightarrow> paths ss s v = 0"
  by (simp add: paths_def)

lemma paths_Suc:
  assumes "closed_graph ss" "s < length ss" "hops ss s v = Some (Suc k)"
  shows "paths ss s v =
    (\<Sum>u\<in>{u. u < length ss \<and> hops ss s u = Some k}. paths ss s u * count_list (adj_of ss u) v)"
proof -
  have "walks ss k s u * count_list (adj_of ss u) v = 0" if "hops ss s u \<noteq> Some k" for u
  proof (rule ccontr)
    assume "walks ss k s u * count_list (adj_of ss u) v \<noteq> 0"
    then have walk: "(s, u) \<in> edge_rel ss ^^ k" and edge: "v \<in> set (adj_of ss u)"
      by (auto simp flip: walks_pos_iff simp: count_list_0_iff)
    then obtain j where j: "j \<le> k" "hops ss s u = Some j" using hops_le by blast
    with edge obtain i where "i \<le> Suc j" "hops ss s v = Some i"
      using hops_step_le [of ss s u j v] by (auto simp: adj_of_def split: if_splits)
    with assms(3) j that show False by simp
  qed
  then have "(\<Sum>u<length ss. walks ss k s u * count_list (adj_of ss u) v) =
      (\<Sum>u\<in>{u. u < length ss \<and> hops ss s u = Some k}. walks ss k s u * count_list (adj_of ss u) v)"
    by (intro sum.mono_neutral_right) auto
  then show ?thesis
    using walks_back [OF assms(1,2), of k v] assms(3) by (simp add: paths_def)
qed

section \<open>Dependencies\<close>

text \<open>
  \<open>dependency_of ss s v\<close> sums, over the other vertices \<open>t\<close>, the share of the shortest walks
  from \<open>s\<close> to \<open>t\<close> that pass through \<open>v\<close>; the betweenness of \<open>v\<close> sums it over the sources.
\<close>

definition on_path :: "nat list list \<Rightarrow> nat \<Rightarrow> nat \<Rightarrow> nat \<Rightarrow> bool" where
  "on_path ss s v t \<longleftrightarrow> (\<exists>j k. hops ss s v = Some j \<and> hops ss v t = Some k \<and> hops ss s t = Some (j + k))"

definition pair_dep :: "nat list list \<Rightarrow> nat \<Rightarrow> nat \<Rightarrow> nat \<Rightarrow> 'd::linordered_field" where
  "pair_dep ss s t v =
     (if on_path ss s v t
      then of_nat (paths ss s v) * of_nat (paths ss v t) / of_nat (paths ss s t) else 0)"

definition dependency_of :: "nat list list \<Rightarrow> nat \<Rightarrow> nat \<Rightarrow> 'd::linordered_field" where
  "dependency_of ss s v = (\<Sum>t\<in>{..<length ss} - {v}. pair_dep ss s t v)"

definition betweenness :: "nat list list \<Rightarrow> nat list \<Rightarrow> nat \<Rightarrow> 'd::linordered_field" where
  "betweenness ss sources v = (\<Sum>s\<leftarrow>sources. if s = v then 0 else dependency_of ss s v)"

lemma hops_triangle:
  assumes "hops ss s v = Some j" "hops ss v t = Some k"
  shows "\<exists>i\<le>j + k. hops ss s t = Some i"
  using hops_walk [OF assms(1)] hops_walk [OF assms(2)]
  by (intro hops_le) (auto simp: relpow_add)

lemma hops_next:
  assumes "hops ss s v = Some j" "w \<in> set (adj_of ss v)"
  shows "\<exists>i\<le>Suc j. hops ss s w = Some i"
  using assms hops_step_le by (auto simp: adj_of_def split: if_splits)

text \<open>A first edge of a walk to \<open>t\<close> counts exactly if it starts a shortest walk.\<close>

lemma walks_first_edge:
  assumes "hops ss s v = Some j" "hops ss v t = Some (Suc k)" "hops ss s t = Some (j + Suc k)"
    and "w \<in> set (adj_of ss v)"
  shows "walks ss k w t =
    (if hops ss s w = Some (Suc j) \<and> on_path ss s w t then paths ss w t else 0)"
proof (cases "0 < walks ss k w t")
  case True
  then obtain i where i: "i \<le> k" "hops ss w t = Some i" using walks_pos_iff hops_le by metis
  have "hops ss v w = Some 1 \<or> w = v"
    using hops_next [OF hops_source assms(4)] hops_0_iff by (auto simp: le_Suc_eq)
  then have "i = k" using hops_triangle [of ss v w 1 t i] i assms(2) by (auto simp: le_Suc_eq)
  obtain d where d: "d \<le> Suc j" "hops ss s w = Some d" using hops_next [OF assms(1,4)] by blast
  then have "d = Suc j" using hops_triangle [of ss s w d t i] i \<open>i = k\<close> assms(3) by auto
  with d i \<open>i = k\<close> assms(3) show ?thesis by (auto simp: on_path_def paths_def)
next
  case False
  have "\<not> on_path ss s w t" if hyp: "hops ss s w = Some (Suc j)"
  proof
    assume "on_path ss s w t"
    then have "hops ss w t = Some k" using hyp assms(3) by (auto simp: on_path_def)
    then have "0 < walks ss k w t" unfolding walks_pos_iff by (rule hops_walk)
    with False show False by simp
  qed
  with False show ?thesis by auto
qed

lemma on_path_back:
  assumes "hops ss s v = Some j" "w \<in> set (adj_of ss v)" "hops ss s w = Some (Suc j)" "on_path ss s w t"
  shows "on_path ss s v t"
proof -
  obtain k where k: "hops ss w t = Some k" "hops ss s t = Some (Suc j + k)"
    using assms(3,4) by (auto simp: on_path_def)
  obtain d where d: "d \<le> 1" "hops ss v w = Some d" using hops_next [OF hops_source assms(2)] by auto
  then obtain i where i: "i \<le> d + k" "hops ss v t = Some i" using hops_triangle k(1) by blast
  with hops_triangle [OF assms(1) i(2)] k(2) d have "i = Suc k" by auto
  with i assms(1) k(2) show ?thesis by (auto simp: on_path_def)
qed

lemma pair_dep_step:
  assumes "hops ss s v = Some j" "t \<noteq> v"
  shows "pair_dep ss s t v = (\<Sum>w\<leftarrow>adj_of ss v. if hops ss s w = Some (Suc j)
    then of_nat (paths ss s v) / of_nat (paths ss s w) * pair_dep ss s t w else (0 :: 'd::linordered_field))"
proof (cases "on_path ss s v t")
  case True
  then obtain k where k: "hops ss v t = Some (Suc k)" "hops ss s t = Some (j + Suc k)"
    using assms hops_0_iff by (auto simp: on_path_def) (metis not0_implies_Suc)
  let ?c = "of_nat (paths ss s v) / of_nat (paths ss s t) :: 'd"
  have "pair_dep ss s t v = ?c * of_nat (\<Sum>w\<leftarrow>adj_of ss v. walks ss k w t)"
    using True k by (simp add: pair_dep_def paths_def)
  also have "\<dots> = (\<Sum>w\<leftarrow>adj_of ss v. ?c * of_nat (walks ss k w t))"
    by (simp only: of_nat_sum_list sum_list_const_mult)
  also have "\<dots> = (\<Sum>w\<leftarrow>adj_of ss v. if hops ss s w = Some (Suc j)
      then of_nat (paths ss s v) / of_nat (paths ss s w) * pair_dep ss s t w else 0)"
    using walks_first_edge [OF assms(1) k]
    by (intro arg_cong [where f = sum_list] map_cong) (auto simp: pair_dep_def dest: paths_pos)
  finally show ?thesis .
next
  case False
  then have "(\<Sum>w\<leftarrow>adj_of ss v. if hops ss s w = Some (Suc j)
      then of_nat (paths ss s v) / of_nat (paths ss s w) * pair_dep ss s t w else 0) =
      (\<Sum>w\<leftarrow>adj_of ss v. 0 :: 'd)"
    using on_path_back [OF assms(1)]
    by (intro arg_cong [where f = sum_list] map_cong) (auto simp: pair_dep_def)
  with False show ?thesis by (simp add: pair_dep_def)
qed

lemma pair_dep_other:
  assumes "w < length ss" "v < length ss" "hops ss s v = Some j" "hops ss s w = Some (Suc j)"
  shows "(\<Sum>t\<in>{..<length ss} - {v}. pair_dep ss s t w) = 1 + (dependency_of ss s w :: 'd::linordered_field)"
proof -
  have "w \<noteq> v" using assms by auto
  have "\<not> on_path ss s w v" using assms by (auto simp: on_path_def)
  then have "pair_dep ss s v w = (0 :: 'd)" by (simp add: pair_dep_def)
  moreover have "pair_dep ss s w w = (1 :: 'd)"
    using assms paths_pos [of ss s w] hops_source by (auto simp: pair_dep_def on_path_def)
  ultimately show ?thesis
    using assms \<open>w \<noteq> v\<close> unfolding dependency_of_def by (simp add: sum_diff1)
qed

text \<open>Brandes' recursion.\<close>

theorem dependency_recursion:
  assumes "closed_graph ss" "v < length ss" "hops ss s v = Some j"
  shows "dependency_of ss s v = of_nat (paths ss s v) *
    (\<Sum>w\<leftarrow>adj_of ss v. if hops ss s w = Some (Suc j)
      then (1 + dependency_of ss s w) / of_nat (paths ss s w) else (0 :: 'd::linordered_field))"
proof -
  let ?A = "{..<length ss} - {v}"
  let ?c = "of_nat (paths ss s v) :: 'd"
  have "dependency_of ss s v = (\<Sum>t\<in>?A. \<Sum>w\<leftarrow>adj_of ss v. if hops ss s w = Some (Suc j)
      then ?c / of_nat (paths ss s w) * pair_dep ss s t w else 0)"
    unfolding dependency_of_def by (intro sum.cong refl pair_dep_step assms(3)) auto
  also have "\<dots> = (\<Sum>w\<leftarrow>adj_of ss v. \<Sum>t\<in>?A. if hops ss s w = Some (Suc j)
      then ?c / of_nat (paths ss s w) * pair_dep ss s t w else 0)"
    by (rule sum_list_sum_swap [symmetric])
  also have "\<dots> = (\<Sum>w\<leftarrow>adj_of ss v. ?c * (if hops ss s w = Some (Suc j)
      then (1 + dependency_of ss s w) / of_nat (paths ss s w) else 0))"
    using closed_adj [OF assms(1), of v] pair_dep_other [OF _ assms(2,3), where 'd = 'd]
    by (intro arg_cong [where f = sum_list] map_cong)
      (auto simp: sum_distrib_left [symmetric] sum_divide_distrib [symmetric])
  finally show ?thesis by (simp add: sum_list_const_mult)
qed

lemma dependency_unreachable:
  "hops ss s v = None \<Longrightarrow> dependency_of ss s v = (0 :: 'd::linordered_field)"
  by (simp add: dependency_of_def pair_dep_def on_path_def)

text \<open>A vertex of the last level has no dependency.\<close>

lemma dependency_last:
  assumes "closed_graph ss" "v < length ss" "hops ss s v = Some j" "\<forall>w. hops ss s w \<noteq> Some (Suc j)"
  shows "dependency_of ss s v = (0 :: 'd::linordered_field)"
  using dependency_recursion [OF assms(1-3), where 'd = 'd] assms(4)
  by (simp add: sum_list_nonneg_eq_0_iff)

end
