(* ===== verification/Bc.thy ===== *)
theory Bc
  imports Paths CsrGraph
begin

text \<open>
  \<open>BetweennessCentrality\<close> (include/scea/algo/bc.hpp): for every source a level-synchronous
  search that counts shortest paths (\<open>levelSSSP\<close>) and Brandes' accumulation from the last
  level back. Each level's work list is a bag, here a list whose order the runtime chooses;
  doubles are exact (an ordered field), path counts are 64-bit.
\<close>

section \<open>levelSSSP\<close>

definition infinity :: nat where
  "infinity = u64_max div 4"

text \<open>Distances, path counts, and the stack of work lists.\<close>

type_synonym sssp_state = "nat list \<times> nat list \<times> nat list list"

definition compare_and_swap :: "nat list \<Rightarrow> nat \<Rightarrow> nat \<Rightarrow> nat \<Rightarrow> (nat \<times> nat list) res" where
  "compare_and_swap xs i expected new =
     res_map (\<lambda>oldVal. (oldVal, if oldVal = expected then xs[i := new] else xs)) (vec_get xs i)"

definition add_paths :: "nat list \<Rightarrow> nat \<Rightarrow> nat \<Rightarrow> nat list res" where
  "add_paths spc dest n = res_bind (vec_get spc n) (\<lambda>c. vec_update spc dest (\<lambda>d. u64_add d c))"

definition sssp_edge :: "nat \<Rightarrow> nat \<Rightarrow> nat \<Rightarrow> sssp_state \<Rightarrow> sssp_state res" where
  "sssp_edge nextLevel n dest st = (case st of (distance, spc, stack) \<Rightarrow>
     res_bind (vec_get distance dest) (\<lambda>d.
       if d = infinity then
         res_bind (compare_and_swap distance dest infinity nextLevel) (\<lambda>(oldVal, distance').
         res_bind (if oldVal = infinity then vec_update stack nextLevel (\<lambda>bag. bag @ [dest])
                   else Inr stack) (\<lambda>stack'.
         res_map (\<lambda>spc'. (distance', spc', stack')) (add_paths spc dest n)))
       else if d = nextLevel then res_map (\<lambda>spc'. (distance, spc', stack)) (add_paths spc dest n)
       else Inr st))"

definition sssp_vertex :: "'g graph_ops \<Rightarrow> 'g \<Rightarrow> nat \<Rightarrow> nat \<Rightarrow> sssp_state \<Rightarrow> sssp_state res" where
  "sssp_vertex ops g currentLevel n st =
     res_bind (vec_get (fst st) n) (\<lambda>d.
       if d \<noteq> currentLevel then Inl AssertFailed
       else res_bind (g_for_each_edge ops g n) (\<lambda>dests.
         fold_res (sssp_edge (u64_add currentLevel 1) n) dests st))"

partial_function (option) sssp_loop ::
  "'g graph_ops \<Rightarrow> galois_rt \<Rightarrow> 'g \<Rightarrow> nat \<Rightarrow> sssp_state \<Rightarrow> sssp_state res option" where
  "sssp_loop ops rt g currentLevel st =
     (case st of (distance, spc, stack) \<Rightarrow>
        case vec_get stack currentLevel of
          Inl e \<Rightarrow> Some (Inl e)
        | Inr bag \<Rightarrow>
            if bag = [] then Some (Inr st)
            else case do_all rt currentLevel (sssp_vertex ops g currentLevel) bag
                   (distance, spc, stack @ [[]]) of
                Inl e \<Rightarrow> Some (Inl e)
              | Inr st' \<Rightarrow> sssp_loop ops rt g (u64_add currentLevel 1) st')"

declare sssp_loop.simps [code]

definition level_sssp :: "'g graph_ops \<Rightarrow> galois_rt \<Rightarrow> 'g \<Rightarrow> nat \<Rightarrow> nat list \<Rightarrow> nat list \<Rightarrow>
    sssp_state res" where
  "level_sssp ops rt g s distance spc =
     res_bind (vec_set distance s 0) (\<lambda>distance'.
     res_bind (vec_set spc s 1) (\<lambda>spc'.
     res_bind (returns (sssp_loop ops rt g 0 (distance', spc', [[s]]))) id))"

section \<open>Brandes' accumulation\<close>

definition brandes_edge :: "nat \<Rightarrow> nat list \<Rightarrow> nat list \<Rightarrow> nat \<Rightarrow> nat \<Rightarrow> 'd::linordered_field list \<Rightarrow>
    'd list res" where
  "brandes_edge succLevel distance spc n dest dependency =
     res_bind (vec_get distance dest) (\<lambda>d.
       if d = succLevel
       then res_bind (vec_get dependency dest) (\<lambda>dep. res_bind (vec_get spc dest) (\<lambda>c.
              vec_update dependency n (\<lambda>x. x + (1 + dep) / of_nat c)))
       else Inr dependency)"

definition brandes_vertex :: "'g graph_ops \<Rightarrow> 'g \<Rightarrow> nat list \<Rightarrow> nat list \<Rightarrow> nat \<Rightarrow> nat \<Rightarrow>
    'd::linordered_field list \<times> 'd list \<Rightarrow> ('d list \<times> 'd list) res" where
  "brandes_vertex ops g distance spc currentLevel n st = (case st of (dependency, scores) \<Rightarrow>
     res_bind (vec_get distance n) (\<lambda>d.
       if d \<noteq> currentLevel then Inl AssertFailed
       else res_bind (g_for_each_edge ops g n) (\<lambda>dests.
         res_bind (fold_res (brandes_edge (u64_add currentLevel 1) distance spc n) dests dependency) (\<lambda>dep1.
         res_bind (vec_get spc n) (\<lambda>c.
         res_bind (vec_update dep1 n (\<lambda>x. x * of_nat c)) (\<lambda>dep2.
         res_bind (vec_get dep2 n) (\<lambda>y.
         res_map (Pair dep2) (vec_update scores n (\<lambda>x. x + y)))))))))"

text \<open>The loop from level \<open>currentLevel\<close> down to level 1.\<close>

fun brandes_loop :: "'g graph_ops \<Rightarrow> galois_rt \<Rightarrow> 'g \<Rightarrow> sssp_state \<Rightarrow> nat \<Rightarrow>
    'd::linordered_field list \<times> 'd list \<Rightarrow> ('d list \<times> 'd list) res" where
  "brandes_loop ops rt g found 0 st = Inr st"
| "brandes_loop ops rt g found (Suc l) st = (case found of (distance, spc, stack) \<Rightarrow>
     res_bind (vec_get stack (Suc l)) (\<lambda>currentWorklist.
     res_bind (do_all rt l (brandes_vertex ops g distance spc (Suc l)) currentWorklist st)
       (brandes_loop ops rt g found l)))"

section \<open>compute\<close>

type_synonym 'd bc_state = "nat list \<times> nat list \<times> 'd list \<times> 'd list"

definition reset_vertex :: "nat \<Rightarrow> nat list \<times> nat list \<times> 'd::linordered_field list \<Rightarrow>
    (nat list \<times> nat list \<times> 'd list) res" where
  "reset_vertex n st = (case st of (distance, spc, dependency) \<Rightarrow>
     res_bind (vec_set distance n infinity) (\<lambda>d. res_bind (vec_set spc n 0) (\<lambda>c.
     res_map (\<lambda>dep. (d, c, dep)) (vec_set dependency n 0))))"

definition accumulate :: "'g graph_ops \<Rightarrow> galois_rt \<Rightarrow> 'g \<Rightarrow> sssp_state \<Rightarrow>
    'd::linordered_field list \<times> 'd list \<Rightarrow> 'd bc_state res" where
  "accumulate ops rt g found st = (case found of (d, c, stack) \<Rightarrow>
     res_map (\<lambda>(dependency, scores). (d, c, dependency, scores))
       (if length stack \<ge> 3 then brandes_loop ops rt g found (length stack - 3) st else Inr st))"

definition bc_source :: "'g graph_ops \<Rightarrow> galois_rt \<Rightarrow> 'g \<Rightarrow> nat \<Rightarrow> 'd::linordered_field bc_state \<Rightarrow>
    'd bc_state res" where
  "bc_source ops rt g s st = (case st of (distance, spc, dependency, scores) \<Rightarrow>
     res_bind (do_all rt s reset_vertex [0..<g_size ops g] (distance, spc, dependency)) (\<lambda>(d, c, dep).
     res_bind (level_sssp ops rt g s d c) (\<lambda>found. accumulate ops rt g found (dep, scores))))"

definition select_sources :: "galois_rt \<Rightarrow> (nat \<Rightarrow> nat list \<Rightarrow> nat list) \<Rightarrow> nat \<Rightarrow> nat \<Rightarrow> nat \<Rightarrow>
    nat list res" where
  "select_sources rt shuffle n rseed num_src =
     res_map (\<lambda>sources. if num_src > 0 then vec_resize (min n num_src) 0 (shuffle rseed sources)
                        else sources)
       (do_all rt 0 (\<lambda>i v. vec_set v i i) [0..<n] (vec_resize n 0 []))"

text \<open>The path counts are created without a value; every source resets them before use.\<close>

definition bc_compute :: "'g graph_ops \<Rightarrow> galois_rt \<Rightarrow> (nat \<Rightarrow> nat list \<Rightarrow> nat list) \<Rightarrow> 'g \<Rightarrow> nat \<Rightarrow>
    nat \<Rightarrow> 'd::linordered_field list res" where
  "bc_compute ops rt shuffle g rseed num_src =
     res_bind (select_sources rt shuffle (g_size ops g) rseed num_src) (\<lambda>sources.
     res_map (\<lambda>(distance, spc, dependency, scores). scores)
       (fold_res (bc_source ops rt g) sources
          (replicate (g_size ops g) infinity, replicate (g_size ops g) 0,
           replicate (g_size ops g) 0, replicate (g_size ops g) 0)))"

end
