(* ===== verification/BcSearch.thy ===== *)
theory BcSearch
  imports Bc
begin

text \<open>
  The search of betweenness centrality (\<open>level_sssp\<close> in \<open>Bc\<close>) finds every hop distance and
  counts every shortest path. The proof follows the edges of a level one by one: what a level
  has done depends only on which edges were handled, so their order does not matter.
\<close>

section \<open>The edges of a level\<close>

definition level_events :: "nat list list \<Rightarrow> nat list \<Rightarrow> (nat \<times> nat) list" where
  "level_events ss us = concat (map (\<lambda>u. map (Pair u) (ss ! u)) us)"

definition paths_in :: "nat list list \<Rightarrow> nat \<Rightarrow> (nat \<times> nat) list \<Rightarrow> nat \<Rightarrow> nat" where
  "paths_in ss s es v = (\<Sum>e\<leftarrow>es. if snd e = v then paths ss s (fst e) else 0)"

definition near :: "nat list list \<Rightarrow> nat \<Rightarrow> nat \<Rightarrow> nat \<Rightarrow> bool" where
  "near ss s l v \<longleftrightarrow> (\<exists>k\<le>l. hops ss s v = Some k)"

lemma paths_in_append [simp]:
  "paths_in ss s (es @ fs) v = paths_in ss s es v + paths_in ss s fs v"
  "paths_in ss s (e # es) v = (if snd e = v then paths ss s (fst e) else 0) + paths_in ss s es v"
  "paths_in ss s [] v = 0"
  by (simp_all add: paths_in_def)

lemma paths_in_row:
  "paths_in ss s (map (Pair u) ds) v = paths ss s u * count_list ds v"
  by (induction ds) auto

lemma paths_in_events:
  "paths_in ss s (level_events ss us) v = (\<Sum>u\<leftarrow>us. paths ss s u * count_list (ss ! u) v)"
  by (induction us) (simp_all add: level_events_def paths_in_row)

lemma level_events_append:
  "level_events ss (us @ [u]) = level_events ss us @ map (Pair u) (ss ! u)"
  by (simp add: level_events_def)

lemma sum_list_sub_mset:
  "mset xs \<subseteq># mset ys \<Longrightarrow> (\<Sum>x\<leftarrow>xs. f x) \<le> (\<Sum>y\<leftarrow>ys. f y :: nat)"
proof -
  assume "mset xs \<subseteq># mset ys"
  then obtain zs where "mset ys = mset (xs @ zs)" by (metis ex_mset mset_append mset_subset_eq_exists_conv)
  then have "(\<Sum>y\<leftarrow>ys. f y) = (\<Sum>y\<leftarrow>xs @ zs. f y)" by (metis mset_map sum_mset_sum_list)
  then show ?thesis by simp
qed

lemma near_Suc: "near ss s (Suc l) v \<longleftrightarrow> near ss s l v \<or> hops ss s v = Some (Suc l)"
  by (auto simp: near_def le_Suc_eq)

text \<open>All edges of a level count the shortest paths to the next one.\<close>

lemma paths_in_level:
  assumes "closed_graph ss" "s < length ss" "distinct us" "set us = {u. hops ss s u = Some l}"
    and "hops ss s v = Some (Suc l)"
  shows "paths_in ss s (level_events ss us) v = paths ss s v"
proof -
  have "(\<Sum>u\<leftarrow>us. paths ss s u * count_list (ss ! u) v) =
      (\<Sum>u\<in>{u. u < length ss \<and> hops ss s u = Some l}. paths ss s u * count_list (adj_of ss u) v)"
    using assms(3,4) hops_bound [OF assms(1,2)]
    by (simp add: sum_list_distinct_conv_sum_set) (intro sum.cong; auto simp: adj_of_def)
  then show ?thesis
    using paths_Suc [OF assms(1,2,5)] by (simp add: paths_in_events)
qed

section \<open>Invariants\<close>

text \<open>Levels \<open>0\<close> to \<open>l\<close> are known; of the edges of level \<open>l\<close>, \<open>es\<close> have been handled.\<close>

definition levels_known :: "nat list list \<Rightarrow> nat \<Rightarrow> nat \<Rightarrow> nat list list \<Rightarrow> bool" where
  "levels_known ss s l stack \<longleftrightarrow>
     (\<forall>k\<le>l. distinct (stack ! k) \<and> set (stack ! k) = {v. hops ss s v = Some k})"

definition sssp_mid :: "nat list list \<Rightarrow> nat \<Rightarrow> nat \<Rightarrow> (nat \<times> nat) list \<Rightarrow> sssp_state \<Rightarrow> bool" where
  "sssp_mid ss s l es st \<longleftrightarrow> (case st of (distance, spc, stack) \<Rightarrow>
     length distance = length ss \<and> length spc = length ss \<and> length stack = Suc (Suc l) \<and>
     levels_known ss s l stack \<and> distinct (stack ! Suc l) \<and>
     set (stack ! Suc l) = {v \<in> snd ` set es. \<not> near ss s l v} \<and>
     (\<forall>v<length ss. distance ! v =
        (if near ss s l v then the (hops ss s v) else if v \<in> snd ` set es then Suc l else infinity)) \<and>
     (\<forall>v<length ss. spc ! v = (if near ss s l v then paths ss s v else paths_in ss s es v)))"

definition sssp_inv :: "nat list list \<Rightarrow> nat \<Rightarrow> nat \<Rightarrow> sssp_state \<Rightarrow> bool" where
  "sssp_inv ss s l st \<longleftrightarrow> (case st of (distance, spc, stack) \<Rightarrow>
     length distance = length ss \<and> length spc = length ss \<and> length stack = Suc l \<and>
     levels_known ss s l stack \<and> (\<forall>k<l. \<exists>v. hops ss s v = Some k) \<and>
     (\<forall>v<length ss. distance ! v = (if near ss s l v then the (hops ss s v) else infinity)) \<and>
     (\<forall>v<length ss. spc ! v = (if near ss s l v then paths ss s v else 0)))"

text \<open>What the search relies on: a closed graph, a source inside, room for distances and counts.\<close>

definition bc_setting :: "nat list list \<Rightarrow> nat \<Rightarrow> bool" where
  "bc_setting ss s \<longleftrightarrow> closed_graph ss \<and> s < length ss \<and> length ss < infinity \<and>
     (\<forall>v. paths ss s v \<le> u64_max)"

lemma levels_known_snoc:
  "length stack = Suc l \<Longrightarrow> levels_known ss s l (stack @ [b]) \<longleftrightarrow> levels_known ss s l stack"
  by (auto simp: levels_known_def nth_append)

lemma sssp_mid_start:
  "sssp_inv ss s l (distance, spc, stack) \<Longrightarrow> sssp_mid ss s l [] (distance, spc, stack @ [[]])"
  by (auto simp: sssp_inv_def sssp_mid_def levels_known_snoc nth_append)

lemma near_level: "hops ss s u = Some l \<Longrightarrow> near ss s l u"
  by (auto simp: near_def)

lemma far_succ:
  assumes "hops ss s u = Some l" "d \<in> set (ss ! u)" "u < length ss" "\<not> near ss s l d"
  shows "hops ss s d = Some (Suc l)"
  using hops_step_le [OF assms(1,3,2)] assms(4) by (auto simp: near_def le_Suc_eq)

text \<open>The edges of a whole level reach exactly the next one.\<close>

lemma level_reached:
  assumes closed: "closed_graph ss" "s < length ss" and us: "set us = {u. hops ss s u = Some l}"
  shows "v \<in> snd ` set (level_events ss us) \<and> \<not> near ss s l v \<longleftrightarrow> hops ss s v = Some (Suc l)"
proof
  assume "v \<in> snd ` set (level_events ss us) \<and> \<not> near ss s l v"
  then obtain u where "hops ss s u = Some l" "v \<in> set (ss ! u)" "\<not> near ss s l v"
    by (auto simp: level_events_def us)
  then show "hops ss s v = Some (Suc l)" using far_succ hops_bound [OF closed] by blast
next
  assume v: "hops ss s v = Some (Suc l)"
  obtain u where "u < length ss" "hops ss s u = Some l" "v \<in> set (ss ! u)"
    using hops_pred [OF v] by blast
  then have "v \<in> snd ` set (level_events ss us)"
    by (auto simp: level_events_def us image_iff)
  with v show "v \<in> snd ` set (level_events ss us) \<and> \<not> near ss s l v" by (auto simp: near_def)
qed

lemma paths_in_none: "v \<notin> snd ` set es \<Longrightarrow> paths_in ss s es v = 0"
  by (auto simp: paths_in_def intro!: sum_list_0)

lemma sssp_mid_end:
  assumes set: "bc_setting ss s" and ys: "mset ys = mset us" and us: "distinct us"
    "set us = {u. hops ss s u = Some l}" "us \<noteq> []"
    and mid: "sssp_mid ss s l (level_events ss ys) st" and prev: "\<forall>k<l. \<exists>v. hops ss s v = Some k"
  shows "sssp_inv ss s (Suc l) st"
proof -
  have closed: "closed_graph ss" "s < length ss" using set by (simp_all add: bc_setting_def)
  have ys': "distinct ys" "set ys = {u. hops ss s u = Some l}"
    using ys us mset_eq_setD mset_eq_imp_distinct_iff by metis+
  obtain distance spc stack where st: "st = (distance, spc, stack)" by (cases st)
  note reached = level_reached [OF closed ys'(2)] and none = paths_in_none [of _ "level_events ss ys"]
  have "levels_known ss s (Suc l) stack"
    using mid reached by (auto simp: st sssp_mid_def levels_known_def le_Suc_eq)
  moreover have "\<exists>v. hops ss s v = Some l" using us by (auto simp: neq_Nil_conv)
  moreover have "distance ! v = (if near ss s (Suc l) v then the (hops ss s v) else infinity)"
    if "v < length ss" for v
    using mid reached [of v] that by (auto simp: st sssp_mid_def near_Suc)
  moreover have "spc ! v = (if near ss s (Suc l) v then paths ss s v else 0)" if "v < length ss" for v
    using mid reached [of v] none [of v] paths_in_level [OF closed ys', of v] that
    by (auto simp: st sssp_mid_def near_Suc)
  ultimately show ?thesis
    using mid prev by (auto simp: st sssp_mid_def sssp_inv_def less_Suc_eq)
qed

section \<open>One edge\<close>

lemma add_paths_ok:
  assumes "n < length spc" "dest < length spc" "spc ! dest + spc ! n \<le> u64_max"
  shows "add_paths spc dest n = Inr (spc[dest := spc ! dest + spc ! n])"
  using assms by (simp add: add_paths_def u64_add_small)

lemma sssp_edge_ok:
  assumes set: "bc_setting ss s" and mid: "sssp_mid ss s l es st"
    and n: "hops ss s n = Some l" and dest: "dest \<in> set (ss ! n)"
    and fit: "\<not> near ss s l dest \<Longrightarrow> paths_in ss s (es @ [(n, dest)]) dest \<le> u64_max"
  shows "\<exists>st'. sssp_edge (Suc l) n dest st = Inr st' \<and> sssp_mid ss s l (es @ [(n, dest)]) st'"
proof -
  have closed: "closed_graph ss" "s < length ss" and small: "length ss < infinity"
    using set by (simp_all add: bc_setting_def)
  have nn: "n < length ss" using hops_bound [OF closed n] .
  have dd: "dest < length ss" using closed_graphD [OF closed(1) nn dest] .
  have l: "Suc l < infinity" using hops_less_size [OF closed n] small by simp
  obtain distance spc stack where st: "st = (distance, spc, stack)" by (cases st)
  note mid = mid [unfolded st sssp_mid_def prod.case]
  have spc: "n < length spc" "dest < length spc" "dest < length distance" "spc ! n = paths ss s n"
    using mid nn dd near_level [OF n] by auto
  show ?thesis
  proof (cases "near ss s l dest")
    case True
    then obtain k where k: "k \<le> l" "hops ss s dest = Some k" by (auto simp: near_def)
    then have "distance ! dest = k" using mid dd True by simp
    then have "sssp_edge (Suc l) n dest st = Inr st"
      using k(1) l spc by (simp add: sssp_edge_def st)
    moreover have "sssp_mid ss s l (es @ [(n, dest)]) st"
      unfolding st sssp_mid_def prod.case using mid True by auto
    ultimately show ?thesis by blast
  next
    case far: False
    have count: "spc ! dest = paths_in ss s es dest" using mid dd far by simp
    have "spc ! dest + spc ! n \<le> u64_max" using fit [OF far] count spc(4) by simp
    note add = add_paths_ok [OF spc(1,2) this]
    show ?thesis
    proof (cases "dest \<in> snd ` set es")
      case True
      then have "distance ! dest = Suc l" using mid dd far by simp
      then have "sssp_edge (Suc l) n dest st = Inr (distance, spc[dest := spc ! dest + spc ! n], stack)"
        using l spc add by (simp add: sssp_edge_def st)
      moreover have "sssp_mid ss s l (es @ [(n, dest)]) (distance, spc[dest := spc ! dest + spc ! n], stack)"
        unfolding sssp_mid_def prod.case using mid True far count spc by (auto simp: nth_list_update)
      ultimately show ?thesis by blast
    next
      case False
      let ?stack = "stack[Suc l := stack ! Suc l @ [dest]]"
      have "distance ! dest = infinity" using mid dd far False by simp
      then have "sssp_edge (Suc l) n dest st =
          Inr (distance[dest := Suc l], spc[dest := spc ! dest + spc ! n], ?stack)"
        using spc add mid by (simp add: sssp_edge_def st compare_and_swap_def)
      moreover have "sssp_mid ss s l (es @ [(n, dest)])
          (distance[dest := Suc l], spc[dest := spc ! dest + spc ! n], ?stack)"
        unfolding sssp_mid_def prod.case
        using mid False far count spc by (auto simp: nth_list_update levels_known_def)
      ultimately show ?thesis by blast
    qed
  qed
qed

section \<open>The search over any graph\<close>

text \<open>What a finished search has found; \<open>l\<close> is the index of the empty work list on top.\<close>

definition sssp_found :: "nat list list \<Rightarrow> nat \<Rightarrow> nat \<Rightarrow> sssp_state \<Rightarrow> bool" where
  "sssp_found ss s l st \<longleftrightarrow> (case st of (distance, spc, stack) \<Rightarrow>
     length stack = Suc l \<and> levels_known ss s l stack \<and> 0 < l \<and>
     (\<forall>v k. hops ss s v = Some k \<longrightarrow> k < l) \<and>
     distance = map (\<lambda>v. case hops ss s v of None \<Rightarrow> infinity | Some k \<Rightarrow> k) [0..<length ss] \<and>
     spc = map (paths ss s) [0..<length ss])"

lemma sssp_inv_end:
  assumes "sssp_inv ss s l (distance, spc, stack)" "stack ! l = []"
  shows "sssp_found ss s l (distance, spc, stack)"
proof -
  note inv = assms(1) [unfolded sssp_inv_def prod.case]
  have none: "hops ss s v \<noteq> Some l" for v using inv assms(2) by (auto simp: levels_known_def)
  have below: "k < l" if "hops ss s v = Some k" for v k
    using hops_all_levels [OF that, of l] none by (meson not_less)
  then have near: "near ss s l v \<longleftrightarrow> hops ss s v \<noteq> None" for v
    by (auto simp: near_def) (meson less_imp_le_nat)
  have "distance = map (\<lambda>v. case hops ss s v of None \<Rightarrow> infinity | Some k \<Rightarrow> k) [0..<length ss]"
    using inv near by (intro nth_equalityI) (auto split: option.splits)
  moreover have "spc = map (paths ss s) [0..<length ss]"
    using inv near paths_none by (intro nth_equalityI) auto
  moreover have "0 < l" using none [of s] hops_source by (cases l) auto
  ultimately show ?thesis using inv below by (auto simp: sssp_found_def)
qed

context graph_reading
begin

lemma sssp_vertex_ok:
  assumes g: "ginv g" and set: "bc_setting (succs g) s" and mid: "sssp_mid (succs g) s l es st"
    and n: "hops (succs g) s n = Some l"
    and fit: "\<And>v. \<not> near (succs g) s l v \<Longrightarrow> v \<in> set (succs g ! n) \<Longrightarrow>
      paths_in (succs g) s (es @ map (Pair n) (succs g ! n)) v \<le> u64_max"
  shows "\<exists>st'. sssp_vertex ops g l n st = Inr st' \<and>
    sssp_mid (succs g) s l (es @ map (Pair n) (succs g ! n)) st'"
proof -
  let ?ss = "succs g"
  have closed: "closed_graph ?ss" "s < length ?ss" and small: "length ?ss < infinity"
    using set by (simp_all add: bc_setting_def)
  have nn: "n < length ?ss" using hops_bound [OF closed n] .
  have "u64_add l 1 = Suc l"
    using hops_less_size [OF closed n] small by (simp add: u64_add_small infinity_def)
  moreover have "vec_get (fst st) n = Inr l"
    using mid nn near_level [OF n] n by (auto simp: sssp_mid_def)
  ultimately have "sssp_vertex ops g l n st = fold_res (sssp_edge (Suc l) n) (?ss ! n) st"
    by (simp add: sssp_vertex_def edges_law [OF g nn])
  moreover have "\<exists>st'. fold_res (sssp_edge (Suc l) n) (?ss ! n) st = Inr st' \<and>
      sssp_mid ?ss s l (es @ map (Pair n) (?ss ! n)) st'"
  proof (rule fold_res_rule)
    fix ys x zs st1
    assume split: "?ss ! n = ys @ x # zs" and mid1: "sssp_mid ?ss s l (es @ map (Pair n) ys) st1"
    have x: "x \<in> set (?ss ! n)" by (simp add: split)
    have "paths_in ?ss s ((es @ map (Pair n) ys) @ [(n, x)]) x \<le> u64_max" if "\<not> near ?ss s l x"
      using fit [OF that x] by (simp add: split)
    from sssp_edge_ok [OF set mid1 n x this]
    show "\<exists>st'. sssp_edge (Suc l) n x st1 = Inr st' \<and> sssp_mid ?ss s l (es @ map (Pair n) (ys @ [x])) st'"
      by simp
  qed (simp add: mid)
  ultimately show ?thesis by simp
qed

lemma sssp_level_ok:
  assumes rt: "galois_ok rt" and g: "ginv g" and set: "bc_setting (succs g) s"
    and inv: "sssp_inv (succs g) s l (distance, spc, stack)" and "stack ! l \<noteq> []"
  shows "\<exists>st'. do_all rt l (sssp_vertex ops g l) (stack ! l) (distance, spc, stack @ [[]]) = Inr st' \<and>
    sssp_inv (succs g) s (Suc l) st'"
proof -
  let ?ss = "succs g"
  let ?bag = "stack ! l"
  have closed: "closed_graph ?ss" "s < length ?ss" and fit: "\<And>v. paths ?ss s v \<le> u64_max"
    using set by (simp_all add: bc_setting_def)
  have bag: "distinct ?bag" "set ?bag = {u. hops ?ss s u = Some l}"
    using inv by (simp_all add: sssp_inv_def levels_known_def)
  have "\<exists>ys st. mset ys = mset ?bag \<and>
      do_all rt l (sssp_vertex ops g l) ?bag (distance, spc, stack @ [[]]) = Inr st \<and>
      sssp_mid ?ss s l (level_events ?ss ys) st"
  proof (rule do_all_rule [OF rt])
    fix ys x st
    assume sub: "mset (ys @ [x]) \<subseteq># mset ?bag" and "x \<in> set ?bag"
      and mid: "sssp_mid ?ss s l (level_events ?ss ys) st"
    then have x: "hops ?ss s x = Some l" using bag by simp
    have "paths_in ?ss s (level_events ?ss (ys @ [x])) v \<le> u64_max"
      if "\<not> near ?ss s l v" "v \<in> set (?ss ! x)" for v
    proof -
      have "paths_in ?ss s (level_events ?ss (ys @ [x])) v \<le> paths_in ?ss s (level_events ?ss ?bag) v"
        unfolding paths_in_events by (rule sum_list_sub_mset [OF sub])
      also have "\<dots> = paths ?ss s v"
        using far_succ [OF x that(2) hops_bound [OF closed x] that(1)]
        by (rule paths_in_level [OF closed bag])
      finally show ?thesis using fit [of v] by simp
    qed
    then show "\<exists>st'. sssp_vertex ops g l x st = Inr st' \<and>
        sssp_mid ?ss s l (level_events ?ss (ys @ [x])) st'"
      unfolding level_events_append by (intro sssp_vertex_ok [OF g set mid x])
  qed (use sssp_mid_start [OF inv] in \<open>simp add: level_events_def\<close>)
  then obtain ys st where "mset ys = mset ?bag"
    "do_all rt l (sssp_vertex ops g l) ?bag (distance, spc, stack @ [[]]) = Inr st"
    "sssp_mid ?ss s l (level_events ?ss ys) st" by blast
  moreover have "\<forall>k<l. \<exists>v. hops ?ss s v = Some k" using inv by (simp add: sssp_inv_def)
  ultimately show ?thesis using sssp_mid_end [OF set _ bag assms(5)] by blast
qed

lemma sssp_loop_ok:
  assumes rt: "galois_ok rt" and g: "ginv g" and set: "bc_setting (succs g) s"
    and inv: "sssp_inv (succs g) s l st"
  shows "\<exists>k st'. sssp_loop ops rt g l st = Some (Inr st') \<and> sssp_found (succs g) s k st'"
  using inv
proof (induction "Suc (length (succs g)) - l" arbitrary: l st rule: less_induct)
  case less
  obtain distance spc stack where st: "st = (distance, spc, stack)" by (cases st)
  note inv = less.prems [unfolded st]
  have top: "vec_get stack l = Inr (stack ! l)" using inv by (simp add: sssp_inv_def)
  show ?case
  proof (cases "stack ! l = []")
    case True
    then have "sssp_loop ops rt g l st = Some (Inr st)" using top by (simp add: st sssp_loop.simps)
    with sssp_inv_end [OF inv True] show ?thesis by (auto simp: st)
  next
    case False
    have "set (stack ! l) = {v. hops (succs g) s v = Some l}"
      using inv by (simp add: sssp_inv_def levels_known_def)
    then have "hops (succs g) s (hd (stack ! l)) = Some l" using hd_in_set [OF False] by blast
    then have l: "l < length (succs g)" "length (succs g) < infinity"
      using hops_less_size set by (auto simp: bc_setting_def)
    obtain st1 where run: "do_all rt l (sssp_vertex ops g l) (stack ! l) (distance, spc, stack @ [[]]) = Inr st1"
      and inv1: "sssp_inv (succs g) s (Suc l) st1"
      using sssp_level_ok [OF rt g set inv False] by blast
    have "u64_add l 1 = Suc l" using l by (simp add: u64_add_small infinity_def)
    then have "sssp_loop ops rt g l st = sssp_loop ops rt g (Suc l) st1"
      using top False run by (subst sssp_loop.simps) (simp add: st)
    then show ?thesis using less.hyps [OF _ inv1] l by simp
  qed
qed

lemma level_sssp_ok:
  assumes "galois_ok rt" "ginv g" "bc_setting (succs g) s"
  shows "\<exists>l st. level_sssp ops rt g s (replicate (length (succs g)) infinity)
      (replicate (length (succs g)) 0) = Inr st \<and> sssp_found (succs g) s l st"
proof -
  let ?n = "length (succs g)"
  have "sssp_inv (succs g) s 0 ((replicate ?n infinity)[s := 0], (replicate ?n 0)[s := 1], [[s]])"
    using assms(3) hops_0_iff
    by (auto simp: sssp_inv_def levels_known_def near_def nth_list_update bc_setting_def hops_source)
  from sssp_loop_ok [OF assms this] show ?thesis
    using assms(3) by (auto simp: level_sssp_def bc_setting_def)
qed

end

end
