(* ===== verification/BcScores.thy ===== *)
theory BcScores
  imports BcSearch
begin

text \<open>
  Brandes' accumulation (\<open>brandes_loop\<close> in \<open>Bc\<close>) adds the dependency of every vertex on the
  source to its score, so \<open>bc_compute\<close> returns the betweenness of every vertex over the
  chosen sources.
\<close>

section \<open>One level\<close>

definition known_dep :: "nat list list \<Rightarrow> nat \<Rightarrow> (nat \<Rightarrow> bool) \<Rightarrow> nat \<Rightarrow> 'd::linordered_field" where
  "known_dep ss s D v = (if D v then dependency_of ss s v else 0)"

definition brandes_inv :: "nat list list \<Rightarrow> nat \<Rightarrow> (nat \<Rightarrow> bool) \<Rightarrow> 'd::linordered_field list \<Rightarrow>
    'd list \<times> 'd list \<Rightarrow> bool" where
  "brandes_inv ss s D base st \<longleftrightarrow> (case st of (dependency, scores) \<Rightarrow>
     dependency = map (known_dep ss s D) [0..<length ss] \<and>
     scores = map (\<lambda>v. base ! v + known_dep ss s D v) [0..<length ss])"

definition beyond :: "nat list list \<Rightarrow> nat \<Rightarrow> nat \<Rightarrow> nat \<Rightarrow> bool" where
  "beyond ss s k v \<longleftrightarrow> (\<exists>j>k. hops ss s v = Some j)"

lemma brandes_edges_ok:
  assumes found: "sssp_found ss s l (distance, spc, stack)" and closed: "closed_graph ss" "s < length ss"
    and n: "hops ss s n = Some k" and k: "Suc k < infinity" and dests: "\<forall>w\<in>set ws. w < length ss"
    and D: "\<And>w. hops ss s w = Some (Suc k) \<Longrightarrow> D w" "\<not> D n"
  shows "fold_res (brandes_edge (Suc k) distance spc n) ws (map (known_dep ss s D) [0..<length ss]) =
    Inr ((map (known_dep ss s D) [0..<length ss])[n := (\<Sum>w\<leftarrow>ws. if hops ss s w = Some (Suc k)
      then (1 + dependency_of ss s w) / of_nat (paths ss s w) else (0 :: 'd::linordered_field))])"
  using dests
proof (induction ws rule: rev_induct)
  case Nil
  have "(map (known_dep ss s D) [0..<length ss])[n := 0 :: 'd] = map (known_dep ss s D) [0..<length ss]"
    using D(2) by (simp add: map_upd_upt known_dep_def)
  then show ?case by simp
next
  case (snoc w ws)
  let ?dep = "map (known_dep ss s D) [0..<length ss] :: 'd list"
  have nn: "n < length ss" by (rule hops_bound [OF closed n])
  have w: "w < length ss" using snoc.prems by simp
  have dist: "vec_get distance w = Inr (case hops ss s w of None \<Rightarrow> infinity | Some k \<Rightarrow> k)"
    and spc: "vec_get spc w = Inr (paths ss s w)"
    using found w by (simp_all add: sssp_found_def)
  show ?case
  proof (cases "hops ss s w = Some (Suc k)")
    case True
    then have "w \<noteq> n" using n by auto
    then show ?thesis
      using snoc.IH snoc.prems True dist spc w nn D(1) [OF True]
      by (simp add: fold_res_append brandes_edge_def known_dep_def)
  next
    case False
    then have "(case hops ss s w of None \<Rightarrow> infinity | Some k \<Rightarrow> k) \<noteq> Suc k"
      using k by (auto split: option.splits)
    then show ?thesis
      using snoc.IH snoc.prems False dist by (simp add: fold_res_append brandes_edge_def)
  qed
qed

text \<open>The vertices the search starts from: all, or a prefix of a permutation of them.\<close>

definition chosen_sources :: "(nat \<Rightarrow> nat list \<Rightarrow> nat list) \<Rightarrow> nat \<Rightarrow> nat \<Rightarrow> nat \<Rightarrow> nat list" where
  "chosen_sources shuffle n rseed num_src =
     (if num_src > 0 then take num_src (shuffle rseed [0..<n]) else [0..<n])"

lemma chosen_sources_in:
  assumes "mset (shuffle rseed [0..<n]) = mset [0..<n]" "s \<in> set (chosen_sources shuffle n rseed num_src)"
  shows "s < n"
proof -
  have "set (shuffle rseed [0..<n]) = {..<n}"
    using mset_eq_setD [OF assms(1)] by (simp add: atLeast_upt)
  moreover have "s \<in> set (shuffle rseed [0..<n]) \<or> s < n"
    using assms(2) in_set_takeD unfolding chosen_sources_def by (metis atLeastLessThan_iff set_upt)
  ultimately show ?thesis by blast
qed

context graph_reading
begin

lemma brandes_vertex_ok:
  assumes g: "ginv g" and set: "bc_setting (succs g) s"
    and found: "sssp_found (succs g) s l (distance, spc, stack)" and n: "hops (succs g) s n = Some k"
    and inv: "brandes_inv (succs g) s D base st"
    and D: "\<And>w. hops (succs g) s w = Some (Suc k) \<Longrightarrow> D w" "\<not> D n"
  shows "\<exists>st'. brandes_vertex ops g distance spc k n st = Inr st' \<and>
    brandes_inv (succs g) s (\<lambda>v. D v \<or> v = n) base (st' :: 'd::linordered_field list \<times> 'd list)"
proof -
  let ?ss = "succs g"
  have closed: "closed_graph ?ss" "s < length ?ss" and small: "length ?ss < infinity"
    using set by (simp_all add: bc_setting_def)
  have nn: "n < length ?ss" by (rule hops_bound [OF closed n])
  have adj: "adj_of ?ss n = ?ss ! n" using nn by (simp add: adj_of_def)
  have k: "Suc k < infinity" "u64_add k 1 = Suc k"
    using hops_less_size [OF closed n] small by (simp_all add: u64_add_small infinity_def)
  have dests: "\<forall>w\<in>set (?ss ! n). w < length ?ss" using closed_adj [OF closed(1), of n] by (simp add: adj)
  obtain dep scores where st: "st = (dep, scores)" by (cases st)
  then have dep: "dep = map (known_dep ?ss s D) [0..<length ?ss]"
    and scores: "scores = map (\<lambda>v. base ! v + known_dep ?ss s D v) [0..<length ?ss]"
    using inv by (simp_all add: brandes_inv_def)
  define y where "y = (\<Sum>w\<leftarrow>?ss ! n. if hops ?ss s w = Some (Suc k)
    then (1 + dependency_of ?ss s w) / of_nat (paths ?ss s w) else (0 :: 'd))"
  have edges: "fold_res (brandes_edge (Suc k) distance spc n) (?ss ! n) dep = Inr (dep[n := y])"
    unfolding dep y_def by (rule brandes_edges_ok [where D = D, OF found closed n k(1) dests D])
  have total: "y * of_nat (paths ?ss s n) = dependency_of ?ss s n"
    using dependency_recursion [OF closed(1) nn n, where 'd = 'd] by (simp add: y_def adj)
  have at: "vec_get distance n = Inr k" "vec_get spc n = Inr (paths ?ss s n)"
    using found nn n by (simp_all add: sssp_found_def)
  have lens: "length dep = length ?ss" "length scores = length ?ss" by (simp_all add: dep scores)
  have run: "brandes_vertex ops g distance spc k n st =
      Inr (dep[n := dependency_of ?ss s n], scores[n := scores ! n + dependency_of ?ss s n])"
    using at lens nn edges by (simp add: brandes_vertex_def st edges_law [OF g nn] k(2) [simplified] total)
  have "known_dep ?ss s D n = (0 :: 'd)" using D(2) by (simp add: known_dep_def)
  then have "brandes_inv ?ss s (\<lambda>v. D v \<or> v = n) base
      (dep[n := dependency_of ?ss s n], scores[n := scores ! n + dependency_of ?ss s n])"
    using nn by (auto simp: brandes_inv_def dep scores map_upd_upt known_dep_def)
  with run show ?thesis by blast
qed

lemma brandes_level_ok:
  assumes rt: "galois_ok rt" and g: "ginv g" and set: "bc_setting (succs g) s"
    and found: "sssp_found (succs g) s l (distance, spc, stack)" and k: "k \<le> l"
    and inv: "brandes_inv (succs g) s (beyond (succs g) s k) base st"
  shows "\<exists>st'. do_all rt i (brandes_vertex ops g distance spc k) (stack ! k) st = Inr st' \<and>
    brandes_inv (succs g) s (\<lambda>v. beyond (succs g) s k v \<or> hops (succs g) s v = Some k) base
      (st' :: 'd::linordered_field list \<times> 'd list)"
proof -
  let ?ss = "succs g"
  have bag: "distinct (stack ! k)" "set (stack ! k) = {v. hops ?ss s v = Some k}"
    using found k by (simp_all add: sssp_found_def levels_known_def)
  have "\<exists>ys st'. mset ys = mset (stack ! k) \<and>
      do_all rt i (brandes_vertex ops g distance spc k) (stack ! k) st = Inr st' \<and>
      brandes_inv ?ss s (\<lambda>v. beyond ?ss s k v \<or> v \<in> set ys) base st'"
  proof (rule do_all_rule [OF rt])
    fix ys x and st1 :: "'d list \<times> 'd list"
    let ?D = "\<lambda>v. beyond ?ss s k v \<or> v \<in> set ys"
    assume sub: "mset (ys @ [x]) \<subseteq># mset (stack ! k)" and "x \<in> set (stack ! k)"
      and inv1: "brandes_inv ?ss s ?D base st1"
    then have x: "hops ?ss s x = Some k" using bag by simp
    have "\<not> ?D x" using do_all_fresh [OF sub bag(1)] x by (auto simp: beyond_def)
    moreover have "?D w" if "hops ?ss s w = Some (Suc k)" for w using that by (auto simp: beyond_def)
    ultimately obtain st' where "brandes_vertex ops g distance spc k x st1 = Inr st'"
      "brandes_inv ?ss s (\<lambda>v. ?D v \<or> v = x) base st'"
      using brandes_vertex_ok [OF g set found x inv1] by blast
    moreover have "(\<lambda>v. ?D v \<or> v = x) = (\<lambda>v. beyond ?ss s k v \<or> v \<in> set (ys @ [x]))" by auto
    ultimately show "\<exists>st'. brandes_vertex ops g distance spc k x st1 = Inr st' \<and>
        brandes_inv ?ss s (\<lambda>v. beyond ?ss s k v \<or> v \<in> set (ys @ [x])) base st'" by auto
  qed (use inv in simp)
  then obtain ys st' where ys: "mset ys = mset (stack ! k)"
    and run: "do_all rt i (brandes_vertex ops g distance spc k) (stack ! k) st = Inr st'"
    and inv': "brandes_inv ?ss s (\<lambda>v. beyond ?ss s k v \<or> v \<in> set ys) base st'" by blast
  have "v \<in> set ys \<longleftrightarrow> hops ?ss s v = Some k" for v using mset_eq_setD [OF ys] bag(2) by simp
  with run inv' show ?thesis by simp
qed

lemma beyond_pred: "(\<lambda>v. beyond ss s (Suc k) v \<or> hops ss s v = Some (Suc k)) = beyond ss s k"
  by (auto simp: beyond_def fun_eq_iff intro: Suc_lessI)

lemma brandes_loop_ok:
  assumes rt: "galois_ok rt" and g: "ginv g" and set: "bc_setting (succs g) s"
    and found: "sssp_found (succs g) s l (distance, spc, stack)" and k: "k \<le> l"
    and inv: "brandes_inv (succs g) s (beyond (succs g) s k) base st"
  shows "\<exists>st'. brandes_loop ops rt g (distance, spc, stack) k st = Inr st' \<and>
    brandes_inv (succs g) s (beyond (succs g) s 0) base (st' :: 'd::linordered_field list \<times> 'd list)"
  using k inv
proof (induction k arbitrary: st)
  case (Suc k)
  obtain st1 where run: "do_all rt k (brandes_vertex ops g distance spc (Suc k)) (stack ! Suc k) st = Inr st1"
    and inv1: "brandes_inv (succs g) s (beyond (succs g) s k) base st1"
    using brandes_level_ok [OF rt g set found Suc.prems] unfolding beyond_pred by blast
  have "vec_get stack (Suc k) = Inr (stack ! Suc k)"
    using found Suc.prems(1) by (simp add: sssp_found_def)
  with run Suc.IH [OF _ inv1] Suc.prems(1) show ?case by simp
qed simp

section \<open>All sources\<close>

lemma brandes_start:
  assumes set: "bc_setting ss s" and found: "sssp_found ss s l (distance, spc, stack)"
    and base: "length base = length ss"
  shows "brandes_inv ss s (beyond ss s (l - 2)) base (replicate (length ss) (0 :: 'd::linordered_field), base)"
proof -
  have closed: "closed_graph ss" "s < length ss" using set by (simp_all add: bc_setting_def)
  have "known_dep ss s (beyond ss s (l - 2)) v = (0 :: 'd)" for v
  proof (cases "beyond ss s (l - 2) v")
    case True
    then obtain j where j: "hops ss s v = Some j" "l - 2 < j" by (auto simp: beyond_def)
    have below: "k < l" if "hops ss s w = Some k" for w k
      using found that by (auto simp: sssp_found_def)
    have "hops ss s w \<noteq> Some (Suc j)" for w using below [of w "Suc j"] j(2) by auto
    then have "dependency_of ss s v = (0 :: 'd)"
      using dependency_last [OF closed(1) hops_bound [OF closed j(1)] j(1)] by blast
    then show ?thesis by (simp add: known_dep_def)
  qed (simp add: known_dep_def)
  then show ?thesis
    using base by (auto simp: brandes_inv_def intro!: nth_equalityI)
qed

lemma brandes_scores:
  fixes base :: "'d::linordered_field list"
  assumes "brandes_inv ss s (beyond ss s 0) base (dependency, scores)"
  shows "scores = map (\<lambda>v. base ! v + (if s = v then 0 else dependency_of ss s v)) [0..<length ss]"
    "length dependency = length ss"
proof -
  have "known_dep ss s (beyond ss s 0) v = (if s = v then 0 else dependency_of ss s v :: 'd)" for v
  proof (cases "hops ss s v")
    case None
    then show ?thesis using hops_source [of ss s] dependency_unreachable
      by (auto simp: known_dep_def beyond_def)
  next
    case (Some j)
    then show ?thesis using hops_0_iff [of ss s v]
      by (cases j) (auto simp: known_dep_def beyond_def)
  qed
  then show "scores = map (\<lambda>v. base ! v + (if s = v then 0 else dependency_of ss s v)) [0..<length ss]"
    "length dependency = length ss"
    using assms by (simp_all add: brandes_inv_def)
qed

lemma reset_all:
  assumes "galois_ok rt" "length d = n" "length c = n" "length dep = n"
  shows "do_all rt k reset_vertex [0..<n] (d, c, dep) =
    Inr (replicate n infinity, replicate n 0, replicate n (0 :: 'd::linordered_field))"
proof -
  have "\<exists>ys st. mset ys = mset [0..<n] \<and> do_all rt k reset_vertex [0..<n] (d, c, dep) = Inr st \<and>
      (case st of (d', c', dep') \<Rightarrow> length d' = n \<and> length c' = n \<and> length dep' = n \<and>
        (\<forall>i\<in>set ys. d' ! i = infinity \<and> c' ! i = 0 \<and> dep' ! i = 0))"
    by (rule do_all_rule [OF assms(1)]) (auto simp: assms(2-4) reset_vertex_def nth_list_update)
  then obtain ys d' c' dep' where ys: "mset ys = mset [0..<n]"
    and run: "do_all rt k reset_vertex [0..<n] (d, c, dep) = Inr (d', c', dep')"
    and st: "length d' = n" "length c' = n" "length dep' = n"
      "\<forall>i\<in>set ys. d' ! i = infinity \<and> c' ! i = 0 \<and> dep' ! i = 0" by auto
  have "set ys = {..<n}" using mset_eq_setD [OF ys] by (simp add: atLeast_upt)
  then have "d' = replicate n infinity" "c' = replicate n 0" "dep' = replicate n 0"
    using st by (auto intro!: nth_equalityI)
  with run show ?thesis by simp
qed

text \<open>After any search that found the levels, the accumulation adds the dependencies.\<close>

lemma accumulate_ok:
  assumes rt: "galois_ok rt" and g: "ginv g" and set: "bc_setting (succs g) s"
    and found: "sssp_found (succs g) s l (d, c, stack)" and base: "length base = length (succs g)"
  shows "\<exists>dep. accumulate ops rt g (d, c, stack) (replicate (length (succs g)) 0, base) = Inr (d, c, dep,
      map (\<lambda>v. base ! v + (if s = v then 0 else dependency_of (succs g) s v)) [0..<length (succs g)]) \<and>
    length (dep :: 'd::linordered_field list) = length (succs g)"
proof -
  let ?n = "length (succs g)"
  have stack: "length stack = Suc l" using found by (simp add: sssp_found_def)
  have start: "brandes_inv (succs g) s (beyond (succs g) s (l - 2)) base (replicate ?n 0, base)"
    by (rule brandes_start [OF set found base])
  have "l - 2 \<le> l" by simp
  from brandes_loop_ok [OF rt g set found this start] obtain dep scores where
    run: "brandes_loop ops rt g (d, c, stack) (l - 2) (replicate ?n 0, base) = Inr (dep, scores)"
    and inv: "brandes_inv (succs g) s (beyond (succs g) s 0) base (dep, scores)"
    by (metis prod.exhaust)
  have "(if length stack \<ge> 3 then brandes_loop ops rt g (d, c, stack) (length stack - 3) (replicate ?n 0, base)
      else Inr (replicate ?n 0, base)) = Inr (dep, scores)"
    using run stack by (auto simp: numeral_3_eq_3 numeral_2_eq_2)
  then show ?thesis using brandes_scores [OF inv] by (simp add: accumulate_def)
qed

lemma bc_source_ok:
  assumes rt: "galois_ok rt" and g: "ginv g" and set: "bc_setting (succs g) s"
    and st: "length d = length (succs g)" "length c = length (succs g)"
      "length dep = length (succs g)" "length scores = length (succs g)"
  shows "\<exists>d' c' dep'. bc_source ops rt g s (d, c, dep, scores) = Inr (d', c', dep',
      map (\<lambda>v. scores ! v + (if s = v then 0 else dependency_of (succs g) s v)) [0..<length (succs g)]) \<and>
    length d' = length (succs g) \<and> length c' = length (succs g) \<and>
    length (dep' :: 'd::linordered_field list) = length (succs g)"
proof -
  let ?n = "length (succs g)"
  obtain l d' c' stack where search: "level_sssp ops rt g s (replicate ?n infinity) (replicate ?n 0) =
      Inr (d', c', stack)" and found: "sssp_found (succs g) s l (d', c', stack)"
    using level_sssp_ok [OF rt g set] by (metis prod_cases3)
  have "length d' = ?n" "length c' = ?n" using found by (simp_all add: sssp_found_def)
  moreover have "do_all rt s reset_vertex [0..<g_size ops g] (d, c, dep) =
      Inr (replicate ?n infinity, replicate ?n 0, replicate ?n 0)"
    unfolding size_law [OF g] by (rule reset_all [OF rt st(1-3)])
  ultimately show ?thesis
    using accumulate_ok [OF rt g set found st(4)] search by (auto simp: bc_source_def)
qed

lemma bc_sources_ok:
  assumes rt: "galois_ok rt" and g: "ginv g" and set: "\<forall>s\<in>set sources. bc_setting (succs g) s"
  shows "\<exists>d c dep. fold_res (bc_source ops rt g) sources
      (replicate (length (succs g)) infinity, replicate (length (succs g)) 0,
       replicate (length (succs g)) 0, replicate (length (succs g)) 0) =
    Inr (d, c, dep :: 'd::linordered_field list, map (betweenness (succs g) sources) [0..<length (succs g)])"
proof -
  let ?n = "length (succs g)"
  have "\<exists>st. fold_res (bc_source ops rt g) sources
      (replicate ?n infinity, replicate ?n 0, replicate ?n 0, replicate ?n 0) = Inr st \<and>
    (case st of (d, c, dep, scores) \<Rightarrow> length d = ?n \<and> length c = ?n \<and> length (dep :: 'd list) = ?n \<and>
      scores = map (betweenness (succs g) sources) [0..<?n])"
  proof (rule fold_res_rule)
    fix ys x zs and st :: "'d bc_state"
    assume split: "sources = ys @ x # zs"
      and st: "case st of (d, c, dep, scores) \<Rightarrow> length d = ?n \<and> length c = ?n \<and> length dep = ?n \<and>
        scores = map (betweenness (succs g) ys) [0..<?n]"
    have x: "bc_setting (succs g) x" using set split by simp
    obtain d c dep scores where eq: "st = (d, c, dep, scores)" by (cases st)
    then have len: "length d = ?n" "length c = ?n" "length dep = ?n"
      and scores: "scores = map (betweenness (succs g) ys) [0..<?n]" using st by simp_all
    have "length scores = ?n" by (simp add: scores)
    from bc_source_ok [OF rt g x len this] obtain d' c' dep' where
      "bc_source ops rt g x st = Inr (d', c', dep',
        map (\<lambda>v. scores ! v + (if x = v then 0 else dependency_of (succs g) x v)) [0..<?n])"
      "length d' = ?n" "length c' = ?n" "length dep' = ?n" unfolding eq by blast
    then show "\<exists>st'. bc_source ops rt g x st = Inr st' \<and>
      (case st' of (d, c, dep, scores) \<Rightarrow> length d = ?n \<and> length c = ?n \<and> length dep = ?n \<and>
        scores = map (betweenness (succs g) (ys @ [x])) [0..<?n])"
      by (simp add: betweenness_def scores)
  qed (auto simp: betweenness_def intro!: nth_equalityI)
  then show ?thesis by auto
qed

lemma select_sources_ok:
  assumes "galois_ok rt"
  shows "select_sources rt shuffle n rseed num_src = Inr
    (if num_src > 0 then vec_resize (min n num_src) 0 (shuffle rseed [0..<n]) else [0..<n])"
  using do_all_fill [OF assms, of "vec_resize n 0 []" n 0 "\<lambda>i. i"]
  by (simp add: select_sources_def)

lemma select_sources_chosen:
  assumes "galois_ok rt" and "mset (shuffle rseed [0..<n]) = mset [0..<n]"
  shows "select_sources rt shuffle n rseed num_src = Inr (chosen_sources shuffle n rseed num_src)"
proof -
  have "length (shuffle rseed [0..<n]) = n" using mset_eq_length [OF assms(2)] by simp
  then show ?thesis
    unfolding select_sources_ok [OF assms(1)] chosen_sources_def vec_resize_def by (simp add: min_def)
qed

theorem bc_compute_ok:
  assumes rt: "galois_ok rt" and g: "ginv g" and shuffle: "\<forall>xs. mset (shuffle rseed xs) = mset xs"
    and setting: "\<forall>s<length (succs g). bc_setting (succs g) s"
  shows "bc_compute ops rt shuffle g rseed num_src = Inr (map (betweenness (succs g)
    (chosen_sources shuffle (length (succs g)) rseed num_src)) [0..<length (succs g)] :: 'd::linordered_field list)"
proof -
  let ?n = "length (succs g)"
  let ?sources = "chosen_sources shuffle ?n rseed num_src"
  have perm: "mset (shuffle rseed [0..<?n]) = mset [0..<?n]" using shuffle by blast
  have "select_sources rt shuffle ?n rseed num_src = Inr ?sources"
    by (rule select_sources_chosen [where shuffle = shuffle, OF rt perm])
  moreover have "\<forall>s\<in>set ?sources. bc_setting (succs g) s"
    using setting chosen_sources_in [where shuffle = shuffle, OF perm] by blast
  ultimately show ?thesis
    using bc_sources_ok [OF rt g, of ?sources, where 'd = 'd] by (auto simp: bc_compute_def size_law [OF g])
qed

end

end
