(* ===== verification/BcSerial.thy ===== *)
theory BcSerial
  imports BcScores
begin

text \<open>
  \<open>SerialBetweennessCentrality\<close> (include/scea/algo/bc.hpp): the serial reference
  implementation, a queue-based search that records predecessors and counts paths in \<open>int\<close>,
  and the accumulation over the levels. A signed addition that leaves the range of \<open>int\<close> is
  undefined and the error \<open>IntOverflow\<close> here.
\<close>

definition int_max :: int where
  "int_max = 2147483647"

definition int_add :: "int \<Rightarrow> int \<Rightarrow> int res" where
  "int_add a b = (if - int_max - 1 \<le> a + b \<and> a + b \<le> int_max then Inr (a + b) else Inl IntOverflow)"

section \<open>bfsShortestPaths\<close>

text \<open>The queue, the predecessors, the path counts, the distances and the greatest level.\<close>

type_synonym serial_state = "nat list \<times> nat list list \<times> int list \<times> int list \<times> int"

definition serial_discover :: "nat \<Rightarrow> nat \<Rightarrow> nat list \<times> int list \<Rightarrow> (nat list \<times> int list) res" where
  "serial_discover u v st = (case st of (q, distance) \<Rightarrow>
     res_bind (vec_get distance v) (\<lambda>dv.
       if dv = int_max
       then res_bind (vec_get distance u) (\<lambda>du. res_bind (int_add du 1) (\<lambda>d.
              res_map (Pair (q @ [v])) (vec_set distance v d)))
       else Inr st))"

definition serial_record :: "nat \<Rightarrow> nat \<Rightarrow> int list \<Rightarrow> nat list list \<times> int list \<Rightarrow>
    (nat list list \<times> int list) res" where
  "serial_record u v distance st = (case st of (predecessors, spc) \<Rightarrow>
     res_bind (vec_get distance v) (\<lambda>dv. res_bind (vec_get distance u) (\<lambda>du.
     res_bind (int_add du 1) (\<lambda>d.
       if dv = d
       then res_bind (vec_get spc u) (\<lambda>cu. res_bind (vec_get spc v) (\<lambda>cv.
            res_bind (int_add cv cu) (\<lambda>c. res_bind (vec_set spc v c) (\<lambda>spc'.
            res_map (\<lambda>preds. (preds, spc')) (vec_update predecessors v (\<lambda>ps. ps @ [u]))))))
       else Inr st))))"

definition serial_edge :: "nat \<Rightarrow> nat \<Rightarrow> serial_state \<Rightarrow> serial_state res" where
  "serial_edge u v st = (case st of (q, predecessors, spc, distance, maxLevel) \<Rightarrow>
     res_bind (serial_discover u v (q, distance)) (\<lambda>(q', distance').
     res_bind (serial_record u v distance' (predecessors, spc)) (\<lambda>(predecessors', spc').
     res_map (\<lambda>dv. (q', predecessors', spc', distance', if dv > maxLevel then dv else maxLevel))
       (vec_get distance' v))))"

partial_function (option) serial_loop :: "'g graph_ops \<Rightarrow> 'g \<Rightarrow> serial_state \<Rightarrow> serial_state res option" where
  "serial_loop ops g st =
     (case st of (q, predecessors, spc, distance, maxLevel) \<Rightarrow>
        case q of
          [] \<Rightarrow> Some (Inr st)
        | u # q' \<Rightarrow>
            (case res_bind (g_for_each_edge ops g u) (\<lambda>vs.
                    fold_res (serial_edge u) vs (q', predecessors, spc, distance, maxLevel)) of
               Inl e \<Rightarrow> Some (Inl e)
             | Inr st' \<Rightarrow> serial_loop ops g st'))"

declare serial_loop.simps [code]

definition bfs_shortest_paths :: "'g graph_ops \<Rightarrow> 'g \<Rightarrow> nat \<Rightarrow> nat list list \<Rightarrow> int list \<Rightarrow> int list \<Rightarrow>
    serial_state res" where
  "bfs_shortest_paths ops g s predecessors spc distance =
     res_bind (vec_set distance s 0) (\<lambda>distance'. res_bind (vec_set spc s 1) (\<lambda>spc'.
     res_bind (returns (serial_loop ops g ([s], predecessors, spc', distance', 0))) id))"

section \<open>compute\<close>

definition serial_pred :: "int list \<Rightarrow> nat \<Rightarrow> nat \<Rightarrow> 'd::linordered_field list \<Rightarrow> 'd list res" where
  "serial_pred spc i pred dependency =
     res_bind (vec_get spc pred) (\<lambda>cp. res_bind (vec_get spc i) (\<lambda>ci.
     res_bind (vec_get dependency i) (\<lambda>di.
       vec_update dependency pred (\<lambda>x. x + (1 + di) * (of_int cp / of_int ci)))))"

definition serial_vertex :: "nat \<Rightarrow> nat list list \<Rightarrow> int list \<Rightarrow> int list \<Rightarrow> int \<Rightarrow> nat \<Rightarrow>
    'd::linordered_field list \<times> 'd list \<Rightarrow> ('d list \<times> 'd list) res" where
  "serial_vertex s predecessors spc distance maxLevel i st = (case st of (dependency, scores) \<Rightarrow>
     res_bind (vec_get distance i) (\<lambda>d.
       if d \<noteq> maxLevel then Inr st
       else res_bind (vec_get predecessors i) (\<lambda>preds.
            res_bind (fold_res (serial_pred spc i) preds dependency) (\<lambda>dep.
              if i \<noteq> s
              then res_bind (vec_get dep i) (\<lambda>di. res_map (Pair dep) (vec_update scores i (\<lambda>x. x + di)))
              else Inr (dep, scores)))))"

text \<open>The levels from \<open>maxLevel\<close> down to 0: \<open>Suc l\<close> stands for the level \<open>l\<close> and those below.\<close>

fun serial_levels :: "nat \<Rightarrow> nat \<Rightarrow> nat list list \<Rightarrow> int list \<Rightarrow> int list \<Rightarrow> nat \<Rightarrow>
    'd::linordered_field list \<times> 'd list \<Rightarrow> ('d list \<times> 'd list) res" where
  "serial_levels n s predecessors spc distance 0 st = Inr st"
| "serial_levels n s predecessors spc distance (Suc l) st =
     res_bind (fold_res (serial_vertex s predecessors spc distance (int l)) [0..<n] st)
       (serial_levels n s predecessors spc distance l)"

definition serial_source :: "'g graph_ops \<Rightarrow> 'g \<Rightarrow> nat \<Rightarrow> 'd::linordered_field list \<Rightarrow> 'd list res" where
  "serial_source ops g s scores =
     (let n = g_size ops g in
      res_bind (bfs_shortest_paths ops g s (replicate n []) (replicate n 0) (replicate n int_max))
        (\<lambda>(q, predecessors, spc, distance, maxLevel).
         res_map snd (serial_levels n s predecessors spc distance (nat (maxLevel + 1))
           (replicate n 0, scores))))"

definition serial_compute :: "'g graph_ops \<Rightarrow> 'g \<Rightarrow> 'd::linordered_field list res" where
  "serial_compute ops g =
     fold_res (serial_source ops g) [0..<g_size ops g] (replicate (g_size ops g) 0)"

end
