(* ===== verification/BcSerialSearch.thy ===== *)
theory BcSerialSearch
  imports BcSerial
begin

text \<open>
  The serial search (\<open>bfs_shortest_paths\<close> in \<open>BcSerial\<close>) finds the hop distances, the numbers
  of shortest paths and, for every vertex, its predecessors with their multiplicities. The
  queue always holds what is left of one level followed by what was found of the next.
\<close>

definition serial_setting :: "nat list list \<Rightarrow> nat \<Rightarrow> bool" where
  "serial_setting ss s \<longleftrightarrow> closed_graph ss \<and> s < length ss \<and> int (length ss) < int_max \<and>
     (\<forall>v. int (paths ss s v) \<le> int_max)"

text \<open>How often \<open>u\<close> is to be recorded as a predecessor of \<open>v\<close>.\<close>

definition pred_count :: "nat list list \<Rightarrow> nat \<Rightarrow> nat \<Rightarrow> nat \<Rightarrow> nat" where
  "pred_count ss s u v =
     (if \<exists>k. hops ss s u = Some k \<and> hops ss s v = Some (Suc k) then count_list (adj_of ss u) v else 0)"

definition serial_mid :: "nat list list \<Rightarrow> nat \<Rightarrow> nat \<Rightarrow> (nat \<times> nat) list \<Rightarrow> nat list \<Rightarrow> nat list \<Rightarrow>
    serial_state \<Rightarrow> bool" where
  "serial_mid ss s l es A B st \<longleftrightarrow> (case st of (q, predecessors, spc, distance, maxLevel) \<Rightarrow>
     q = A @ B \<and> length predecessors = length ss \<and> length spc = length ss \<and>
     length distance = length ss \<and> distinct B \<and> set B = {v \<in> snd ` set es. \<not> near ss s l v} \<and>
     maxLevel = (if B = [] then int l else int (Suc l)) \<and>
     (\<forall>v<length ss. distance ! v = (if near ss s l v then int (the (hops ss s v))
        else if v \<in> snd ` set es then int (Suc l) else int_max)) \<and>
     (\<forall>v<length ss. spc ! v = int (if near ss s l v then paths ss s v else paths_in ss s es v)) \<and>
     (\<forall>v<length ss. \<forall>u. count_list (predecessors ! v) u =
        (if near ss s l v then pred_count ss s u v else count_list es (u, v))))"

lemma int_add_ok: "0 \<le> a + b \<Longrightarrow> a + b \<le> int_max \<Longrightarrow> int_add a b = Inr (a + b)"
  by (simp add: int_add_def int_max_def)

section \<open>One edge\<close>

lemma serial_edge_ok:
  assumes set: "serial_setting ss s" and mid: "serial_mid ss s l es A B st"
    and n: "hops ss s n = Some l" and dest: "dest \<in> set (ss ! n)"
    and fit: "\<not> near ss s l dest \<Longrightarrow> int (paths_in ss s (es @ [(n, dest)]) dest) \<le> int_max"
  shows "\<exists>B' st'. serial_edge n dest st = Inr st' \<and> serial_mid ss s l (es @ [(n, dest)]) A B' st'"
proof -
  have closed: "closed_graph ss" "s < length ss" and small: "int (length ss) < int_max"
    using set by (simp_all add: serial_setting_def)
  have nn: "n < length ss" using hops_bound [OF closed n] .
  have dd: "dest < length ss" using closed_graphD [OF closed(1) nn dest] .
  have l: "int (Suc l) < int_max" using hops_less_size [OF closed n] small by simp
  obtain q preds spc distance maxLevel where st: "st = (q, preds, spc, distance, maxLevel)" by (cases st)
  note mid = mid [unfolded st serial_mid_def prod.case]
  have lens: "n < length spc" "dest < length spc" "dest < length distance" "n < length distance"
    "dest < length preds" "spc ! n = int (paths ss s n)" "distance ! n = int l"
    using mid nn dd n near_level [OF n] by auto
  have next_level: "int_add (int l) 1 = Inr (int (Suc l))" using l by (simp add: int_add_ok)
  show ?thesis
  proof (cases "near ss s l dest")
    case True
    then obtain k where k: "k \<le> l" "hops ss s dest = Some k" by (auto simp: near_def)
    then have at: "distance ! dest = int k" using mid dd True by simp
    moreover have "\<not> int k > maxLevel" using mid k(1) by simp
    ultimately have "serial_edge n dest st = Inr st"
      using k(1) l lens next_level
      by (simp add: serial_edge_def serial_discover_def serial_record_def st)
    moreover have "serial_mid ss s l (es @ [(n, dest)]) A B st"
      unfolding st serial_mid_def prod.case using mid True by (auto)
    ultimately show ?thesis by blast
  next
    case far: False
    have count: "spc ! dest = int (paths_in ss s es dest)" using mid dd far by simp
    have "int_add (spc ! dest) (spc ! n) = Inr (spc ! dest + spc ! n)"
      using fit [OF far] count lens by (intro int_add_ok) simp_all
    note add = this next_level
    let ?spc = "spc[dest := spc ! dest + spc ! n]"
    let ?preds = "preds[dest := preds ! dest @ [n]]"
    show ?thesis
    proof (cases "dest \<in> snd ` set es")
      case True
      then have at: "distance ! dest = int (Suc l)" and "B \<noteq> []" using mid dd far by auto
      then have "maxLevel = int (Suc l)" using mid by simp
      then have "serial_edge n dest st = Inr (q, ?preds, ?spc, distance, maxLevel)"
        using l lens add at by (simp add: serial_edge_def serial_discover_def serial_record_def st)
      moreover have "serial_mid ss s l (es @ [(n, dest)]) A B (q, ?preds, ?spc, distance, maxLevel)"
        unfolding serial_mid_def prod.case
        using mid True far count lens by (auto simp: nth_list_update)
      ultimately show ?thesis by blast
    next
      case False
      let ?dist = "distance[dest := int (Suc l)]"
      have at: "distance ! dest = int_max" using mid dd far False by simp
      have "dest \<noteq> n" using far near_level [OF n] by auto
      then have "serial_edge n dest st = Inr (q @ [dest], ?preds, ?spc, ?dist, int (Suc l))"
        using l lens add at mid
        by (auto simp: serial_edge_def serial_discover_def serial_record_def st)
      moreover have "serial_mid ss s l (es @ [(n, dest)]) A (B @ [dest])
          (q @ [dest], ?preds, ?spc, ?dist, int (Suc l))"
        unfolding serial_mid_def prod.case
        using mid False far count lens by (auto simp: nth_list_update)
      ultimately show ?thesis by blast
    qed
  qed
qed

section \<open>Levels\<close>

lemma count_events:
  assumes "distinct us"
  shows "count_list (level_events ss us) (u, v) = (if u \<in> set us then count_list (ss ! u) v else 0)"
proof -
  have row: "count_list (map (Pair w) ds) (u, v) = (if w = u then count_list ds v else 0)" for w ds
    by (induction ds) auto
  show ?thesis using assms by (induction us) (auto simp: level_events_def row)
qed

lemma not_counted: "v \<notin> snd ` set es \<Longrightarrow> count_list es (u, v) = 0"
  by (auto simp: count_list_0_iff image_iff)

lemma serial_shift:
  assumes set: "serial_setting ss s" and us: "distinct us" "set us = {u. hops ss s u = Some l}"
    and mid: "serial_mid ss s l (level_events ss us) [] B st" and "B \<noteq> []"
  shows "serial_mid ss s (Suc l) [] B [] st" "distinct B" "set B = {u. hops ss s u = Some (Suc l)}"
proof -
  have closed: "closed_graph ss" "s < length ss" using set by (simp_all add: serial_setting_def)
  obtain q preds spc distance maxLevel where st: "st = (q, preds, spc, distance, maxLevel)" by (cases st)
  note mid = mid [unfolded st serial_mid_def prod.case]
  note reached = level_reached [OF closed us(2)] and none = paths_in_none [of _ "level_events ss us"]
  show "distinct B" "set B = {u. hops ss s u = Some (Suc l)}" using mid reached by auto
  have preds: "count_list (preds ! v) u = (if near ss s (Suc l) v then pred_count ss s u v else 0)"
    if v: "v < length ss" for u v
  proof -
    have "count_list (level_events ss us) (u, v) = 0" if "hops ss s v \<noteq> Some (Suc l)" "\<not> near ss s l v"
      using that reached [of v] by (intro not_counted) auto
    moreover have "count_list (level_events ss us) (u, v) = pred_count ss s u v"
      if "hops ss s v = Some (Suc l)"
      using that us hops_bound [OF closed, of u l]
      by (auto simp: count_events [OF us(1)] pred_count_def adj_of_def)
    ultimately show ?thesis using mid v by (auto simp: near_Suc)
  qed
  have "distance ! v = (if near ss s (Suc l) v then int (the (hops ss s v)) else int_max)"
    if "v < length ss" for v
    using mid reached [of v] that by (auto simp: near_Suc)
  moreover have "spc ! v = int (if near ss s (Suc l) v then paths ss s v else 0)" if "v < length ss" for v
    using mid reached [of v] none [of v] paths_in_level [OF closed us, of v] that by (auto simp: near_Suc)
  ultimately show "serial_mid ss s (Suc l) [] B [] st"
    using mid preds \<open>B \<noteq> []\<close> by (auto simp: st serial_mid_def)
qed

text \<open>What a finished search has found.\<close>

definition serial_found :: "nat list list \<Rightarrow> nat \<Rightarrow> nat \<Rightarrow> serial_state \<Rightarrow> bool" where
  "serial_found ss s l st \<longleftrightarrow> (case st of (q, predecessors, spc, distance, maxLevel) \<Rightarrow>
     maxLevel = int l \<and> l < length ss \<and> (\<forall>v k. hops ss s v = Some k \<longrightarrow> k \<le> l) \<and>
     distance = map (\<lambda>v. case hops ss s v of None \<Rightarrow> int_max | Some k \<Rightarrow> int k) [0..<length ss] \<and>
     spc = map (\<lambda>v. int (paths ss s v)) [0..<length ss] \<and> length predecessors = length ss \<and>
     (\<forall>v<length ss. \<forall>u. count_list (predecessors ! v) u = pred_count ss s u v))"

lemma serial_end:
  assumes set: "serial_setting ss s" and us: "distinct us" "set us = {u. hops ss s u = Some l}" "us \<noteq> []"
    and mid: "serial_mid ss s l (level_events ss us) [] [] st"
  shows "serial_found ss s l st"
proof -
  have closed: "closed_graph ss" "s < length ss" using set by (simp_all add: serial_setting_def)
  obtain q preds spc distance maxLevel where st: "st = (q, preds, spc, distance, maxLevel)" by (cases st)
  note mid = mid [unfolded st serial_mid_def prod.case]
  have none: "hops ss s v \<noteq> Some (Suc l)" for v using mid level_reached [OF closed us(2), of v] by auto
  have below: "k \<le> l" if "hops ss s v = Some k" for v k
    using hops_all_levels [OF that, of "Suc l"] none by (meson not_less_eq_eq)
  have near: "near ss s l v \<longleftrightarrow> hops ss s v \<noteq> None" for v using below by (auto simp: near_def)
  have far: "v \<notin> snd ` set (level_events ss us)" if "hops ss s v = None" for v
    using level_reached [OF closed us(2), of v] that near by auto
  have zero: "count_list (level_events ss us) (u, v) = 0" if "hops ss s v = None" for u v
    by (rule not_counted [OF far [OF that]])
  have "distance = map (\<lambda>v. case hops ss s v of None \<Rightarrow> int_max | Some k \<Rightarrow> int k) [0..<length ss]"
    using mid near far by (intro nth_equalityI) (auto split: option.splits)
  moreover have "spc = map (\<lambda>v. int (paths ss s v)) [0..<length ss]"
    using mid near paths_none paths_in_none far by (intro nth_equalityI) auto
  moreover have "count_list (preds ! v) u = pred_count ss s u v" if "v < length ss" for u v
    using mid near zero that by (auto simp: pred_count_def)
  moreover have "hops ss s (hd us) = Some l" using hd_in_set [OF us(3)] us(2) by simp
  then have "l < length ss" by (rule hops_less_size [OF closed])
  ultimately show ?thesis using mid below by (simp add: st serial_found_def)
qed

context graph_reading
begin

lemma serial_node_ok:
  assumes g: "ginv g" and set: "serial_setting (succs g) s"
    and us: "distinct (us @ n # A)" "set (us @ n # A) = {u. hops (succs g) s u = Some l}"
    and mid: "serial_mid (succs g) s l (level_events (succs g) us) (n # A) B st"
  shows "\<exists>B' st'. serial_loop ops g st = serial_loop ops g st' \<and>
    serial_mid (succs g) s l (level_events (succs g) (us @ [n])) A B' st'"
proof -
  let ?ss = "succs g"
  have closed: "closed_graph ?ss" "s < length ?ss" and fit: "\<And>v. int (paths ?ss s v) \<le> int_max"
    using set by (simp_all add: serial_setting_def)
  obtain preds spc distance maxLevel where st: "st = (n # A @ B, preds, spc, distance, maxLevel)"
    using mid by (auto simp: serial_mid_def)
  let ?st = "(A @ B, preds, spc, distance, maxLevel)"
  have n: "hops ?ss s n = Some l" using us(2) by auto
  have nn: "n < length ?ss" by (rule hops_bound [OF closed n])
  have start: "serial_mid ?ss s l (level_events ?ss us) A B ?st" using mid by (simp add: st serial_mid_def)
  have "\<exists>st'. fold_res (serial_edge n) (?ss ! n) ?st = Inr st' \<and>
      (\<exists>B'. serial_mid ?ss s l (level_events ?ss us @ map (Pair n) (?ss ! n)) A B' st')"
  proof (rule fold_res_rule)
    fix ys x zs st1
    assume split: "?ss ! n = ys @ x # zs"
      and "\<exists>B'. serial_mid ?ss s l (level_events ?ss us @ map (Pair n) ys) A B' st1"
    then obtain B1 where mid1: "serial_mid ?ss s l (level_events ?ss us @ map (Pair n) ys) A B1 st1" by blast
    have x: "x \<in> set (?ss ! n)" by (simp add: split)
    have "int (paths_in ?ss s ((level_events ?ss us @ map (Pair n) ys) @ [(n, x)]) x) \<le> int_max"
      if "\<not> near ?ss s l x"
    proof -
      have "paths_in ?ss s (level_events ?ss (us @ n # A)) x = paths ?ss s x"
        using far_succ [OF n x nn that] by (rule paths_in_level [OF closed us])
      moreover have "paths_in ?ss s ((level_events ?ss us @ map (Pair n) ys) @ [(n, x)]) x \<le>
          paths_in ?ss s (level_events ?ss (us @ n # A)) x"
        by (simp add: level_events_def split)
      ultimately show ?thesis using fit [of x] by simp
    qed
    from serial_edge_ok [OF set mid1 n x this]
    show "\<exists>st'. serial_edge n x st1 = Inr st' \<and>
        (\<exists>B'. serial_mid ?ss s l (level_events ?ss us @ map (Pair n) (ys @ [x])) A B' st')" by auto
  qed (use start in auto)
  then obtain st' B' where run: "fold_res (serial_edge n) (?ss ! n) ?st = Inr st'"
    and mid': "serial_mid ?ss s l (level_events ?ss (us @ [n])) A B' st'"
    unfolding level_events_append by blast
  have "serial_loop ops g st = serial_loop ops g st'"
    by (subst serial_loop.simps) (simp add: st edges_law [OF g nn] run)
  with mid' show ?thesis by blast
qed

lemma serial_level_ok:
  assumes g: "ginv g" and set: "serial_setting (succs g) s"
    and us: "distinct (us @ A)" "set (us @ A) = {u. hops (succs g) s u = Some l}"
    and mid: "serial_mid (succs g) s l (level_events (succs g) us) A B st"
  shows "\<exists>B' st'. serial_loop ops g st = serial_loop ops g st' \<and>
    serial_mid (succs g) s l (level_events (succs g) (us @ A)) [] B' st'"
  using us mid
proof (induction A arbitrary: us B st)
  case (Cons n A)
  obtain B1 st1 where "serial_loop ops g st = serial_loop ops g st1"
    and "serial_mid (succs g) s l (level_events (succs g) (us @ [n])) A B1 st1"
    using serial_node_ok [OF g set Cons.prems] by blast
  with Cons.IH [of "us @ [n]" B1 st1] Cons.prems(1,2) show ?case by simp
next
  case Nil
  then show ?case by (intro exI [of _ B] exI [of _ st]) simp
qed

lemma serial_loop_ok:
  assumes g: "ginv g" and set: "serial_setting (succs g) s"
    and A: "distinct A" "set A = {u. hops (succs g) s u = Some l}" "A \<noteq> []"
    and mid: "serial_mid (succs g) s l [] A [] st"
  shows "\<exists>k st'. serial_loop ops g st = Some (Inr st') \<and> serial_found (succs g) s k st'"
  using A mid
proof (induction "length (succs g) - l" arbitrary: l A st rule: less_induct)
  case less
  have closed: "closed_graph (succs g)" "s < length (succs g)" using set by (simp_all add: serial_setting_def)
  have "hops (succs g) s (hd A) = Some l" using less.prems(2,3) hd_in_set by fastforce
  then have l: "l < length (succs g)" by (rule hops_less_size [OF closed])
  have "serial_mid (succs g) s l (level_events (succs g) []) A [] st"
    using less.prems(4) by (simp add: level_events_def)
  from serial_level_ok [OF g set _ _ this] less.prems(1,2) obtain B st1 where
    run: "serial_loop ops g st = serial_loop ops g st1"
    and mid1: "serial_mid (succs g) s l (level_events (succs g) A) [] B st1" by auto
  show ?case
  proof (cases "B = []")
    case True
    then have "serial_loop ops g st1 = Some (Inr st1)"
      using mid1 by (subst serial_loop.simps) (auto simp: serial_mid_def)
    moreover have "serial_found (succs g) s l st1"
      using mid1 unfolding True by (rule serial_end [OF set less.prems(1-3)])
    ultimately show ?thesis using run by auto
  next
    case False
    note next_level = serial_shift [OF set less.prems(1,2) mid1 False]
    show ?thesis
      unfolding run using less.hyps [OF _ next_level(2,3) False next_level(1)] l by simp
  qed
qed

lemma bfs_shortest_paths_ok:
  assumes g: "ginv g" and set: "serial_setting (succs g) s"
  shows "\<exists>l st. bfs_shortest_paths ops g s (replicate (length (succs g)) [])
      (replicate (length (succs g)) 0) (replicate (length (succs g)) int_max) = Inr st \<and>
    serial_found (succs g) s l st"
proof -
  let ?n = "length (succs g)"
  have "serial_mid (succs g) s 0 [] [s] []
      ([s], replicate ?n [], (replicate ?n 0)[s := 1], (replicate ?n int_max)[s := 0], 0)"
    using set hops_0_iff by (auto simp: serial_mid_def near_def nth_list_update pred_count_def hops_source)
  from serial_loop_ok [OF g set _ _ _ this] show ?thesis
    using set by (auto simp: bfs_shortest_paths_def serial_setting_def hops_0_iff)
qed

end

end
