(* ===== verification/BcSerialScores.thy ===== *)
theory BcSerialScores
  imports BcSerialSearch
begin

text \<open>
  The accumulation of \<open>SerialBetweennessCentrality\<close>: every vertex hands its share to the
  predecessors recorded for it, level by level, so the serial algorithm too returns the
  betweenness of every vertex.
\<close>

text \<open>What \<open>v\<close> has received from the successors in \<open>W\<close>.\<close>

definition received :: "nat list list \<Rightarrow> nat \<Rightarrow> (nat \<Rightarrow> bool) \<Rightarrow> nat \<Rightarrow> 'd::linordered_field" where
  "received ss s W v = of_nat (paths ss s v) *
     (\<Sum>w\<leftarrow>adj_of ss v. if (\<exists>k. hops ss s v = Some k \<and> hops ss s w = Some (Suc k)) \<and> W w
       then (1 + dependency_of ss s w) / of_nat (paths ss s w) else 0)"

definition serial_inv :: "nat list list \<Rightarrow> nat \<Rightarrow> (nat \<Rightarrow> bool) \<Rightarrow> 'd::linordered_field list \<Rightarrow>
    'd list \<times> 'd list \<Rightarrow> bool" where
  "serial_inv ss s W base st \<longleftrightarrow> (case st of (dependency, scores) \<Rightarrow>
     dependency = map (received ss s W) [0..<length ss] \<and>
     scores = map (\<lambda>v. base ! v + (if W v \<and> v \<noteq> s then dependency_of ss s v else 0)) [0..<length ss])"

definition at_least :: "nat list list \<Rightarrow> nat \<Rightarrow> nat \<Rightarrow> nat \<Rightarrow> bool" where
  "at_least ss s l v \<longleftrightarrow> (\<exists>j\<ge>l. hops ss s v = Some j)"

lemma received_all:
  assumes "closed_graph ss" "v < length ss" "hops ss s v = Some k" "\<And>w. hops ss s w = Some (Suc k) \<Longrightarrow> W w"
  shows "received ss s W v = (dependency_of ss s v :: 'd::linordered_field)"
proof -
  have "((\<exists>j. hops ss s v = Some j \<and> hops ss s w = Some (Suc j)) \<and> W w) \<longleftrightarrow> hops ss s w = Some (Suc k)" for w
    using assms(3,4) by auto
  then show ?thesis
    unfolding dependency_recursion [OF assms(1-3)] received_def by simp
qed

lemma sum_list_one_more:
  assumes "\<not> W i"
  shows "(\<Sum>w\<leftarrow>ws. if c w \<and> (W w \<or> w = i) then f w else 0) =
    (\<Sum>w\<leftarrow>ws. if c w \<and> W w then f w else 0) + of_nat (if c i then count_list ws i else 0) * (f i :: 'a::semiring_1)"
  using assms by (induction ws) (auto simp: distrib_right add_ac)

lemma received_one_more:
  assumes "\<not> W i"
  shows "received ss s (\<lambda>w. W w \<or> w = i) v = received ss s W v + of_nat (pred_count ss s v i) *
    ((1 + dependency_of ss s i) * (of_nat (paths ss s v) / of_nat (paths ss s i)) :: 'd::linordered_field)"
  unfolding received_def pred_count_def sum_list_one_more [where W = W, OF assms]
  by (simp add: algebra_simps)

text \<open>The loop over the recorded predecessors of \<open>i\<close>.\<close>

lemma serial_preds_ok:
  assumes "i < n" "length dep = n" "\<forall>u\<in>set us. u < n \<and> u \<noteq> i" "length spc = n"
  shows "fold_res (serial_pred spc i) us dep = Inr (map (\<lambda>v. dep ! v + of_nat (count_list us v) *
    ((1 + dep ! i) * (of_int (spc ! v) / of_int (spc ! i)) :: 'd::linordered_field)) [0..<n])"
  using assms(3)
proof (induction us rule: rev_induct)
  case Nil
  show ?case using assms(2) by (auto intro!: nth_equalityI)
next
  case (snoc u us)
  define share where "share v = (1 + dep ! i) * (of_int (spc ! v) / of_int (spc ! i) :: 'd)" for v
  let ?dep = "map (\<lambda>v. dep ! v + of_nat (count_list us v) * share v) [0..<n]"
  have u: "u < n" "u \<noteq> i" and us: "\<forall>u\<in>set us. u < n \<and> u \<noteq> i" using snoc.prems by simp_all
  then have "count_list us i = 0" by (auto simp: count_list_0_iff)
  then have "?dep ! i = dep ! i" using assms(1) by simp
  then have "serial_pred spc i u ?dep = Inr (?dep[u := ?dep ! u + share u])"
    using u(1) assms(1,4) by (simp add: serial_pred_def share_def)
  also have "?dep[u := ?dep ! u + share u] = map (\<lambda>v. dep ! v + of_nat (count_list (us @ [u]) v) * share v) [0..<n]"
    using u(1) by (auto simp: map_upd_upt distrib_right add_ac)
  finally show ?case using snoc.IH [OF us] by (simp add: fold_res_append share_def)
qed

context graph_reading
begin

lemma serial_vertex_ok:
  assumes set: "serial_setting ss s"
    and found: "serial_found ss s L (q, predecessors, spc, distance, maxLevel)"
    and i: "hops ss s i = Some l" and W: "\<And>w. hops ss s w = Some (Suc l) \<Longrightarrow> W w" "\<not> W i"
    and inv: "serial_inv ss s W base st"
  shows "\<exists>st'. serial_vertex s predecessors spc distance (int l) i st = Inr st' \<and>
    serial_inv ss s (\<lambda>v. W v \<or> v = i) base (st' :: 'd::linordered_field list \<times> 'd list)"
proof -
  have closed: "closed_graph ss" "s < length ss" using set by (simp_all add: serial_setting_def)
  have ii: "i < length ss" by (rule hops_bound [OF closed i])
  obtain dep scores where st: "st = (dep, scores)" by (cases st)
  then have dep: "dep = map (received ss s W) [0..<length ss]"
    and scores: "scores = map (\<lambda>v. base ! v + (if W v \<and> v \<noteq> s then dependency_of ss s v else 0)) [0..<length ss]"
    using inv by (simp_all add: serial_inv_def)
  have at: "vec_get distance i = Inr (int l)" "vec_get predecessors i = Inr (predecessors ! i)"
    using found ii i by (simp_all add: serial_found_def)
  have spc: "spc = map (\<lambda>v. int (paths ss s v)) [0..<length ss]"
    and preds: "\<And>u. count_list (predecessors ! i) u = pred_count ss s u i"
    using found ii by (simp_all add: serial_found_def)
  have own: "dep ! i = dependency_of ss s i"
    using received_all [OF closed(1) ii i W(1), where 'd = 'd] ii by (simp add: dep)
  have "u < length ss \<and> u \<noteq> i" if "u \<in> set (predecessors ! i)" for u
  proof -
    have "pred_count ss s u i \<noteq> 0" using that unfolding preds [symmetric] by (simp add: count_list_0_iff)
    then show ?thesis using i hops_bound [OF closed, of u] by (auto simp: pred_count_def split: if_splits)
  qed
  then have "fold_res (serial_pred spc i) (predecessors ! i) dep = Inr (map (\<lambda>v. dep ! v +
      of_nat (count_list (predecessors ! i) v) * ((1 + dep ! i) * (of_int (spc ! v) / of_int (spc ! i)))) [0..<length ss])"
    by (intro serial_preds_ok) (simp_all add: ii dep spc)
  also have "\<dots> = Inr (map (received ss s (\<lambda>v. W v \<or> v = i)) [0..<length ss])"
    using ii by (simp add: received_one_more [where W = W, OF W(2)] preds own spc) (simp add: dep)
  finally have run: "fold_res (serial_pred spc i) (predecessors ! i) dep =
    Inr (map (received ss s (\<lambda>v. W v \<or> v = i)) [0..<length ss])" .
  have own': "received ss s (\<lambda>v. W v \<or> v = i) i = (dependency_of ss s i :: 'd)"
    using W(1) by (intro received_all [OF closed(1) ii i]) auto
  let ?scores = "if i \<noteq> s then scores[i := scores ! i + dependency_of ss s i] else scores"
  have "serial_vertex s predecessors spc distance (int l) i st =
      Inr (map (received ss s (\<lambda>v. W v \<or> v = i)) [0..<length ss], ?scores)"
    using at run ii own' by (simp add: serial_vertex_def st scores)
  moreover have "?scores = map (\<lambda>v. base ! v + (if (W v \<or> v = i) \<and> v \<noteq> s then dependency_of ss s v else 0)) [0..<length ss]"
    using W(2) ii by (auto simp: scores map_upd_upt)
  ultimately show ?thesis by (simp add: serial_inv_def)
qed

lemma serial_levels_ok:
  assumes set: "serial_setting ss s"
    and found: "serial_found ss s L (q, predecessors, spc, distance, maxLevel)" and "l \<le> Suc L"
    and inv: "serial_inv ss s (at_least ss s l) base st"
  shows "\<exists>st'. serial_levels (length ss) s predecessors spc distance l st = Inr st' \<and>
    serial_inv ss s (at_least ss s 0) base (st' :: 'd::linordered_field list \<times> 'd list)"
  using assms(3) inv
proof (induction l arbitrary: st)
  case (Suc l)
  have small: "int (length ss) < int_max" and closed: "closed_graph ss" "s < length ss"
    using set by (simp_all add: serial_setting_def)
  have "\<exists>st1. fold_res (serial_vertex s predecessors spc distance (int l)) [0..<length ss] st = Inr st1 \<and>
      serial_inv ss s (\<lambda>w. at_least ss s (Suc l) w \<or> (hops ss s w = Some l \<and> w \<in> set [0..<length ss])) base st1"
  proof (rule fold_res_rule)
    fix ys x zs and st1 :: "'d list \<times> 'd list"
    let ?W = "\<lambda>w. at_least ss s (Suc l) w \<or> (hops ss s w = Some l \<and> w \<in> set ys)"
    assume split: "[0..<length ss] = ys @ x # zs" and inv1: "serial_inv ss s ?W base st1"
    have "x \<in> set [0..<length ss]" unfolding split by simp
    then have xx: "x < length ss" by simp
    have "x \<notin> set ys" using distinct_upt [of 0 "length ss"] unfolding split by simp
    show "\<exists>st'. serial_vertex s predecessors spc distance (int l) x st1 = Inr st' \<and>
      serial_inv ss s (\<lambda>w. at_least ss s (Suc l) w \<or> (hops ss s w = Some l \<and> w \<in> set (ys @ [x]))) base st'"
    proof (cases "hops ss s x = Some l")
      case True
      have "\<not> ?W x" using True \<open>x \<notin> set ys\<close> by (auto simp: at_least_def)
      moreover have "?W w" if "hops ss s w = Some (Suc l)" for w using that by (auto simp: at_least_def)
      ultimately obtain st' where "serial_vertex s predecessors spc distance (int l) x st1 = Inr st'"
        "serial_inv ss s (\<lambda>v. ?W v \<or> v = x) base st'"
        using serial_vertex_ok [OF set found True, of ?W base st1] inv1 by blast
      moreover have "(\<lambda>v. ?W v \<or> v = x) =
          (\<lambda>w. at_least ss s (Suc l) w \<or> (hops ss s w = Some l \<and> w \<in> set (ys @ [x])))"
        using True by auto
      ultimately show ?thesis by auto
    next
      case False
      have "l < length ss" using Suc.prems(1) found by (simp add: serial_found_def)
      have "distance ! x \<noteq> int l"
      proof (cases "hops ss s x")
        case None
        then show ?thesis using \<open>l < length ss\<close> found xx small by (simp add: serial_found_def)
      qed (use False found xx in \<open>auto simp: serial_found_def\<close>)
      then have "serial_vertex s predecessors spc distance (int l) x st1 = Inr st1"
        using found xx by (cases st1) (simp add: serial_vertex_def serial_found_def)
      moreover have "?W = (\<lambda>w. at_least ss s (Suc l) w \<or> (hops ss s w = Some l \<and> w \<in> set (ys @ [x])))"
        using False by auto
      ultimately show ?thesis using inv1 by simp
    qed
  qed (use Suc.prems(2) in simp)
  moreover have "(\<lambda>w. at_least ss s (Suc l) w \<or> (hops ss s w = Some l \<and> w \<in> set [0..<length ss])) = at_least ss s l"
    using hops_bound [OF closed] by (fastforce simp: at_least_def fun_eq_iff le_eq_less_or_eq Suc_le_eq)
  ultimately obtain st1 where "fold_res (serial_vertex s predecessors spc distance (int l)) [0..<length ss] st = Inr st1"
    and "serial_inv ss s (at_least ss s l) base st1" by auto
  with Suc.IH [of st1] Suc.prems(1) show ?case by simp
qed simp

lemma serial_source_ok:
  assumes g: "ginv g" and set: "serial_setting (succs g) s" and base: "length base = length (succs g)"
  shows "serial_source ops g s base = Inr (map (\<lambda>v. base ! v +
    (if s = v then 0 else dependency_of (succs g) s v :: 'd::linordered_field)) [0..<length (succs g)])"
proof -
  let ?ss = "succs g"
  obtain L q predecessors spc distance maxLevel where
    search: "bfs_shortest_paths ops g s (replicate (length ?ss) []) (replicate (length ?ss) 0)
      (replicate (length ?ss) int_max) = Inr (q, predecessors, spc, distance, maxLevel)"
    and found: "serial_found ?ss s L (q, predecessors, spc, distance, maxLevel)"
    using bfs_shortest_paths_ok [OF g set] by (metis prod_cases5)
  have top: "nat (maxLevel + 1) = Suc L" using found by (simp add: serial_found_def)
  have none: "\<not> at_least ?ss s (Suc L) v" for v
    using found by (fastforce simp: serial_found_def at_least_def)
  have "received ?ss s (at_least ?ss s (Suc L)) v = (0 :: 'd)" for v
    using none by (simp add: received_def sum_list_0)
  then have "serial_inv ?ss s (at_least ?ss s (Suc L)) base (replicate (length ?ss) (0 :: 'd), base)"
    using base none by (auto simp: serial_inv_def intro!: nth_equalityI)
  from serial_levels_ok [OF set found order_refl this] obtain dep scores where
    run: "serial_levels (length ?ss) s predecessors spc distance (Suc L) (replicate (length ?ss) 0, base) =
      Inr (dep, scores)" and inv: "serial_inv ?ss s (at_least ?ss s 0) base (dep, scores)"
    by (metis prod.exhaust)
  have "(if at_least ?ss s 0 v \<and> v \<noteq> s then dependency_of ?ss s v else 0) =
      (if s = v then 0 else dependency_of ?ss s v :: 'd)" for v
    using dependency_unreachable [of ?ss s v, where 'd = 'd] by (cases "hops ?ss s v") (auto simp: at_least_def)
  then show ?thesis
    using search run inv top by (simp add: serial_source_def size_law [OF g] serial_inv_def)
qed

theorem serial_compute_ok:
  assumes g: "ginv g" and set: "\<forall>s<length (succs g). serial_setting (succs g) s"
  shows "serial_compute ops g = Inr (map (betweenness (succs g) [0..<length (succs g)]) [0..<length (succs g)] ::
    'd::linordered_field list)"
proof -
  let ?n = "length (succs g)"
  have "\<exists>scores. fold_res (serial_source ops g) [0..<?n] (replicate ?n (0 :: 'd)) = Inr scores \<and>
      scores = map (betweenness (succs g) [0..<?n]) [0..<?n]"
  proof (rule fold_res_rule [where P = "\<lambda>ys scores. scores = map (betweenness (succs g) ys) [0..<?n]"])
    fix ys x zs and scores :: "'d list"
    assume split: "[0..<?n] = ys @ x # zs" and scores: "scores = map (betweenness (succs g) ys) [0..<?n]"
    have "x \<in> set [0..<?n]" unfolding split by simp
    then have x: "serial_setting (succs g) x" using set by simp
    have "length scores = ?n" by (simp add: scores)
    from serial_source_ok [OF g x this]
    show "\<exists>scores'. serial_source ops g x scores = Inr scores' \<and>
        scores' = map (betweenness (succs g) (ys @ [x])) [0..<?n]"
      by (simp add: betweenness_def scores)
  qed (auto simp: betweenness_def intro!: nth_equalityI)
  then show ?thesis by (simp add: serial_compute_def size_law [OF g])
qed

end

end
