(* ===== verification/BcParallel.thy ===== *)
theory BcParallel
  imports BcScores
begin

text \<open>
  The iterations of one level of \<open>levelSSSP\<close> interleaved access by access. Each iteration is
  a task: it asserts the level of its vertex, and for each edge it reads the distance of the
  destination once or twice, may compare and swap it, may push the destination on the next work
  list, and adds its own path count to the destination's. Between two accesses of a task any
  other task may run. Accesses are sequentially consistent; a push on a bag and an atomic
  addition are one access each.
\<close>

section \<open>Tasks and their accesses\<close>

datatype bc_task =
    Enter nat
  | Look nat "nat list"
  | Relook nat nat "nat list"
  | Cas nat nat "nat list"
  | Emplace nat nat "nat list"
  | Count nat nat "nat list"
  | Add nat nat nat "nat list"

type_synonym bc_config = "bc_task list \<times> sssp_state"

fun bc_access :: "'g graph_ops \<Rightarrow> 'g \<Rightarrow> nat \<Rightarrow> bc_task \<Rightarrow> sssp_state \<Rightarrow>
    (bc_task \<times> sssp_state) res" where
  "bc_access ops g currentLevel (Enter n) (distance, spc, stack) =
     res_bind (vec_get distance n) (\<lambda>d.
       if d \<noteq> currentLevel then Inl AssertFailed
       else res_map (\<lambda>dests. (Look n dests, distance, spc, stack)) (g_for_each_edge ops g n))"
| "bc_access ops g currentLevel (Look n []) st = Inr (Look n [], st)"
| "bc_access ops g currentLevel (Look n (dest # ds)) (distance, spc, stack) =
     res_map (\<lambda>d. (if d = infinity then Cas n dest ds else Relook n dest ds, distance, spc, stack))
       (vec_get distance dest)"
| "bc_access ops g currentLevel (Relook n dest ds) (distance, spc, stack) =
     res_map (\<lambda>d. (if d = u64_add currentLevel 1 then Count n dest ds else Look n ds,
       distance, spc, stack)) (vec_get distance dest)"
| "bc_access ops g currentLevel (Cas n dest ds) (distance, spc, stack) =
     res_map (\<lambda>(oldVal, distance'). (if oldVal = infinity then Emplace n dest ds else Count n dest ds,
       distance', spc, stack)) (compare_and_swap distance dest infinity (u64_add currentLevel 1))"
| "bc_access ops g currentLevel (Emplace n dest ds) (distance, spc, stack) =
     res_map (\<lambda>stack'. (Count n dest ds, distance, spc, stack'))
       (vec_update stack (u64_add currentLevel 1) (\<lambda>bag. bag @ [dest]))"
| "bc_access ops g currentLevel (Count n dest ds) (distance, spc, stack) =
     res_map (\<lambda>c. (Add n dest c ds, distance, spc, stack)) (vec_get spc n)"
| "bc_access ops g currentLevel (Add n dest c ds) (distance, spc, stack) =
     res_map (\<lambda>spc'. (Look n ds, distance, spc', stack)) (vec_update spc dest (\<lambda>x. u64_add x c))"

fun bc_done :: "bc_task \<Rightarrow> bool" where
  "bc_done (Look n []) \<longleftrightarrow> True"
| "bc_done t \<longleftrightarrow> False"

text \<open>An access that fails is no step, so a configuration that must perform one is stuck.\<close>

inductive bc_step :: "'g graph_ops \<Rightarrow> 'g \<Rightarrow> nat \<Rightarrow> bc_config \<Rightarrow> bc_config \<Rightarrow> bool"
  for ops g currentLevel where
  access: "i < length ts \<Longrightarrow> \<not> bc_done (ts ! i) \<Longrightarrow>
    bc_access ops g currentLevel (ts ! i) st = Inr (t, st') \<Longrightarrow>
    bc_step ops g currentLevel (ts, st) (ts[i := t], st')"

inductive_cases bc_stepE: "bc_step ops g currentLevel (ts, st) c"

definition bc_finished :: "bc_config \<Rightarrow> bool" where
  "bc_finished c \<longleftrightarrow> (\<forall>t\<in>set (fst c). bc_done t)"

text \<open>A run of the loop over the levels: each level runs some interleaving to its end.\<close>

inductive bc_search :: "'g graph_ops \<Rightarrow> 'g \<Rightarrow> nat \<Rightarrow> sssp_state \<Rightarrow> sssp_state \<Rightarrow> bool"
  for ops g where
  no_more: "vec_get stack currentLevel = Inr [] \<Longrightarrow>
    bc_search ops g currentLevel (distance, spc, stack) (distance, spc, stack)"
| one_level: "vec_get stack currentLevel = Inr bag \<Longrightarrow> bag \<noteq> [] \<Longrightarrow>
    (bc_step ops g currentLevel)\<^sup>*\<^sup>* (map Enter bag, distance, spc, stack @ [[]]) (ts, st) \<Longrightarrow>
    bc_finished (ts, st) \<Longrightarrow> bc_search ops g (u64_add currentLevel 1) st r \<Longrightarrow>
    bc_search ops g currentLevel (distance, spc, stack) r"

text \<open>The configurations a search from \<open>s\<close> can be in, with their level.\<close>

inductive bc_reachable :: "'g graph_ops \<Rightarrow> 'g \<Rightarrow> nat \<Rightarrow> nat \<Rightarrow> bc_config \<Rightarrow> bool"
  for ops g s where
  first_level: "vec_set (replicate (g_size ops g) infinity) s 0 = Inr d \<Longrightarrow>
    vec_set (replicate (g_size ops g) 0) s 1 = Inr c \<Longrightarrow>
    bc_reachable ops g s 0 (map Enter [s], d, c, [[s]] @ [[]])"
| next_access: "bc_reachable ops g s l cfg \<Longrightarrow> bc_step ops g l cfg cfg' \<Longrightarrow> bc_reachable ops g s l cfg'"
| next_level: "bc_reachable ops g s l (ts, distance, spc, stack) \<Longrightarrow>
    bc_finished (ts, distance, spc, stack) \<Longrightarrow> vec_get stack (u64_add l 1) = Inr bag \<Longrightarrow> bag \<noteq> [] \<Longrightarrow>
    bc_reachable ops g s (u64_add l 1) (map Enter bag, distance, spc, stack @ [[]])"

text \<open>One source with an interleaved search, all sources, and the whole computation.\<close>

inductive racy_source :: "'g graph_ops \<Rightarrow> galois_rt \<Rightarrow> 'g \<Rightarrow> nat \<Rightarrow> 'd::linordered_field bc_state \<Rightarrow>
    'd bc_state \<Rightarrow> bool"
  for ops rt g s where
  "do_all rt s reset_vertex [0..<g_size ops g] (distance, spc, dependency) = Inr (d, c, dep) \<Longrightarrow>
    vec_set d s 0 = Inr d' \<Longrightarrow> vec_set c s 1 = Inr c' \<Longrightarrow> bc_search ops g 0 (d', c', [[s]]) found \<Longrightarrow>
    accumulate ops rt g found (dep, scores) = Inr st \<Longrightarrow>
    racy_source ops rt g s (distance, spc, dependency, scores) st"

inductive racy_sources :: "'g graph_ops \<Rightarrow> galois_rt \<Rightarrow> 'g \<Rightarrow> nat list \<Rightarrow> 'd::linordered_field bc_state \<Rightarrow>
    'd bc_state \<Rightarrow> bool"
  for ops rt g where
  no_source: "racy_sources ops rt g [] st st"
| next_source: "racy_source ops rt g s st st1 \<Longrightarrow> racy_sources ops rt g ss st1 st2 \<Longrightarrow>
    racy_sources ops rt g (s # ss) st st2"

inductive racy_compute :: "'g graph_ops \<Rightarrow> galois_rt \<Rightarrow> (nat \<Rightarrow> nat list \<Rightarrow> nat list) \<Rightarrow> 'g \<Rightarrow> nat \<Rightarrow>
    nat \<Rightarrow> 'd::linordered_field list \<Rightarrow> bool"
  for ops rt shuffle g rseed num_src where
  "select_sources rt shuffle (g_size ops g) rseed num_src = Inr sources \<Longrightarrow>
    racy_sources ops rt g sources
      (replicate (g_size ops g) infinity, replicate (g_size ops g) 0,
       replicate (g_size ops g) 0, replicate (g_size ops g) 0)
      (distance, spc, dependency, scores) \<Longrightarrow>
    racy_compute ops rt shuffle g rseed num_src scores"

inductive_simps racy_source_iff: "racy_source ops rt g s (distance, spc, dependency, scores) st"
inductive_simps racy_compute_iff: "racy_compute ops rt shuffle g rseed num_src scores"
inductive_cases racy_sources_NilE: "racy_sources ops rt g [] st st'"
inductive_cases racy_sources_ConsE: "racy_sources ops rt g (s # ss) st st'"

section \<open>The invariant of a level\<close>

fun vertex_of :: "bc_task \<Rightarrow> nat" where
  "vertex_of (Enter n) = n"
| "vertex_of (Look n ds) = n"
| "vertex_of (Relook n d ds) = n"
| "vertex_of (Cas n d ds) = n"
| "vertex_of (Emplace n d ds) = n"
| "vertex_of (Count n d ds) = n"
| "vertex_of (Add n d c ds) = n"

text \<open>The edges whose paths the task has not added yet.\<close>

fun edges_left :: "nat list list \<Rightarrow> bc_task \<Rightarrow> nat list" where
  "edges_left ss (Enter n) = ss ! n"
| "edges_left ss (Look n ds) = ds"
| "edges_left ss (Relook n d ds) = d # ds"
| "edges_left ss (Cas n d ds) = d # ds"
| "edges_left ss (Emplace n d ds) = d # ds"
| "edges_left ss (Count n d ds) = d # ds"
| "edges_left ss (Add n d c ds) = d # ds"

definition owed :: "nat list list \<Rightarrow> nat \<Rightarrow> nat \<Rightarrow> bc_task \<Rightarrow> nat" where
  "owed ss s v t = paths ss s (vertex_of t) * count_list (edges_left ss t) v"

fun emplaces :: "nat \<Rightarrow> bc_task \<Rightarrow> nat" where
  "emplaces v (Emplace n d ds) = (if d = v then 1 else 0)"
| "emplaces v t = 0"

text \<open>What a task has learnt about the destination it works on.\<close>

fun learnt :: "nat list list \<Rightarrow> nat \<Rightarrow> nat \<Rightarrow> nat list \<Rightarrow> bc_task \<Rightarrow> bool" where
  "learnt ss s l distance (Relook n d ds) \<longleftrightarrow> distance ! d \<noteq> infinity"
| "learnt ss s l distance (Cas n d ds) \<longleftrightarrow> \<not> near ss s l d"
| "learnt ss s l distance (Emplace n d ds) \<longleftrightarrow> \<not> near ss s l d \<and> distance ! d \<noteq> infinity"
| "learnt ss s l distance (Count n d ds) \<longleftrightarrow> \<not> near ss s l d \<and> distance ! d \<noteq> infinity"
| "learnt ss s l distance (Add n d c ds) \<longleftrightarrow>
     \<not> near ss s l d \<and> distance ! d \<noteq> infinity \<and> c = paths ss s n"
| "learnt ss s l distance t \<longleftrightarrow> True"

definition bc_task_ok :: "nat list list \<Rightarrow> nat \<Rightarrow> nat \<Rightarrow> nat list \<Rightarrow> bc_task \<Rightarrow> bool" where
  "bc_task_ok ss s l distance t \<longleftrightarrow> hops ss s (vertex_of t) = Some l \<and>
     set (edges_left ss t) \<subseteq> set (ss ! vertex_of t) \<and> learnt ss s l distance t"

definition discovered :: "nat list list \<Rightarrow> nat \<Rightarrow> nat \<Rightarrow> nat list \<Rightarrow> nat \<Rightarrow> nat" where
  "discovered ss s l distance v =
     (if v < length ss \<and> \<not> near ss s l v \<and> distance ! v \<noteq> infinity then 1 else 0)"

text \<open>The array of distances and the path counts, away from what is still owed.\<close>

definition values_ok :: "nat list list \<Rightarrow> nat \<Rightarrow> nat \<Rightarrow> nat list \<Rightarrow> nat list \<Rightarrow> nat \<Rightarrow> bool" where
  "values_ok ss s l distance spc v \<longleftrightarrow>
     (if near ss s l v then distance ! v = the (hops ss s v) \<and> spc ! v = paths ss s v
      else if distance ! v = infinity then spc ! v = 0
      else distance ! v = Suc l \<and> hops ss s v = Some (Suc l))"

text \<open>
  For a vertex beyond the level, the paths counted and the paths still owed add up to all paths
  over the edges of the level; it has been discovered exactly if it is in the next work list
  or some task is about to push it, and once only.
\<close>

definition search_inv :: "nat list list \<Rightarrow> nat \<Rightarrow> nat \<Rightarrow> nat list \<Rightarrow> bc_config \<Rightarrow> bool" where
  "search_inv ss s l cur c \<longleftrightarrow> (case c of (ts, distance, spc, stack) \<Rightarrow>
     map vertex_of ts = cur \<and> length distance = length ss \<and> length spc = length ss \<and>
     length stack = Suc (Suc l) \<and> levels_known ss s l stack \<and>
     (\<forall>t\<in>set ts. bc_task_ok ss s l distance t) \<and>
     (\<forall>v<length ss. values_ok ss s l distance spc v) \<and>
     (\<forall>v<length ss. \<not> near ss s l v \<longrightarrow>
        spc ! v + (\<Sum>t\<leftarrow>ts. owed ss s v t) = paths_in ss s (level_events ss cur) v) \<and>
     (\<forall>v. count_list (stack ! Suc l) v + (\<Sum>t\<leftarrow>ts. emplaces v t) = discovered ss s l distance v))"

text \<open>\<open>task_work\<close> bounds the accesses a task still makes: five for each edge.\<close>

fun task_work :: "nat list list \<Rightarrow> bc_task \<Rightarrow> nat" where
  "task_work ss (Enter n) = 5 * length (ss ! n) + 1"
| "task_work ss (Look n ds) = 5 * length ds"
| "task_work ss (Relook n d ds) = 5 * length ds + 3"
| "task_work ss (Cas n d ds) = 5 * length ds + 4"
| "task_work ss (Emplace n d ds) = 5 * length ds + 3"
| "task_work ss (Count n d ds) = 5 * length ds + 2"
| "task_work ss (Add n d c ds) = 5 * length ds + 1"

definition bc_work :: "nat list list \<Rightarrow> bc_config \<Rightarrow> nat" where
  "bc_work ss c = (\<Sum>t\<leftarrow>fst c. task_work ss t)"

lemma sum_list_map_update:
  fixes f :: "'a \<Rightarrow> nat"
  assumes "i < length ts"
  shows "(\<Sum>x\<leftarrow>ts[i := t]. f x) + f (ts ! i) = (\<Sum>x\<leftarrow>ts. f x) + f t"
proof -
  have "f (ts ! i) \<le> (\<Sum>x\<leftarrow>ts. f x)"
    using elem_le_sum_list [of i "map f ts"] assms by simp
  then show ?thesis using sum_list_update [of i "map f ts" "f t"] assms by (simp add: map_update)
qed

lemma bc_task_ok_mono:
  assumes "bc_task_ok ss s l distance t"
    and "\<And>v. distance ! v \<noteq> infinity \<Longrightarrow> distance' ! v = distance ! v"
  shows "bc_task_ok ss s l distance' t"
proof -
  have "learnt ss s l distance t \<Longrightarrow> learnt ss s l distance' t" using assms(2) by (cases t) auto
  then show ?thesis using assms(1) by (simp add: bc_task_ok_def)
qed

text \<open>
  One access keeps the invariant if it moves what it takes from the account of its task into
  the arrays: distances only change from infinity, and only there a new discovery is owed.
\<close>

lemma search_inv_access:
  assumes inv: "search_inv ss s l cur (ts, distance, spc, stack)" and i: "i < length ts"
    and len: "length distance' = length distance" "length spc' = length spc" "length stack' = length stack"
    and below: "\<And>k. k \<le> l \<Longrightarrow> stack' ! k = stack ! k"
    and vertex: "vertex_of t = vertex_of (ts ! i)"
    and grow: "\<And>v. distance ! v \<noteq> infinity \<Longrightarrow> distance' ! v = distance ! v"
    and ok: "bc_task_ok ss s l distance' t"
    and vals: "\<And>v. v < length ss \<Longrightarrow> values_ok ss s l distance' spc' v"
    and paid: "\<And>v. v < length ss \<Longrightarrow> \<not> near ss s l v \<Longrightarrow>
      spc' ! v + owed ss s v t = spc ! v + owed ss s v (ts ! i)"
    and pushed: "\<And>v. count_list (stack' ! Suc l) v + emplaces v t + discovered ss s l distance v =
      count_list (stack ! Suc l) v + emplaces v (ts ! i) + discovered ss s l distance' v"
  shows "search_inv ss s l cur (ts[i := t], distance', spc', stack')"
proof -
  note inv = inv [unfolded search_inv_def prod.case]
  have "map vertex_of (ts[i := t]) = cur"
    using inv vertex i by (metis list_update_id map_update nth_map)
  moreover have "levels_known ss s l stack'" using inv below by (simp add: levels_known_def)
  moreover have "bc_task_ok ss s l distance' x" if "x \<in> set (ts[i := t])" for x
  proof -
    have "x = t \<or> x \<in> set ts" using that set_update_subset_insert [of ts i t] by blast
    moreover have "bc_task_ok ss s l distance' x" if "x \<in> set ts"
      using inv that bc_task_ok_mono [OF _ grow] by blast
    ultimately show ?thesis using ok by blast
  qed
  moreover have "spc' ! v + (\<Sum>x\<leftarrow>ts[i := t]. owed ss s v x) = paths_in ss s (level_events ss cur) v"
    if v: "v < length ss" "\<not> near ss s l v" for v
  proof -
    have "spc ! v + (\<Sum>x\<leftarrow>ts. owed ss s v x) = paths_in ss s (level_events ss cur) v"
      using inv v by simp
    then show ?thesis
      using paid [OF v] sum_list_map_update [OF i, where f = "owed ss s v" and t = t] by linarith
  qed
  moreover have "count_list (stack' ! Suc l) v + (\<Sum>x\<leftarrow>ts[i := t]. emplaces v x) =
    discovered ss s l distance' v" for v
  proof -
    have "count_list (stack ! Suc l) v + (\<Sum>x\<leftarrow>ts. emplaces v x) = discovered ss s l distance v"
      using inv by simp
    then show ?thesis
      using pushed [of v] sum_list_map_update [OF i, where f = "emplaces v" and t = t] by linarith
  qed
  ultimately show ?thesis using inv len vals by (simp add: search_inv_def)
qed

lemma search_inv_start:
  assumes set: "bc_setting ss s" and inv: "sssp_inv ss s l (distance, spc, stack)"
  shows "search_inv ss s l (stack ! l) (map Enter (stack ! l), distance, spc, stack @ [[]])"
proof -
  note inv = inv [unfolded sssp_inv_def prod.case]
  have bag: "set (stack ! l) = {u. hops ss s u = Some l}" using inv by (simp add: levels_known_def)
  have "spc ! v + (\<Sum>t\<leftarrow>map Enter (stack ! l). owed ss s v t) =
      paths_in ss s (level_events ss (stack ! l)) v" if "v < length ss" "\<not> near ss s l v" for v
    using inv that by (simp add: paths_in_events owed_def o_def)
  moreover have "(\<Sum>t\<leftarrow>map Enter us. emplaces v t) = 0" for us v by (induction us) auto
  ultimately show ?thesis
    using inv bag unfolding search_inv_def prod.case
    by (auto simp: levels_known_snoc nth_append bc_task_ok_def values_ok_def discovered_def o_def)
qed

lemma search_inv_end:
  assumes set: "bc_setting ss s" and us: "distinct us" "set us = {u. hops ss s u = Some l}" "us \<noteq> []"
    and inv: "search_inv ss s l us (ts, st)" and fin: "bc_finished (ts, st)"
    and prev: "\<forall>k<l. \<exists>v. hops ss s v = Some k"
  shows "sssp_inv ss s (Suc l) st"
proof -
  have closed: "closed_graph ss" "s < length ss" using set by (simp_all add: bc_setting_def)
  obtain distance spc stack where st: "st = (distance, spc, stack)" by (cases st)
  note inv = inv [unfolded search_inv_def st prod.case]
  have idle: "owed ss s v t = 0 \<and> emplaces v t = 0" if "t \<in> set ts" for v t
    using fin that by (cases t rule: bc_done.cases) (auto simp: bc_finished_def owed_def)
  have none: "(\<Sum>t\<leftarrow>ts. owed ss s v t) = 0" "(\<Sum>t\<leftarrow>ts. emplaces v t) = 0" for v
    using idle by (auto intro!: sum_list_0)
  have level: "hops ss s v = Some (Suc l) \<longleftrightarrow> \<not> near ss s l v \<and> distance ! v \<noteq> infinity"
    "distance ! v = (if near ss s (Suc l) v then the (hops ss s v) else infinity) \<and>
     spc ! v = (if near ss s (Suc l) v then paths ss s v else 0)" if v: "v < length ss" for v
  proof -
    have count: "spc ! v = paths_in ss s (level_events ss us) v" if "\<not> near ss s l v"
      using inv v that none by simp
    have next_level: "spc ! v = paths ss s v \<and> 0 < spc ! v \<and> \<not> near ss s l v"
      if "hops ss s v = Some (Suc l)"
      using count paths_in_level [OF closed us(1,2) that] paths_pos [OF that] that
      by (simp add: near_def)
    have val: "values_ok ss s l distance spc v" using inv v by simp
    consider "near ss s l v" | "\<not> near ss s l v" "distance ! v = infinity"
      | "\<not> near ss s l v" "distance ! v \<noteq> infinity" by blast
    then have "(hops ss s v = Some (Suc l) \<longleftrightarrow> \<not> near ss s l v \<and> distance ! v \<noteq> infinity) \<and>
      distance ! v = (if near ss s (Suc l) v then the (hops ss s v) else infinity) \<and>
      spc ! v = (if near ss s (Suc l) v then paths ss s v else 0)"
    proof cases
      case 1
      then have "hops ss s v \<noteq> Some (Suc l)" using next_level by blast
      then show ?thesis using 1 val by (simp add: values_ok_def near_Suc)
    next
      case 2
      then have "spc ! v = 0" using val by (simp add: values_ok_def)
      then have "hops ss s v \<noteq> Some (Suc l)" using next_level by force
      then show ?thesis using 2 \<open>spc ! v = 0\<close> by (simp add: near_Suc)
    next
      case 3
      then have "hops ss s v = Some (Suc l)" "distance ! v = Suc l"
        using val by (simp_all add: values_ok_def)
      then show ?thesis using 3 next_level by (simp add: near_Suc)
    qed
    then show "hops ss s v = Some (Suc l) \<longleftrightarrow> \<not> near ss s l v \<and> distance ! v \<noteq> infinity"
      "distance ! v = (if near ss s (Suc l) v then the (hops ss s v) else infinity) \<and>
       spc ! v = (if near ss s (Suc l) v then paths ss s v else 0)"
      by blast+
  qed
  have bag: "count_list (stack ! Suc l) v = (if hops ss s v = Some (Suc l) then 1 else 0)" for v
  proof -
    have "\<forall>v. count_list (stack ! Suc l) v + (\<Sum>t\<leftarrow>ts. emplaces v t) = discovered ss s l distance v"
      using inv by blast
    then have "count_list (stack ! Suc l) v = discovered ss s l distance v"
      using none(2) [of v] by (metis add.right_neutral)
    then show ?thesis
      using level(1) [of v] hops_bound [OF closed, of v "Suc l"]
      by (cases "v < length ss") (auto simp: discovered_def)
  qed
  have in_bag: "v \<in> set (stack ! Suc l) \<longleftrightarrow> hops ss s v = Some (Suc l)" for v
    using bag [of v] count_list_0_iff [of "stack ! Suc l" v] by (auto split: if_splits)
  then have "set (stack ! Suc l) = {v. hops ss s v = Some (Suc l)}" by blast
  moreover have "distinct (stack ! Suc l)"
    unfolding distinct_count_atmost_1 count_mset using bag in_bag by simp
  ultimately have "levels_known ss s (Suc l) stack"
    using inv by (auto simp: levels_known_def le_Suc_eq)
  moreover have "\<exists>v. hops ss s v = Some l" using us by (auto simp: neq_Nil_conv)
  ultimately show ?thesis
    using inv level(2) prev by (auto simp: st sssp_inv_def less_Suc_eq)
qed

end
