(* ===== verification/BcRaces.thy ===== *)
theory BcRaces
  imports BcParallel
begin

text \<open>
  The interleaved search of betweenness centrality is correct: no access of a level fails, every
  access keeps the invariant of \<open>BcParallel\<close> and leaves less to do, a finished level is what the
  next one starts from, and whatever the interleaving, \<open>compute\<close> returns the betweenness.
\<close>

section \<open>One access\<close>

text \<open>What the task at \<open>i\<close> may rely on.\<close>

lemma search_inv_task:
  assumes "bc_setting ss s" and "search_inv ss s l cur (ts, distance, spc, stack)" and "i < length ts"
  shows "bc_task_ok ss s l distance (ts ! i)" and "vertex_of (ts ! i) < length ss"
    and "d \<in> set (edges_left ss (ts ! i)) \<Longrightarrow> d < length ss"
    and "d \<in> set (edges_left ss (ts ! i)) \<Longrightarrow> \<not> near ss s l d \<Longrightarrow> hops ss s d = Some (Suc l)"
    and "length distance = length ss" "length spc = length ss" "length stack = Suc (Suc l)"
    and "v < length ss \<Longrightarrow> values_ok ss s l distance spc v"
    and "u64_add l 1 = Suc l" "Suc l < infinity"
proof -
  have closed: "closed_graph ss" "s < length ss" and small: "length ss < infinity"
    using assms(1) by (simp_all add: bc_setting_def)
  note inv = assms(2) [unfolded search_inv_def prod.case]
  show ok: "bc_task_ok ss s l distance (ts ! i)" using inv assms(3) by (simp add: nth_mem)
  then have here: "hops ss s (vertex_of (ts ! i)) = Some l"
    and sub: "set (edges_left ss (ts ! i)) \<subseteq> set (ss ! vertex_of (ts ! i))"
    by (simp_all add: bc_task_ok_def)
  show v: "vertex_of (ts ! i) < length ss" by (rule hops_bound [OF closed here])
  show "d \<in> set (edges_left ss (ts ! i)) \<Longrightarrow> d < length ss"
    using closed_graphD [OF closed(1) v] sub by blast
  show "d \<in> set (edges_left ss (ts ! i)) \<Longrightarrow> \<not> near ss s l d \<Longrightarrow> hops ss s d = Some (Suc l)"
    using far_succ [OF here _ v] sub by blast
  show "length distance = length ss" "length spc = length ss" "length stack = Suc (Suc l)"
    "v < length ss \<Longrightarrow> values_ok ss s l distance spc v" using inv by simp_all
  have "l < length ss" by (rule hops_less_size [OF closed here])
  then show "u64_add l 1 = Suc l" "Suc l < infinity"
    using small by (simp_all add: u64_add_small infinity_def)
qed

text \<open>An addition does not wrap: all paths to the destination fit.\<close>

lemma search_inv_room:
  assumes set: "bc_setting ss s" and us: "distinct cur" "set cur = {u. hops ss s u = Some l}"
    and inv: "search_inv ss s l cur (ts, distance, spc, stack)" and i: "i < length ts"
    and t: "ts ! i = Add n d c ds"
  shows "u64_add (spc ! d) c = spc ! d + c"
proof -
  have closed: "closed_graph ss" "s < length ss" and fit: "paths ss s d \<le> u64_max"
    using set by (simp_all add: bc_setting_def)
  note here = search_inv_task [OF set inv i, unfolded t]
  have far: "\<not> near ss s l d" and c: "c = paths ss s n"
    using here(1) by (simp_all add: bc_task_ok_def)
  have d: "d < length ss" "hops ss s d = Some (Suc l)" using here(3,4) far by simp_all
  have "spc ! d + (\<Sum>t\<leftarrow>ts. owed ss s d t) = paths ss s d"
    using inv d(1) far paths_in_level [OF closed us d(2)] by (simp add: search_inv_def)
  moreover have "owed ss s d (ts ! i) \<le> (\<Sum>t\<leftarrow>ts. owed ss s d t)"
    using elem_le_sum_list [of i "map (owed ss s d) ts"] i by simp
  moreover have "c \<le> owed ss s d (ts ! i)" by (simp add: owed_def t c)
  ultimately have "spc ! d + c \<le> u64_max" using fit by linarith
  then show ?thesis by (rule u64_add_small)
qed

text \<open>The search from a source, as \<open>level_sssp\<close> starts it.\<close>

lemma bc_search_starts:
  assumes "bc_setting ss s"
  shows "sssp_inv ss s 0 ((replicate (length ss) infinity)[s := 0], (replicate (length ss) 0)[s := 1], [[s]])"
  using assms hops_0_iff
  by (auto simp: sssp_inv_def levels_known_def near_def nth_list_update bc_setting_def hops_source)

context graph_reading
begin

text \<open>No access of a level fails, and every access keeps the invariant.\<close>

lemma bc_access_ok:
  assumes g: "ginv g" and set: "bc_setting (succs g) s"
    and us: "distinct cur" "set cur = {u. hops (succs g) s u = Some l}"
    and inv: "search_inv (succs g) s l cur (ts, distance, spc, stack)" and i: "i < length ts"
  shows "\<exists>t st. bc_access ops g l (ts ! i) (distance, spc, stack) = Inr (t, st) \<and>
    search_inv (succs g) s l cur (ts[i := t], st)"
proof (cases "ts ! i")
  case (Enter n)
  note here = search_inv_task [OF set inv i, unfolded Enter]
  have n: "n < length (succs g)" "hops (succs g) s n = Some l"
    using here(1,2) by (simp_all add: bc_task_ok_def)
  have "distance ! n = l" using here(8) [OF n(1)] n(2) near_level [OF n(2)] by (simp add: values_ok_def)
  then have "bc_access ops g l (ts ! i) (distance, spc, stack) =
      Inr (Look n (succs g ! n), distance, spc, stack)"
    using n(1) here(5) edges_law [OF g n(1)] by (simp add: Enter)
  moreover have "search_inv (succs g) s l cur (ts[i := Look n (succs g ! n)], distance, spc, stack)"
    by (rule search_inv_access [OF inv i]) (use here in \<open>simp_all add: Enter bc_task_ok_def owed_def\<close>)
  ultimately show ?thesis by blast
next
  case (Look n dests)
  note here = search_inv_task [OF set inv i, unfolded Look]
  show ?thesis
  proof (cases dests)
    case Nil
    then show ?thesis using inv Look by (metis bc_access.simps(2) list_update_id)
  next
    case (Cons d ds)
    let ?t = "if distance ! d = infinity then Cas n d ds else Relook n d ds"
    have d: "d < length (succs g)" using here(3) Cons by simp
    have "bc_access ops g l (ts ! i) (distance, spc, stack) = Inr (?t, distance, spc, stack)"
      using d here(5) by (simp add: Look Cons)
    moreover have "\<not> near (succs g) s l d" if "distance ! d = infinity"
    proof
      assume near: "near (succs g) s l d"
      then have "the (hops (succs g) s d) = infinity" using here(8) [OF d] that by (simp add: values_ok_def)
      then show False using near here(10) by (auto simp: near_def)
    qed
    then have "search_inv (succs g) s l cur (ts[i := ?t], distance, spc, stack)"
      by (intro search_inv_access [OF inv i]) (use here Cons in \<open>auto simp: Look bc_task_ok_def owed_def\<close>)
    ultimately show ?thesis by blast
  qed
next
  case (Relook n d ds)
  note here = search_inv_task [OF set inv i, unfolded Relook]
  let ?t = "if distance ! d = Suc l then Count n d ds else Look n ds"
  have d: "d < length (succs g)" using here(3) by simp
  have val: "values_ok (succs g) s l distance spc d" by (rule here(8) [OF d])
  have run: "bc_access ops g l (ts ! i) (distance, spc, stack) = Inr (?t, distance, spc, stack)"
    using d here(5,9) by (simp add: Relook)
  have far: "\<not> near (succs g) s l d \<longleftrightarrow> distance ! d = Suc l"
    using val here(1) by (auto simp: values_ok_def bc_task_ok_def near_def split: if_splits)
  then have "owed (succs g) s v ?t = owed (succs g) s v (ts ! i)" if "\<not> near (succs g) s l v" for v
    using that by (auto simp: Relook owed_def)
  moreover have "bc_task_ok (succs g) s l distance ?t"
    using here(1,10) far by (auto simp: bc_task_ok_def)
  ultimately have "search_inv (succs g) s l cur (ts[i := ?t], distance, spc, stack)"
    by (intro search_inv_access [OF inv i]) (use here in \<open>auto simp: Relook\<close>)
  with run show ?thesis by blast
next
  case (Cas n d ds)
  note here = search_inv_task [OF set inv i, unfolded Cas]
  have d: "d < length (succs g)" "hops (succs g) s d = Some (Suc l)" and far: "\<not> near (succs g) s l d"
    using here(1,3,4) by (simp_all add: bc_task_ok_def)
  have val: "values_ok (succs g) s l distance spc d" by (rule here(8) [OF d(1)])
  show ?thesis
  proof (cases "distance ! d = infinity")
    case True
    let ?distance = "distance[d := Suc l]"
    have "bc_access ops g l (ts ! i) (distance, spc, stack) =
        Inr (Emplace n d ds, ?distance, spc, stack)"
      using True d here(5,9) by (simp add: Cas compare_and_swap_def)
    moreover have "values_ok (succs g) s l ?distance spc v" if "v < length (succs g)" for v
      using here(8) [OF that] here(5,10) d far by (cases "v = d") (auto simp: values_ok_def)
    then have "search_inv (succs g) s l cur (ts[i := Emplace n d ds], ?distance, spc, stack)"
      by (intro search_inv_access [OF inv i])
        (use here True d far in \<open>auto simp: Cas bc_task_ok_def owed_def discovered_def nth_list_update\<close>)
    ultimately show ?thesis by blast
  next
    case False
    have "bc_access ops g l (ts ! i) (distance, spc, stack) = Inr (Count n d ds, distance, spc, stack)"
      using False d here(5) by (simp add: Cas compare_and_swap_def)
    moreover have "search_inv (succs g) s l cur (ts[i := Count n d ds], distance, spc, stack)"
      by (intro search_inv_access [OF inv i]) (use here False in \<open>auto simp: Cas bc_task_ok_def owed_def\<close>)
    ultimately show ?thesis by blast
  qed
next
  case (Emplace n d ds)
  note here = search_inv_task [OF set inv i, unfolded Emplace]
  let ?stack = "stack[Suc l := stack ! Suc l @ [d]]"
  have "bc_access ops g l (ts ! i) (distance, spc, stack) = Inr (Count n d ds, distance, spc, ?stack)"
    using here(7,9) by (simp add: Emplace)
  moreover have "search_inv (succs g) s l cur (ts[i := Count n d ds], distance, spc, ?stack)"
    by (intro search_inv_access [OF inv i]) (use here in \<open>auto simp: Emplace bc_task_ok_def owed_def\<close>)
  ultimately show ?thesis by blast
next
  case (Count n d ds)
  note here = search_inv_task [OF set inv i, unfolded Count]
  have n: "n < length (succs g)" "hops (succs g) s n = Some l"
    using here(1,2) by (simp_all add: bc_task_ok_def)
  have "spc ! n = paths (succs g) s n"
    using here(8) [OF n(1)] near_level [OF n(2)] by (simp add: values_ok_def)
  then have "bc_access ops g l (ts ! i) (distance, spc, stack) =
      Inr (Add n d (paths (succs g) s n) ds, distance, spc, stack)"
    using n(1) here(6) by (simp add: Count)
  moreover have "search_inv (succs g) s l cur
      (ts[i := Add n d (paths (succs g) s n) ds], distance, spc, stack)"
    by (intro search_inv_access [OF inv i]) (use here in \<open>auto simp: Count bc_task_ok_def owed_def\<close>)
  ultimately show ?thesis by blast
next
  case (Add n d c ds)
  note here = search_inv_task [OF set inv i, unfolded Add]
  let ?spc = "spc[d := spc ! d + c]"
  have d: "d < length (succs g)" using here(3) by simp
  have far: "\<not> near (succs g) s l d" "distance ! d \<noteq> infinity" "c = paths (succs g) s n"
    using here(1) by (simp_all add: bc_task_ok_def)
  have "bc_access ops g l (ts ! i) (distance, spc, stack) = Inr (Look n ds, distance, ?spc, stack)"
    using d here(6) search_inv_room [OF set us inv i Add] by (simp add: Add)
  moreover have "values_ok (succs g) s l distance ?spc v" if "v < length (succs g)" for v
    using here(8) [OF that] here(6) d far by (cases "v = d") (auto simp: values_ok_def)
  then have "search_inv (succs g) s l cur (ts[i := Look n ds], distance, ?spc, stack)"
    by (intro search_inv_access [OF inv i])
      (use here d far in \<open>auto simp: Add bc_task_ok_def owed_def nth_list_update distrib_left\<close>)
  ultimately show ?thesis by blast
qed

lemma bc_step_inv:
  assumes "ginv g" "bc_setting (succs g) s" "distinct cur" "set cur = {u. hops (succs g) s u = Some l}"
    and inv: "search_inv (succs g) s l cur (ts, st)" and step: "bc_step ops g l (ts, st) c"
  shows "search_inv (succs g) s l cur c"
proof -
  obtain i t st' where access: "c = (ts[i := t], st')" "i < length ts" "\<not> bc_done (ts ! i)"
    "bc_access ops g l (ts ! i) st = Inr (t, st')" using step by (elim bc_stepE)
  obtain distance spc stack where st: "st = (distance, spc, stack)" by (cases st)
  show ?thesis
    using bc_access_ok [OF assms(1-4) inv [unfolded st] access(2)] access(1,4) by (auto simp: st)
qed

lemma bc_steps_inv:
  assumes "ginv g" "bc_setting (succs g) s" and inv: "sssp_inv (succs g) s l (distance, spc, stack)"
    and "(bc_step ops g l)\<^sup>*\<^sup>* (map Enter (stack ! l), distance, spc, stack @ [[]]) c"
  shows "search_inv (succs g) s l (stack ! l) c"
  using assms(4)
proof (induction rule: rtranclp_induct)
  case base
  show ?case by (rule search_inv_start [OF assms(2) inv])
next
  case (step c c')
  have "distinct (stack ! l)" "set (stack ! l) = {u. hops (succs g) s u = Some l}"
    using inv by (simp_all add: sssp_inv_def levels_known_def)
  then show ?case using bc_step_inv [OF assms(1,2)] step by (cases c) auto
qed

text \<open>A level that is not finished can perform the next access of some task.\<close>

lemma bc_step_progress:
  assumes "ginv g" "bc_setting (succs g) s" "distinct cur" "set cur = {u. hops (succs g) s u = Some l}"
    and inv: "search_inv (succs g) s l cur c" and "\<not> bc_finished c"
  shows "\<exists>c'. bc_step ops g l c c'"
proof -
  obtain ts distance spc stack where c: "c = (ts, distance, spc, stack)" by (cases c)
  obtain i where i: "i < length ts" "\<not> bc_done (ts ! i)"
    using assms(6) by (auto simp: bc_finished_def c in_set_conv_nth)
  then show ?thesis
    using bc_access_ok [OF assms(1-4) inv [unfolded c] i(1)] unfolding c by (blast intro: bc_step.access)
qed

lemma bc_step_work:
  assumes g: "ginv g" and set: "bc_setting (succs g) s"
    and inv: "search_inv (succs g) s l cur (ts, st)" and step: "bc_step ops g l (ts, st) c"
  shows "bc_work (succs g) c < bc_work (succs g) (ts, st)"
proof -
  obtain i t st' where access: "c = (ts[i := t], st')" "i < length ts" "\<not> bc_done (ts ! i)"
    "bc_access ops g l (ts ! i) st = Inr (t, st')" using step by (elim bc_stepE)
  obtain distance spc stack where st: "st = (distance, spc, stack)" by (cases st)
  note here = search_inv_task [OF set inv [unfolded st] access(2)]
  have "task_work (succs g) t < task_work (succs g) (ts ! i)"
  proof (cases "ts ! i")
    case (Look n dests)
    then show ?thesis
      using access(3,4) st by (cases dests) (auto simp: res_map_Inr_iff split: if_splits)
  qed (use access(3,4) here(2) edges_law [OF g] st in
      \<open>auto simp: res_map_Inr_iff res_bind_Inr_iff split: if_splits\<close>)
  then show ?thesis
    using sum_list_map_update [OF access(2), where f = "task_work (succs g)" and t = t]
    by (simp add: access(1) bc_work_def)
qed

lemma bc_level_finishes:
  assumes "ginv g" "bc_setting (succs g) s" "distinct cur" "set cur = {u. hops (succs g) s u = Some l}"
    and "search_inv (succs g) s l cur c"
  shows "\<exists>c'. (bc_step ops g l)\<^sup>*\<^sup>* c c' \<and> bc_finished c'"
  using assms(5)
proof (induction "bc_work (succs g) c" arbitrary: c rule: less_induct)
  case less
  obtain ts st where c: "c = (ts, st)" by (cases c)
  show ?case
  proof (cases "bc_finished c")
    case False
    then obtain c1 where step: "bc_step ops g l c c1"
      using bc_step_progress [OF assms(1-4) less.prems] by blast
    then have "\<exists>c'. (bc_step ops g l)\<^sup>*\<^sup>* c1 c' \<and> bc_finished c'"
      using bc_step_work [OF assms(1,2)] bc_step_inv [OF assms(1-4)] less.prems c
      by (intro less.hyps) auto
    with step show ?thesis by (meson converse_rtranclp_into_rtranclp)
  qed blast
qed

section \<open>The whole search\<close>

text \<open>A finished level establishes the invariant of the next one.\<close>

lemma bc_level_next:
  assumes g: "ginv g" and set: "bc_setting (succs g) s"
    and inv: "sssp_inv (succs g) s l (distance, spc, stack)" and "stack ! l \<noteq> []"
    and run: "(bc_step ops g l)\<^sup>*\<^sup>* (map Enter (stack ! l), distance, spc, stack @ [[]]) (ts, st)"
    and fin: "bc_finished (ts, st)"
  shows "sssp_inv (succs g) s (Suc l) st" and "u64_add l 1 = Suc l" and "l < length (succs g)"
proof -
  have bag: "distinct (stack ! l)" "set (stack ! l) = {u. hops (succs g) s u = Some l}"
    and prev: "\<forall>k<l. \<exists>v. hops (succs g) s v = Some k"
    using inv by (simp_all add: sssp_inv_def levels_known_def)
  show "sssp_inv (succs g) s (Suc l) st"
    using search_inv_end [OF set bag assms(4) bc_steps_inv [OF g set inv run] fin prev] .
  have "hops (succs g) s (hd (stack ! l)) = Some l" using bag(2) hd_in_set [OF assms(4)] by blast
  then have "l < length (succs g)" "length (succs g) < infinity"
    using hops_less_size set by (auto simp: bc_setting_def)
  then show "l < length (succs g)" "u64_add l 1 = Suc l" by (simp_all add: u64_add_small infinity_def)
qed

lemma bc_search_found:
  assumes g: "ginv g" and set: "bc_setting (succs g) s"
    and run: "bc_search ops g l st r" and inv: "sssp_inv (succs g) s l st"
  shows "\<exists>k. sssp_found (succs g) s k r"
  using run inv
proof (induction rule: bc_search.induct)
  case (no_more stack l distance spc)
  then have "stack ! l = []" by (simp add: vec_get_def split: if_splits)
  then show ?case using sssp_inv_end [OF no_more.prems] by blast
next
  case (one_level stack l bag distance spc ts st r)
  then have "bag = stack ! l" by (simp add: vec_get_def split: if_splits)
  with one_level show ?case using bc_level_next [OF g set] by simp
qed

lemma bc_search_runs:
  assumes g: "ginv g" and set: "bc_setting (succs g) s" and inv: "sssp_inv (succs g) s l st"
  shows "\<exists>r. bc_search ops g l st r"
  using inv
proof (induction "Suc (length (succs g)) - l" arbitrary: l st rule: less_induct)
  case less
  obtain distance spc stack where st: "st = (distance, spc, stack)" by (cases st)
  note inv = less.prems [unfolded st]
  have top: "vec_get stack l = Inr (stack ! l)" using inv by (simp add: sssp_inv_def)
  show ?case
  proof (cases "stack ! l = []")
    case True
    then show ?thesis using bc_search.no_more top st by metis
  next
    case False
    have bag: "distinct (stack ! l)" "set (stack ! l) = {u. hops (succs g) s u = Some l}"
      using inv by (simp_all add: sssp_inv_def levels_known_def)
    obtain ts st1 where
      run: "(bc_step ops g l)\<^sup>*\<^sup>* (map Enter (stack ! l), distance, spc, stack @ [[]]) (ts, st1)"
      and fin: "bc_finished (ts, st1)"
      using bc_level_finishes [OF g set bag search_inv_start [OF set inv]] by (metis prod.exhaust)
    note level = bc_level_next [OF g set inv False run fin]
    have "Suc (length (succs g)) - Suc l < Suc (length (succs g)) - l" using level(3) by simp
    from less.hyps [OF this level(1)] obtain r where "bc_search ops g (u64_add l 1) st1 r"
      unfolding level(2) by blast
    then show ?thesis using bc_search.one_level [OF top False run fin] unfolding st by blast
  qed
qed

lemma bc_search_of_source:
  assumes g: "ginv g" and set: "bc_setting (succs g) s"
    and d: "vec_set (replicate (length (succs g)) infinity) s 0 = Inr d"
    and c: "vec_set (replicate (length (succs g)) 0) s 1 = Inr c"
  shows "\<exists>r. bc_search ops g 0 (d, c, [[s]]) r"
    and "bc_search ops g 0 (d, c, [[s]]) r \<Longrightarrow> \<exists>k. sssp_found (succs g) s k r"
proof -
  have start: "sssp_inv (succs g) s 0 (d, c, [[s]])"
    using d c set bc_search_starts [OF set] by (auto simp: bc_setting_def)
  show "\<exists>r. bc_search ops g 0 (d, c, [[s]]) r" by (rule bc_search_runs [OF g set start])
  show "bc_search ops g 0 (d, c, [[s]]) r \<Longrightarrow> \<exists>k. sssp_found (succs g) s k r"
    by (rule bc_search_found [OF g set _ start])
qed

text \<open>In every configuration a search can reach, the invariant of its level holds.\<close>

lemma bc_reachable_inv:
  assumes g: "ginv g" and set: "bc_setting (succs g) s" and "bc_reachable ops g s l cfg"
  shows "\<exists>cur. search_inv (succs g) s l cur cfg \<and> distinct cur \<and>
    set cur = {u. hops (succs g) s u = Some l} \<and> cur \<noteq> [] \<and> (\<forall>k<l. \<exists>v. hops (succs g) s v = Some k)"
  using assms(3)
proof (induction rule: bc_reachable.induct)
  case (first_level d c)
  have start: "sssp_inv (succs g) s 0 (d, c, [[s]])"
    using first_level set bc_search_starts [OF set] by (auto simp: size_law [OF g] bc_setting_def)
  have "search_inv (succs g) s 0 [s] (map Enter [s], d, c, [[s]] @ [[]])"
    using search_inv_start [OF set start] by simp
  moreover have "set [s] = {u. hops (succs g) s u = Some 0}" using hops_0_iff by auto
  ultimately show ?case by (intro exI [of _ "[s]"]) simp
next
  case (next_access l cfg cfg')
  then show ?case using bc_step_inv [OF g set] by (cases cfg) blast
next
  case (next_level l ts distance spc stack bag)
  then obtain cur where inv: "search_inv (succs g) s l cur (ts, distance, spc, stack)"
    and cur: "distinct cur" "set cur = {u. hops (succs g) s u = Some l}" "cur \<noteq> []"
    and prev: "\<forall>k<l. \<exists>v. hops (succs g) s v = Some k" by blast
  have found: "sssp_inv (succs g) s (Suc l) (distance, spc, stack)"
    using search_inv_end [OF set cur inv next_level.hyps(2) prev] .
  have "hops (succs g) s (hd cur) = Some l" using cur(2) hd_in_set [OF cur(3)] by blast
  then have "u64_add l 1 = Suc l"
    using hops_less_size set by (force simp: bc_setting_def u64_add_small infinity_def)
  moreover from this have bag: "bag = stack ! Suc l"
    using next_level.hyps(3) by (simp add: vec_get_def split: if_splits)
  ultimately show ?case
    using search_inv_start [OF set found] found next_level.hyps(4)
    by (intro exI [of _ bag]) (simp add: sssp_inv_def levels_known_def)
qed

section \<open>The whole computation\<close>

text \<open>Whatever the searches do, a source adds its dependencies to the scores.\<close>

lemma racy_source_ok:
  fixes scores :: "'d::linordered_field list"
  assumes rt: "galois_ok rt" and g: "ginv g" and set: "bc_setting (succs g) s"
    and st: "length d = length (succs g)" "length c = length (succs g)"
      "length dep = length (succs g)" "length scores = length (succs g)"
  shows "\<exists>st'. racy_source ops rt g s (d, c, dep, scores) st'"
    and "racy_source ops rt g s (d, c, dep, scores) (d', c', dep', scores') \<Longrightarrow>
      length d' = length (succs g) \<and> length c' = length (succs g) \<and> length dep' = length (succs g) \<and>
      scores' = map (\<lambda>v. scores ! v + (if s = v then 0 else dependency_of (succs g) s v)) [0..<length (succs g)]"
proof -
  let ?n = "length (succs g)"
  have s: "s < ?n" using set by (simp add: bc_setting_def)
  have reset: "do_all rt s reset_vertex [0..<g_size ops g] (d, c, dep) =
      Inr (replicate ?n infinity, replicate ?n 0, replicate ?n 0)"
    unfolding size_law [OF g] by (rule reset_all [OF rt st(1-3)])
  have d1: "vec_set (replicate ?n infinity) s 0 = Inr ((replicate ?n infinity)[s := 0])"
    and c1: "vec_set (replicate ?n 0) s 1 = Inr ((replicate ?n 0)[s := 1])" using s by simp_all
  note search = bc_search_of_source [OF g set d1 c1]
  obtain r where r: "bc_search ops g 0 ((replicate ?n infinity)[s := 0], (replicate ?n 0)[s := 1], [[s]]) r"
    using search(1) by blast
  obtain k where "sssp_found (succs g) s k r" using search(2) [OF r] by blast
  then obtain st' where "accumulate ops rt g r (replicate ?n 0, scores) = Inr st'"
    using accumulate_ok [OF rt g set _ st(4)] by (cases r) blast
  then show "\<exists>st'. racy_source ops rt g s (d, c, dep, scores) st'"
    using racy_source.intros [OF reset d1 c1 r] by blast
  assume "racy_source ops rt g s (d, c, dep, scores) (d', c', dep', scores')"
  then obtain r where r: "bc_search ops g 0 ((replicate ?n infinity)[s := 0], (replicate ?n 0)[s := 1], [[s]]) r"
    and acc: "accumulate ops rt g r (replicate ?n 0, scores) = Inr (d', c', dep', scores')"
    using reset s by (auto simp: racy_source_iff)
  obtain dr cr sr where req: "r = (dr, cr, sr)" by (cases r)
  obtain k where found: "sssp_found (succs g) s k (dr, cr, sr)" using search(2) [OF r] req by blast
  have "length dr = ?n" "length cr = ?n" using found by (simp_all add: sssp_found_def)
  then show "length d' = ?n \<and> length c' = ?n \<and> length dep' = ?n \<and>
      scores' = map (\<lambda>v. scores ! v + (if s = v then 0 else dependency_of (succs g) s v)) [0..<?n]"
    using accumulate_ok [OF rt g set found st(4)] acc req by auto
qed

lemma racy_sources_ok:
  fixes scores :: "'d::linordered_field list"
  assumes rt: "galois_ok rt" and g: "ginv g" and "\<forall>s\<in>set sources. bc_setting (succs g) s"
    and "length d = length (succs g)" "length c = length (succs g)"
      "length dep = length (succs g)" "length scores = length (succs g)"
  shows "(\<exists>st'. racy_sources ops rt g sources (d, c, dep, scores) st') \<and>
    (\<forall>d' c' dep' scores'. racy_sources ops rt g sources (d, c, dep, scores) (d', c', dep', scores') \<longrightarrow>
      scores' = map (\<lambda>v. scores ! v + betweenness (succs g) sources v) [0..<length (succs g)])"
  using assms(3-)
proof (induction sources arbitrary: d c dep scores)
  case Nil
  have "\<exists>st'. racy_sources ops rt g [] (d, c, dep, scores) st'" by (rule exI) (rule racy_sources.no_source)
  moreover have "scores = map (\<lambda>v. scores ! v + betweenness (succs g) [] v) [0..<length (succs g)]"
    using Nil.prems(5) by (intro nth_equalityI) (simp_all add: betweenness_def)
  ultimately show ?case by (auto elim!: racy_sources_NilE)
next
  case (Cons s sources)
  have set: "bc_setting (succs g) s" "\<forall>s\<in>set sources. bc_setting (succs g) s" using Cons.prems by simp_all
  note one = racy_source_ok [OF rt g set(1) Cons.prems(2-5)]
  obtain d1 c1 dep1 scores1 where run: "racy_source ops rt g s (d, c, dep, scores) (d1, c1, dep1, scores1)"
    using one(1) unfolding split_paired_Ex by blast
  have "length d1 = length (succs g)" "length c1 = length (succs g)" "length dep1 = length (succs g)"
    "length scores1 = length (succs g)" using one(2) [OF run] by simp_all
  from Cons.IH [OF set(2) this]
  have "\<exists>st'. racy_sources ops rt g (s # sources) (d, c, dep, scores) st'"
    using racy_sources.next_source [OF run] by blast
  moreover have "scores' = map (\<lambda>v. scores ! v + betweenness (succs g) (s # sources) v) [0..<length (succs g)]"
    if all: "racy_sources ops rt g (s # sources) (d, c, dep, scores) (d', c', dep', scores')" for d' c' dep' scores'
  proof -
    from all obtain st1 where step: "racy_source ops rt g s (d, c, dep, scores) st1"
      and "racy_sources ops rt g sources st1 (d', c', dep', scores')" by (elim racy_sources_ConsE)
    moreover obtain d2 c2 dep2 scores2 where st1: "st1 = (d2, c2, dep2, scores2)" by (cases st1)
    ultimately have rest: "racy_sources ops rt g sources (d2, c2, dep2, scores2) (d', c', dep', scores')"
      by simp
    note first = one(2) [OF step [unfolded st1]]
    have "length scores2 = length (succs g)" using first by simp
    then have "scores' = map (\<lambda>v. scores2 ! v + betweenness (succs g) sources v) [0..<length (succs g)]"
      using Cons.IH [OF set(2), of d2 c2 dep2 scores2] first rest by blast
    then show ?thesis using first by (simp add: betweenness_def algebra_simps)
  qed
  ultimately show ?case by blast
qed

lemma racy_compute_ok:
  assumes rt: "galois_ok rt" and g: "ginv g" and shuffle: "\<forall>xs. mset (shuffle rseed xs) = mset xs"
    and setting: "\<forall>s<length (succs g). bc_setting (succs g) s"
  shows "racy_compute ops rt shuffle g rseed num_src scores \<longleftrightarrow>
    scores = (map (betweenness (succs g) (chosen_sources shuffle (length (succs g)) rseed num_src))
      [0..<length (succs g)] :: 'd::linordered_field list)"
proof -
  let ?n = "length (succs g)"
  let ?sources = "chosen_sources shuffle ?n rseed num_src"
  let ?init = "(replicate ?n infinity, replicate ?n 0, replicate ?n 0, replicate ?n 0) :: 'd bc_state"
  have perm: "mset (shuffle rseed [0..<?n]) = mset [0..<?n]" using shuffle by blast
  have "\<forall>s\<in>set ?sources. bc_setting (succs g) s"
    using setting chosen_sources_in [where shuffle = shuffle, OF perm] by blast
  then have all: "(\<exists>st'. racy_sources ops rt g ?sources ?init st') \<and>
      (\<forall>d c dep scores. racy_sources ops rt g ?sources ?init (d, c, dep, scores) \<longrightarrow>
        scores = map (\<lambda>v. replicate ?n 0 ! v + betweenness (succs g) ?sources v) [0..<?n])"
    by (rule racy_sources_ok [where d = "replicate ?n infinity" and scores = "replicate ?n 0", OF rt g])
      simp_all
  then obtain d0 c0 dep0 scores0 where run: "racy_sources ops rt g ?sources ?init (d0, c0, dep0, scores0)"
    unfolding split_paired_Ex by blast
  have same: "map (\<lambda>v. replicate ?n 0 ! v + betweenness (succs g) ?sources v) [0..<?n] =
      (map (betweenness (succs g) ?sources) [0..<?n] :: 'd list)" by simp
  have unique: "r = map (betweenness (succs g) ?sources) [0..<?n]"
    if "racy_sources ops rt g ?sources ?init (d, c, dep, r)" for d c dep r
    using all [THEN conjunct2, rule_format, OF that] unfolding same .
  have "select_sources rt shuffle ?n rseed num_src = Inr ?sources"
    by (rule select_sources_chosen [where shuffle = shuffle, OF rt perm])
  then have iff: "racy_compute ops rt shuffle g rseed num_src scores \<longleftrightarrow>
      (\<exists>d c dep. racy_sources ops rt g ?sources ?init (d, c, dep, scores))"
    by (simp add: racy_compute_iff size_law [OF g])
  show ?thesis
  proof
    assume "racy_compute ops rt shuffle g rseed num_src scores"
    then obtain d c dep where "racy_sources ops rt g ?sources ?init (d, c, dep, scores)"
      unfolding iff by (elim exE)
    then show "scores = map (betweenness (succs g) ?sources) [0..<?n]" by (rule unique)
  next
    assume "scores = map (betweenness (succs g) ?sources) [0..<?n]"
    then have "scores = scores0" using unique [OF run] by (simp only:)
    then show "racy_compute ops rt shuffle g rseed num_src scores"
      unfolding iff using run by (intro exI) (simp only:)
  qed
qed

end

end
