(* ===== verification/Pagerank.thy ===== *)
theory Pagerank
  imports Complex_Main Bc
begin

text \<open>
  \<open>PageRank\<close> (include/scea/algo/pr.hpp): power iteration with damping over any
  \<open>MutableGraph\<close>, until the ranks change by less than the tolerance or the iterations run
  out. Doubles are exact (an ordered field). The code keeps the ranks in a local variable and
  drops them; here they are the result, with the number of iterations left.
\<close>

definition damping_factor :: "'d::linordered_field" where
  "damping_factor = 17 / 20"

definition max_iterations :: nat where
  "max_iterations = 100"

definition tolerance :: "'d::linordered_field" where
  "tolerance = 1 / 10000"

section \<open>The parallel loops of an iteration\<close>

definition pr_contribute :: "'g graph_ops \<Rightarrow> 'g \<Rightarrow> 'd::linordered_field list \<Rightarrow> nat \<Rightarrow> nat \<Rightarrow> 'd list \<Rightarrow>
    'd list res" where
  "pr_contribute ops g rank i dst newRank =
     res_bind (vec_get rank i) (\<lambda>r. res_bind (g_out_degree ops g i) (\<lambda>deg.
       vec_update newRank dst (\<lambda>x. x + r / of_nat deg)))"

definition pr_distribute :: "'g graph_ops \<Rightarrow> 'g \<Rightarrow> 'd::linordered_field list \<Rightarrow> nat \<Rightarrow> 'd list \<Rightarrow> 'd list res" where
  "pr_distribute ops g rank i newRank =
     res_bind (g_for_each_edge ops g i) (\<lambda>dsts. fold_res (pr_contribute ops g rank i) dsts newRank)"

definition pr_damp :: "nat \<Rightarrow> nat \<Rightarrow> 'd::linordered_field list \<Rightarrow> 'd list res" where
  "pr_damp numNodes i newRank =
     vec_update newRank i (\<lambda>x. (1 - damping_factor) / of_nat numNodes + damping_factor * x)"

definition pr_check :: "'d::linordered_field list \<Rightarrow> nat \<Rightarrow> 'd \<times> 'd list \<Rightarrow> ('d \<times> 'd list) res" where
  "pr_check newRank i st = (case st of (diff, rank) \<Rightarrow>
     res_bind (vec_get newRank i) (\<lambda>x. res_bind (vec_get rank i) (\<lambda>r.
       res_map (Pair (diff + \<bar>x - r\<bar>)) (vec_set rank i x))))"

definition pr_iterate :: "'g graph_ops \<Rightarrow> galois_rt \<Rightarrow> 'g \<Rightarrow> nat \<Rightarrow> 'd::linordered_field list \<times> 'd list \<Rightarrow>
    ('d \<times> 'd list \<times> 'd list) res" where
  "pr_iterate ops rt g k st = (case st of (newRank, rank) \<Rightarrow> let numNodes = g_size ops g in
     res_bind (do_all rt (4 * k) (\<lambda>i v. vec_set v i 0) [0..<length newRank] newRank) (\<lambda>new0.
     res_bind (do_all rt (4 * k + 1) (pr_distribute ops g rank) [0..<numNodes] new0) (\<lambda>new1.
     res_bind (do_all rt (4 * k + 2) (pr_damp numNodes) [0..<numNodes] new1) (\<lambda>new2.
     res_map (\<lambda>(diff, rank'). (diff, new2, rank'))
       (do_all rt (4 * k + 3) (pr_check new2) [0..<numNodes] (0, rank))))))"

section \<open>compute\<close>

fun pr_loop :: "'g graph_ops \<Rightarrow> galois_rt \<Rightarrow> 'g \<Rightarrow> nat \<Rightarrow> 'd::linordered_field list \<times> 'd list \<Rightarrow>
    (nat \<times> 'd list) res" where
  "pr_loop ops rt g 0 st = Inr (0, snd st)"
| "pr_loop ops rt g (Suc k) st =
     res_bind (pr_iterate ops rt g k st) (\<lambda>(diff, newRank, rank).
       if diff < tolerance then Inr (Suc k, rank) else pr_loop ops rt g k (newRank, rank))"

definition pr_compute :: "'g graph_ops \<Rightarrow> galois_rt \<Rightarrow> 'g \<Rightarrow> (nat \<times> 'd::linordered_field list) res" where
  "pr_compute ops rt g =
     pr_loop ops rt g max_iterations
       (replicate (g_size ops g) 0, replicate (g_size ops g) (1 / of_nat (g_size ops g)))"

section \<open>The rank equation\<close>

text \<open>One step of the power iteration, and the distance between two rank vectors.\<close>

definition inflow :: "nat list list \<Rightarrow> 'd::linordered_field list \<Rightarrow> nat \<Rightarrow> 'd" where
  "inflow ss x d = (\<Sum>i<length ss. of_nat (count_list (ss ! i) d) * (x ! i / of_nat (length (ss ! i))))"

definition pr_step :: "nat list list \<Rightarrow> 'd::linordered_field list \<Rightarrow> 'd list" where
  "pr_step ss x = map (\<lambda>d. (1 - damping_factor) / of_nat (length ss) + damping_factor * inflow ss x d)
     [0..<length ss]"

definition rank_distance :: "'d::linordered_field list \<Rightarrow> 'd list \<Rightarrow> 'd" where
  "rank_distance x y = (\<Sum>i<length x. \<bar>x ! i - y ! i\<bar>)"

text \<open>The flow out of a vertex: all of its rank, or nothing if it has no edge.\<close>

lemma sum_count_list:
  "\<forall>w\<in>set ws. w < (n::nat) \<Longrightarrow> (\<Sum>d<n. count_list ws d) = length ws"
proof (induction ws)
  case (Cons w ws)
  have "(\<Sum>d<n. count_list (w # ws) d) = (\<Sum>d<n. (if d = w then 1 else 0) + count_list ws d)"
    by (intro sum.cong) auto
  then show ?case using Cons by (simp add: sum.distrib sum.delta)
qed simp

lemma total_inflow:
  assumes "closed_graph ss"
  shows "(\<Sum>d<length ss. inflow ss x d) = (\<Sum>i<length ss. if ss ! i = [] then 0 else x ! i :: 'd::linordered_field)"
proof -
  have "(\<Sum>d<length ss. inflow ss x d) =
      (\<Sum>i<length ss. \<Sum>d<length ss. of_nat (count_list (ss ! i) d) * (x ! i / of_nat (length (ss ! i))))"
    unfolding inflow_def by (rule sum.swap)
  also have "\<dots> = (\<Sum>i<length ss. of_nat (length (ss ! i)) * (x ! i / of_nat (length (ss ! i))))"
  proof (intro sum.cong refl)
    fix i
    assume "i \<in> {..<length ss}"
    then have "\<forall>w\<in>set (ss ! i). w < length ss" using closed_graphD [OF assms] by simp
    then have "(\<Sum>d<length ss. of_nat (count_list (ss ! i) d)) = (of_nat (length (ss ! i)) :: 'd)"
      by (simp only: of_nat_sum [symmetric] sum_count_list)
    then show "(\<Sum>d<length ss. of_nat (count_list (ss ! i) d) * (x ! i / of_nat (length (ss ! i)))) =
        of_nat (length (ss ! i)) * (x ! i / of_nat (length (ss ! i)))"
      by (simp only: sum_distrib_right [symmetric])
  qed
  finally show ?thesis by (simp add: if_distrib cong: if_cong)
qed

lemma inflow_diff:
  "inflow ss x d - inflow ss y d =
    (\<Sum>i<length ss. of_nat (count_list (ss ! i) d) * ((x ! i - y ! i) / of_nat (length (ss ! i))))"
  by (simp add: inflow_def sum_subtractf [symmetric] diff_divide_distrib right_diff_distrib)

lemma damping_range: "0 < (damping_factor :: 'd::linordered_field)" "(damping_factor :: 'd) < 1"
  by (simp_all add: damping_factor_def)

text \<open>A step brings two vectors closer.\<close>

lemma pr_step_contracts:
  assumes "closed_graph ss" "length x = length ss" "length y = length ss"
  shows "rank_distance (pr_step ss x) (pr_step ss y) \<le> damping_factor * (rank_distance x y :: 'd::linordered_field)"
proof -
  let ?n = "length ss"
  let ?z = "map (\<lambda>i. \<bar>x ! i - y ! i\<bar>) [0..<?n]"
  have "\<bar>inflow ss x d - inflow ss y d\<bar> \<le> inflow ss ?z d" for d
  proof -
    have "\<bar>inflow ss x d - inflow ss y d\<bar> \<le>
        (\<Sum>i<?n. \<bar>of_nat (count_list (ss ! i) d) * ((x ! i - y ! i) / of_nat (length (ss ! i)))\<bar>)"
      unfolding inflow_diff by (rule sum_abs)
    also have "\<dots> = inflow ss ?z d" by (simp add: inflow_def abs_mult)
    finally show ?thesis .
  qed
  then have "(\<Sum>d<?n. \<bar>damping_factor * (inflow ss x d - inflow ss y d)\<bar>) \<le> (\<Sum>d<?n. damping_factor * inflow ss ?z d)"
    using damping_range [where 'd = 'd] by (intro sum_mono) (simp add: abs_mult)
  also have "\<dots> = damping_factor * (\<Sum>i<?n. if ss ! i = [] then 0 else ?z ! i)"
    by (simp add: sum_distrib_left [symmetric] total_inflow [OF assms(1)])
  also have "\<dots> \<le> damping_factor * rank_distance x y"
    using damping_range [where 'd = 'd] assms(2) by (intro mult_left_mono) (auto simp: rank_distance_def intro!: sum_mono)
  finally show ?thesis
    using assms by (simp add: rank_distance_def pr_step_def right_diff_distrib)
qed

text \<open>Ranks stay non-negative, and their sum never exceeds one.\<close>

definition sub_distribution :: "'d::linordered_field list \<Rightarrow> bool" where
  "sub_distribution x \<longleftrightarrow> (\<forall>i<length x. 0 \<le> x ! i) \<and> (\<Sum>i<length x. x ! i) \<le> 1"

lemma pr_step_total:
  assumes "closed_graph ss" "ss \<noteq> []"
  shows "(\<Sum>d<length ss. pr_step ss x ! d) =
    1 - damping_factor + damping_factor * (\<Sum>i<length ss. if ss ! i = [] then 0 else x ! i :: 'd::linordered_field)"
  using assms by (simp add: pr_step_def sum.distrib sum_distrib_left [symmetric] total_inflow)

lemma pr_step_sub_distribution:
  assumes "closed_graph ss" "length x = length ss" "sub_distribution x"
  shows "sub_distribution (pr_step ss x :: 'd::linordered_field list)"
proof (cases "ss = []")
  case True
  then show ?thesis by (simp add: sub_distribution_def pr_step_def)
next
  case False
  have "0 \<le> inflow ss x d" for d
    using assms(2,3) by (auto simp: inflow_def sub_distribution_def intro!: sum_nonneg mult_nonneg_nonneg divide_nonneg_nonneg)
  then have pos: "0 \<le> pr_step ss x ! d" if "d < length ss" for d
    using damping_range [where 'd = 'd] that
    by (simp add: pr_step_def add_nonneg_nonneg divide_nonneg_nonneg mult_nonneg_nonneg less_imp_le)
  have "(\<Sum>i<length ss. if ss ! i = [] then 0 else x ! i) \<le> (\<Sum>i<length x. x ! i)"
    using assms(2,3) by (auto simp: sub_distribution_def intro!: sum_mono)
  also have "\<dots> \<le> 1" using assms(3) by (simp add: sub_distribution_def)
  finally have "damping_factor * (\<Sum>i<length ss. if ss ! i = [] then 0 else x ! i) \<le> damping_factor * 1"
    using damping_range [where 'd = 'd] by (intro mult_left_mono) simp_all
  then show ?thesis
    using pos pr_step_total [OF assms(1) False, of x] by (simp add: sub_distribution_def) (simp add: pr_step_def)
qed

lemma sub_distributions_near:
  assumes "sub_distribution x" "sub_distribution y" "length x = length y"
  shows "rank_distance x y \<le> (2 :: 'd::linordered_field)"
proof -
  have "rank_distance x y \<le> (\<Sum>i<length x. x ! i + y ! i)"
    using assms unfolding rank_distance_def sub_distribution_def
    by (intro sum_mono) (fastforce intro: abs_leI)
  also have "\<dots> \<le> 1 + 1"
    using assms unfolding sub_distribution_def by (simp only: sum.distrib) (intro add_mono; simp)
  finally show ?thesis by simp
qed

lemma rank_distance_triangle:
  "length x = length y \<Longrightarrow> rank_distance x z \<le> rank_distance x y + (rank_distance y z :: 'd::linordered_field)"
  unfolding rank_distance_def
  by (simp only: sum.distrib [symmetric]) (intro sum_mono, metis abs_triangle_ineq diff_add_cancel add_diff_eq)

section \<open>An iteration computes the step\<close>

lemma sum_list_perm_upt:
  assumes "mset ys = mset [0..<n]"
  shows "(\<Sum>i\<leftarrow>ys. f i) = (\<Sum>i<n. f i :: 'a::comm_monoid_add)"
proof -
  have "(\<Sum>i\<leftarrow>ys. f i) = (\<Sum>i\<leftarrow>[0..<n]. f i)" by (metis assms mset_map sum_mset_sum_list)
  then show ?thesis by (simp add: interv_sum_list_conv_sum_set_nat atLeast0LessThan)
qed

context graph_reading
begin

lemma pr_distribute_ok:
  assumes g: "ginv g" and i: "i < length (succs g)" and len: "length rank = length (succs g)"
    "length new = length (succs g)"
  shows "pr_distribute ops g rank i new = Inr (map (\<lambda>d. new ! d + of_nat (count_list (succs g ! i) d) *
    (rank ! i / of_nat (length (succs g ! i)) :: 'd::linordered_field)) [0..<length (succs g)])"
proof -
  let ?n = "length (succs g)"
  define c where "c = rank ! i / of_nat (length (succs g ! i))"
  have "\<exists>new'. fold_res (pr_contribute ops g rank i) (succs g ! i) new = Inr new' \<and>
      new' = map (\<lambda>d. new ! d + of_nat (count_list (succs g ! i) d) * c) [0..<?n]"
  proof (rule fold_res_rule [where P = "\<lambda>ds v. v = map (\<lambda>d. new ! d + of_nat (count_list ds d) * c) [0..<?n]"])
    fix ys x zs and v :: "'d list"
    assume split: "succs g ! i = ys @ x # zs" and v: "v = map (\<lambda>d. new ! d + of_nat (count_list ys d) * c) [0..<?n]"
    have "x < ?n" using closed_graphD [OF closed_law [OF g] i, of x] split by simp
    then have "pr_contribute ops g rank i x v = Inr (v[x := v ! x + c])"
      using i len(1) by (simp add: pr_contribute_def degree_law [OF g i] v c_def)
    then show "\<exists>v'. pr_contribute ops g rank i x v = Inr v' \<and>
        v' = map (\<lambda>d. new ! d + of_nat (count_list (ys @ [x]) d) * c) [0..<?n]"
      using \<open>x < ?n\<close> by (auto simp: v map_upd_upt distrib_right add_ac)
  qed (auto simp: len intro!: nth_equalityI)
  then show ?thesis by (simp add: pr_distribute_def edges_law [OF g i] c_def)
qed

lemma pr_distribute_all:
  assumes rt: "galois_ok rt" and g: "ginv g" and len: "length rank = length (succs g)"
  shows "do_all rt k (pr_distribute ops g rank) [0..<length (succs g)] (replicate (length (succs g)) 0) =
    Inr (map (inflow (succs g) rank) [0..<length (succs g)] :: 'd::linordered_field list)"
proof -
  let ?n = "length (succs g)"
  let ?f = "\<lambda>i d. of_nat (count_list (succs g ! i) d) * (rank ! i / of_nat (length (succs g ! i)))"
  have "\<exists>ys v. mset ys = mset [0..<?n] \<and>
      do_all rt k (pr_distribute ops g rank) [0..<?n] (replicate ?n 0) = Inr v \<and>
      v = map (\<lambda>d. \<Sum>i\<leftarrow>ys. ?f i d) [0..<?n]"
  proof (rule do_all_rule [OF rt])
    fix ys x and v :: "'d list"
    assume "x \<in> set [0..<?n]" and v: "v = map (\<lambda>d. \<Sum>i\<leftarrow>ys. ?f i d) [0..<?n]"
    then show "\<exists>v'. pr_distribute ops g rank x v = Inr v' \<and> v' = map (\<lambda>d. \<Sum>i\<leftarrow>ys @ [x]. ?f i d) [0..<?n]"
      by (subst pr_distribute_ok [OF g _ len]) (auto simp: v)
  qed (auto intro!: nth_equalityI)
  then obtain ys where ys: "mset ys = mset [0..<?n]" and
    run: "do_all rt k (pr_distribute ops g rank) [0..<?n] (replicate ?n 0) = Inr (map (\<lambda>d. \<Sum>i\<leftarrow>ys. ?f i d) [0..<?n])"
    by blast
  show ?thesis unfolding run sum_list_perm_upt [OF ys] inflow_def ..
qed

lemma pr_damp_all:
  assumes rt: "galois_ok rt" and "length v = n"
  shows "do_all rt k (pr_damp m) [0..<n] v =
    Inr (map (\<lambda>d. (1 - damping_factor) / of_nat m + damping_factor * (v ! d :: 'd::linordered_field)) [0..<n])"
proof -
  let ?f = "\<lambda>x :: 'd. (1 - damping_factor) / of_nat m + damping_factor * x"
  have "\<exists>ys w. mset ys = mset [0..<n] \<and> do_all rt k (pr_damp m) [0..<n] v = Inr w \<and>
      (length w = n \<and> (\<forall>i<n. w ! i = (if i \<in> set ys then ?f (v ! i) else v ! i)))"
  proof (rule do_all_rule [OF rt])
    fix ys x and w :: "'d list"
    assume sub: "mset (ys @ [x]) \<subseteq># mset [0..<n]" and x: "x \<in> set [0..<n]"
      and w: "length w = n \<and> (\<forall>i<n. w ! i = (if i \<in> set ys then ?f (v ! i) else v ! i))"
    have "x \<notin> set ys" using do_all_fresh [OF sub] by simp
    then show "\<exists>w'. pr_damp m x w = Inr w' \<and>
        (length w' = n \<and> (\<forall>i<n. w' ! i = (if i \<in> set (ys @ [x]) then ?f (v ! i) else v ! i)))"
      using x w by (auto simp: pr_damp_def nth_list_update)
  qed (simp add: assms(2))
  then obtain ys w where ys: "mset ys = mset [0..<n]" and run: "do_all rt k (pr_damp m) [0..<n] v = Inr w"
    and w: "length w = n" "\<forall>i<n. w ! i = (if i \<in> set ys then ?f (v ! i) else v ! i)" by blast
  have "w = map (\<lambda>d. ?f (v ! d)) [0..<n]"
    using w mset_eq_setD [OF ys] by (intro nth_equalityI) auto
  with run show ?thesis by simp
qed

lemma pr_check_all:
  assumes rt: "galois_ok rt" and len: "length new = n" "length rank = n"
  shows "do_all rt k (pr_check new) [0..<n] (0, rank) = Inr (rank_distance new rank, new :: 'd::linordered_field list)"
proof -
  have "\<exists>ys st. mset ys = mset [0..<n] \<and> do_all rt k (pr_check new) [0..<n] (0, rank) = Inr st \<and>
      (fst st = (\<Sum>i\<leftarrow>ys. \<bar>new ! i - rank ! i\<bar>) \<and> length (snd st) = n \<and>
       (\<forall>i<n. snd st ! i = (if i \<in> set ys then new ! i else rank ! i)))"
  proof (rule do_all_rule [OF rt])
    fix ys x and st :: "'d \<times> 'd list"
    assume sub: "mset (ys @ [x]) \<subseteq># mset [0..<n]" and x: "x \<in> set [0..<n]"
      and st: "fst st = (\<Sum>i\<leftarrow>ys. \<bar>new ! i - rank ! i\<bar>) \<and> length (snd st) = n \<and>
       (\<forall>i<n. snd st ! i = (if i \<in> set ys then new ! i else rank ! i))"
    have "x \<notin> set ys" using do_all_fresh [OF sub] by simp
    then show "\<exists>st'. pr_check new x st = Inr st' \<and>
        (fst st' = (\<Sum>i\<leftarrow>ys @ [x]. \<bar>new ! i - rank ! i\<bar>) \<and> length (snd st') = n \<and>
         (\<forall>i<n. snd st' ! i = (if i \<in> set (ys @ [x]) then new ! i else rank ! i)))"
      using x st len by (cases st) (auto simp: pr_check_def nth_list_update)
  qed (simp add: len)
  then obtain ys st where ys: "mset ys = mset [0..<n]"
    and run: "do_all rt k (pr_check new) [0..<n] (0, rank) = Inr st"
    and st: "fst st = (\<Sum>i\<leftarrow>ys. \<bar>new ! i - rank ! i\<bar>)" "length (snd st) = n"
      "\<forall>i<n. snd st ! i = (if i \<in> set ys then new ! i else rank ! i)" by blast
  have "snd st = new" using st len mset_eq_setD [OF ys] by (intro nth_equalityI) auto
  moreover have "fst st = rank_distance new rank"
    by (simp add: st(1) sum_list_perm_upt [OF ys] rank_distance_def len)
  ultimately show ?thesis using run by (metis prod.collapse)
qed

lemma pr_iterate_ok:
  assumes rt: "galois_ok rt" and g: "ginv g" and len: "length new = length (succs g)"
    "length rank = length (succs g)"
  shows "pr_iterate ops rt g k (new, rank) = Inr (rank_distance (pr_step (succs g) rank) rank,
    pr_step (succs g) rank, pr_step (succs g) rank :: 'd::linordered_field list)"
proof -
  let ?n = "length (succs g)"
  have "do_all rt (4 * k) (\<lambda>i v. vec_set v i 0) [0..<length new] new = Inr (replicate ?n 0)"
    using do_all_fill [OF rt, of new ?n "4 * k" "\<lambda>_. 0"] len(1) by (simp add: map_replicate_const)
  moreover have "do_all rt (4 * k + 2) (pr_damp ?n) [0..<?n] (map (inflow (succs g) rank) [0..<?n]) =
      Inr (pr_step (succs g) rank)"
    by (subst pr_damp_all [OF rt]) (auto simp: pr_step_def)
  moreover have "do_all rt (4 * k + 3) (pr_check (pr_step (succs g) rank)) [0..<?n] (0, rank) =
      Inr (rank_distance (pr_step (succs g) rank) rank, pr_step (succs g) rank)"
    by (rule pr_check_all [OF rt]) (simp_all add: len pr_step_def)
  ultimately show ?thesis
    by (simp add: pr_iterate_def size_law [OF g] pr_distribute_all [OF rt g len(2)])
qed

text \<open>
  The iteration numbered \<open>j\<close> starts from the \<open>j\<close>-th power and changes the ranks by at most
  \<open>2 * damping_factor ^ j\<close>, which is below the tolerance at the latest for \<open>j = 61\<close>.
\<close>

lemma damping_power: "2 * damping_factor ^ 61 < (tolerance :: 'd::linordered_field)"
proof -
  have "2 * 10000 * 17 ^ 61 < (20 ^ 61 :: 'd)" by simp
  then have "2 * 10000 * (17 ^ 61 / 20 ^ 61) < (1 :: 'd)" by (simp add: divide_simps)
  then show ?thesis by (simp add: damping_factor_def tolerance_def power_divide)
qed

lemma pr_loop_ok:
  assumes rt: "galois_ok rt" and g: "ginv g" and "k + j = max_iterations" "j \<le> 61"
    and "length new = length (succs g)" "length rank = length (succs g)" "sub_distribution rank"
    and "rank = (pr_step (succs g) ^^ j) start"
    and "rank_distance (pr_step (succs g) rank) rank \<le> 2 * damping_factor ^ j"
  shows "\<exists>i\<le>61. pr_loop ops rt g k (new, rank) =
      Inr (max_iterations - i, (pr_step (succs g) ^^ Suc i) start) \<and>
    (let r = (pr_step (succs g) ^^ i) start in sub_distribution r \<and> length r = length (succs g) \<and>
      rank_distance (pr_step (succs g) r) (r :: 'd::linordered_field list) < tolerance)"
  using assms(3-)
proof (induction k arbitrary: j new rank)
  case 0
  then show ?case by (simp add: max_iterations_def)
next
  case (Suc k)
  let ?ss = "succs g"
  let ?r = "pr_step ?ss rank"
  have closed: "closed_graph ?ss" by (rule closed_law [OF g])
  note run = pr_iterate_ok [OF rt g Suc.prems(3,4), of k]
  show ?case
  proof (cases "rank_distance ?r rank < tolerance")
    case True
    then have "pr_loop ops rt g (Suc k) (new, rank) = Inr (max_iterations - j, ?r)"
      using run Suc.prems(1) by simp
    then show ?thesis
      using True Suc.prems by (intro exI [of _ j]) (simp add: Let_def)
  next
    case False
    have "j \<noteq> 61" using False Suc.prems(7) damping_power [where 'd = 'd] by auto
    have len: "length ?r = length ?ss" by (simp add: pr_step_def)
    have "rank_distance (pr_step ?ss ?r) ?r \<le> damping_factor * rank_distance ?r rank"
      by (rule pr_step_contracts [OF closed len Suc.prems(4)])
    also have "\<dots> \<le> damping_factor * (2 * damping_factor ^ j)"
      using Suc.prems(7) damping_range [where 'd = 'd] by (intro mult_left_mono) simp_all
    finally have close: "rank_distance (pr_step ?ss ?r) ?r \<le> 2 * damping_factor ^ Suc j" by (simp add: ac_simps)
    have "pr_loop ops rt g (Suc k) (new, rank) = pr_loop ops rt g k (?r, ?r)" using run False by simp
    then show ?thesis
      using Suc.IH [of "Suc j" ?r ?r] Suc.prems(1,2,6) \<open>j \<noteq> 61\<close> len close
        pr_step_sub_distribution [OF closed Suc.prems(4,5)] by simp
  qed
qed

lemma pr_compute_ok:
  assumes rt: "galois_ok rt" and g: "ginv g"
  shows "\<exists>i\<le>61. pr_compute ops rt g = Inr (max_iterations - i,
      (pr_step (succs g) ^^ Suc i) (replicate (length (succs g)) (1 / of_nat (length (succs g))) :: 'd list)) \<and>
    (let r = (pr_step (succs g) ^^ i) (replicate (length (succs g)) (1 / of_nat (length (succs g)))) in
      sub_distribution r \<and> length r = length (succs g) \<and>
      rank_distance (pr_step (succs g) r) (r :: 'd::linordered_field list) < tolerance)"
proof -
  let ?n = "length (succs g)"
  let ?r = "replicate ?n (1 / of_nat ?n) :: 'd list"
  have start: "sub_distribution ?r" by (simp add: sub_distribution_def)
  have near: "rank_distance (pr_step (succs g) ?r) ?r \<le> 2 * damping_factor ^ 0"
    using sub_distributions_near [OF pr_step_sub_distribution [OF closed_law [OF g] _ start] start]
    by (simp add: pr_step_def)
  show ?thesis
    unfolding pr_compute_def size_law [OF g]
    by (rule pr_loop_ok [OF rt g _ _ _ _ start _ near]) simp_all
qed

end

section \<open>Distance to the solution\<close>

text \<open>Ranks that change little are near every solution of the rank equation.\<close>

lemma near_solution:
  assumes closed: "closed_graph ss" and len: "length r = length ss" "length x = length ss"
    and fix_point: "pr_step ss x = x"
  shows "rank_distance (pr_step ss r) x * (1 - damping_factor) \<le>
    damping_factor * (rank_distance (pr_step ss r) r :: 'd::linordered_field)"
proof -
  have len': "length (pr_step ss r) = length ss" by (simp add: pr_step_def)
  have "rank_distance (pr_step ss r) x \<le> damping_factor * rank_distance r x"
    using pr_step_contracts [OF closed len] by (simp add: fix_point)
  also have "\<dots> \<le> damping_factor * (rank_distance r (pr_step ss r) + rank_distance (pr_step ss r) x)"
    using damping_range [where 'd = 'd] len len' by (intro mult_left_mono rank_distance_triangle) simp_all
  also have "rank_distance r (pr_step ss r) = rank_distance (pr_step ss r) r"
    using len len' by (simp add: rank_distance_def abs_minus_commute)
  finally show ?thesis by (simp add: algebra_simps)
qed

end
