(* ===== verification/TriangleCount.thy ===== *)
theory TriangleCount
  imports CsrGraph
begin

text \<open>
  \<open>TriangleCounting\<close> (include/scea/algo/tc.hpp): sort every adjacency list, then count, for
  each edge \<open>v0 < v1\<close> and each edge \<open>v1 < v2\<close>, whether \<open>v0\<close> has an edge to \<open>v2\<close>.
  The accumulator is the list of its increments, which the runtime adds up.
\<close>

definition tc_check :: "'g graph_ops \<Rightarrow> 'g \<Rightarrow> nat \<Rightarrow> nat \<Rightarrow> nat \<Rightarrow> nat list \<Rightarrow> nat list res" where
  "tc_check ops g v0 v1 v2 ups =
     (if v1 \<ge> v2 then Inr ups
      else res_map (\<lambda>b. if b then ups @ [1] else ups) (g_find_edge_sorted ops g v0 v2))"

definition tc_edge :: "'g graph_ops \<Rightarrow> 'g \<Rightarrow> nat \<Rightarrow> nat \<Rightarrow> nat list \<Rightarrow> nat list res" where
  "tc_edge ops g v0 v1 ups =
     (if v0 \<ge> v1 then Inr ups
      else res_bind (g_for_each_edge ops g v1) (\<lambda>v2s. fold_res (tc_check ops g v0 v1) v2s ups))"

definition tc_vertex :: "'g graph_ops \<Rightarrow> 'g \<Rightarrow> nat \<Rightarrow> nat list \<Rightarrow> nat list res" where
  "tc_vertex ops g v0 ups =
     res_bind (g_for_each_edge ops g v0) (\<lambda>v1s. fold_res (tc_edge ops g v0) v1s ups)"

definition tc_compute :: "'g graph_ops \<Rightarrow> galois_rt \<Rightarrow> 'g \<Rightarrow> ('g \<times> nat) res" where
  "tc_compute ops rt g =
     res_bind (do_all rt 0 (g_sort_edges ops) [0..<g_size ops g] g) (\<lambda>g'.
     res_bind (do_all rt 1 (tc_vertex ops g') [0..<g_size ops g'] []) (\<lambda>ups.
       Inr (g', reduce_sum rt ups)))"

section \<open>What is counted\<close>

definition tri_edge :: "nat list list \<Rightarrow> nat \<Rightarrow> nat \<Rightarrow> nat" where
  "tri_edge ss v0 v1 =
     (if v0 < v1 then length (filter (\<lambda>v2. v1 < v2 \<and> v2 \<in> set (ss ! v0)) (ss ! v1)) else 0)"

definition tri_vertex :: "nat list list \<Rightarrow> nat \<Rightarrow> nat" where
  "tri_vertex ss v0 = sum_list (map (tri_edge ss v0) (ss ! v0))"

definition tri_total :: "nat list list \<Rightarrow> nat" where
  "tri_total ss = sum_list (map (tri_vertex ss) [0..<length ss])"

text \<open>Triangles of an undirected graph: three vertices, every two of them adjacent.\<close>

definition simple_undirected :: "nat list list \<Rightarrow> bool" where
  "simple_undirected ss \<longleftrightarrow> closed_graph ss \<and> (\<forall>ds\<in>set ss. distinct ds) \<and>
     (\<forall>u<length ss. \<forall>v\<in>set (ss ! u). u \<in> set (ss ! v))"

definition triangles :: "nat list list \<Rightarrow> nat set set" where
  "triangles ss = {t. t \<subseteq> {..<length ss} \<and> card t = 3 \<and>
     (\<forall>x\<in>t. \<forall>y\<in>t. x \<noteq> y \<longrightarrow> y \<in> set (ss ! x))}"

definition ordered_triangles :: "nat list list \<Rightarrow> (nat \<times> nat \<times> nat) set" where
  "ordered_triangles ss = (SIGMA a:{..<length ss}. SIGMA b:{b \<in> set (ss ! a). a < b}.
     {c \<in> set (ss ! b). b < c \<and> c \<in> set (ss ! a)})"

lemma tri_edge_sorted:
  "v0 < length ss \<Longrightarrow> v1 < length ss \<Longrightarrow> tri_edge (map sort ss) v0 v1 = tri_edge ss v0 v1"
proof -
  have "length (filter p (sort xs)) = length (filter p xs)" for p and xs :: "nat list"
    by (metis filter_sort length_sort)
  then show "v0 < length ss \<Longrightarrow> v1 < length ss \<Longrightarrow> ?thesis" by (simp add: tri_edge_def)
qed

lemma tri_vertex_sorted:
  assumes "closed_graph ss" "v0 < length ss"
  shows "tri_vertex (map sort ss) v0 = tri_vertex ss v0"
proof -
  have "sum_list (map f (sort xs)) = sum_list (map f xs)" for f :: "nat \<Rightarrow> nat" and xs
    by (metis mset_map mset_sort sum_mset_sum_list)
  then have "tri_vertex (map sort ss) v0 =
      sum_list (map (tri_edge (map sort ss) v0) (ss ! v0))"
    using assms by (simp add: tri_vertex_def)
  also have "\<dots> = tri_vertex ss v0"
    unfolding tri_vertex_def using assms closed_graphD
    by (intro arg_cong [of _ _ sum_list] map_cong refl tri_edge_sorted) blast+
  finally show ?thesis .
qed

lemma tri_total_sorted: "closed_graph ss \<Longrightarrow> tri_total (map sort ss) = tri_total ss"
  unfolding tri_total_def
  by (intro arg_cong [of _ _ sum_list] map_cong) (auto simp: tri_vertex_sorted)

lemma tri_vertex_card:
  assumes "closed_graph ss" "\<forall>ds\<in>set ss. distinct ds" "a < length ss"
  shows "tri_vertex ss a = card (SIGMA b:{b \<in> set (ss ! a). a < b}.
     {c \<in> set (ss ! b). b < c \<and> c \<in> set (ss ! a)})"
proof -
  have row: "distinct (ss ! a)" using assms by simp
  have "tri_edge ss a b = (if a < b then card {c \<in> set (ss ! b). b < c \<and> c \<in> set (ss ! a)} else 0)"
    if "b \<in> set (ss ! a)" for b
  proof -
    have "distinct (ss ! b)" using closed_graphD [OF assms(1,3) that] assms(2) by simp
    then show ?thesis
      using distinct_card [of "filter (\<lambda>c. b < c \<and> c \<in> set (ss ! a)) (ss ! b)"]
      by (simp add: tri_edge_def)
  qed
  then have "tri_vertex ss a = (\<Sum>b\<in>set (ss ! a).
      if a < b then card {c \<in> set (ss ! b). b < c \<and> c \<in> set (ss ! a)} else 0)"
    unfolding tri_vertex_def sum_list_distinct_conv_sum_set [OF row] by simp
  also have "\<dots> = (\<Sum>b\<in>{b \<in> set (ss ! a). a < b}.
      card {c \<in> set (ss ! b). b < c \<and> c \<in> set (ss ! a)})"
    by (intro sum.mono_neutral_cong_right) auto
  finally show ?thesis by (simp add: card_SigmaI)
qed

lemma tri_total_card:
  assumes "closed_graph ss" "\<forall>ds\<in>set ss. distinct ds"
  shows "tri_total ss = card (ordered_triangles ss)"
proof -
  have "tri_total ss = (\<Sum>a\<in>{..<length ss}. tri_vertex ss a)"
    by (simp add: tri_total_def interv_sum_list_conv_sum_set_nat atLeast0LessThan)
  also have "\<dots> = card (ordered_triangles ss)"
    unfolding ordered_triangles_def
    using tri_vertex_card [OF assms] by (subst card_SigmaI) auto
  finally show ?thesis .
qed

lemma three_ordered:
  assumes "card t = 3" "finite t"
  obtains a b c where "t = {a, b, c}" "a < b" "b < (c::nat)"
proof -
  obtain x y z where xyz: "t = {x, y, z}" "x \<noteq> y" "x \<noteq> z" "y \<noteq> z"
    using assms(1) by (auto simp: card_3_iff)
  then consider "x < y \<and> y < z" | "x < z \<and> z < y" | "y < x \<and> x < z" | "y < z \<and> z < x"
    | "z < x \<and> x < y" | "z < y \<and> y < x" by linarith
  then show thesis
  proof cases
    case 1
    then show thesis by (intro that [of x y z]) (auto simp: xyz(1))
  next
    case 2
    then show thesis by (intro that [of x z y]) (auto simp: xyz(1))
  next
    case 3
    then show thesis by (intro that [of y x z]) (auto simp: xyz(1))
  next
    case 4
    then show thesis by (intro that [of y z x]) (auto simp: xyz(1))
  next
    case 5
    then show thesis by (intro that [of z x y]) (auto simp: xyz(1))
  next
    case 6
    then show thesis by (intro that [of z y x]) (auto simp: xyz(1))
  qed
qed

lemma card_triangles:
  assumes "simple_undirected ss"
  shows "card (ordered_triangles ss) = card (triangles ss)"
proof (rule bij_betw_same_card)
  let ?f = "\<lambda>(a, b, c). {a, b, c :: nat}"
  have sym: "v \<in> set (ss ! u) \<Longrightarrow> u < length ss \<Longrightarrow> u \<in> set (ss ! v) \<and> v < length ss" for u v
    using assms closed_graphD [of ss u v] unfolding simple_undirected_def by blast
  have inj: "inj_on ?f (ordered_triangles ss)"
  proof (rule inj_onI, clarsimp)
    fix a b c a' b' c'
    assume "(a, b, c) \<in> ordered_triangles ss" "(a', b', c') \<in> ordered_triangles ss"
      and eq: "{a, b, c} = {a', b', c'}"
    then have less: "a < b" "b < c" "a' < b'" "b' < c'" by (auto simp: ordered_triangles_def)
    have "a \<in> {a', b', c'}" "a' \<in> {a, b, c}" using eq by blast+
    then have a: "a = a'" using less by auto
    have "c \<in> {a', b', c'}" "c' \<in> {a, b, c}" using eq by blast+
    then have c: "c = c'" using less by auto
    have "b \<in> {a', b', c'}" using eq by blast
    then have "b = b'" using less a c by auto
    with a c show "a = a' \<and> b = b' \<and> c = c'" by simp
  qed
  have "?f ` ordered_triangles ss = triangles ss"
  proof (intro equalityI subsetI)
    fix t
    assume "t \<in> ?f ` ordered_triangles ss"
    then obtain a b c where t: "t = {a, b, c}" and abc: "a < length ss" "b \<in> set (ss ! a)" "a < b"
      "c \<in> set (ss ! b)" "b < c" "c \<in> set (ss ! a)"
      by (auto simp: ordered_triangles_def)
    then show "t \<in> triangles ss"
      using sym [OF abc(2,1)] sym [OF abc(6,1)] sym [OF abc(4)]
      by (auto simp: triangles_def)
  next
    fix t
    assume t: "t \<in> triangles ss"
    then have "finite t" using finite_subset by (auto simp: triangles_def)
    then obtain a b c where abc: "t = {a, b, c}" "a < b" "b < c"
      using t three_ordered [of t] by (auto simp: triangles_def)
    then have "(a, b, c) \<in> ordered_triangles ss"
      using t by (auto simp: triangles_def ordered_triangles_def)
    then show "t \<in> ?f ` ordered_triangles ss" using abc(1) by force
  qed
  with inj show "bij_betw ?f (ordered_triangles ss) (triangles ss)"
    by (simp add: bij_betw_def)
qed

section \<open>The two loops\<close>

context graph_sorting
begin

lemma tc_sort_loop:
  assumes "galois_ok rt" "ginv g"
  shows "\<exists>g'. do_all rt k (g_sort_edges ops) [0..<length (succs g)] g = Inr g' \<and>
    ginv g' \<and> succs g' = map sort (succs g)"
proof -
  let ?n = "length (succs g)"
  let ?P = "\<lambda>ys h. ginv h \<and> succs h =
    map (\<lambda>u. if u \<in> set ys then sort (succs g ! u) else succs g ! u) [0..<?n]"
  have "\<exists>ys h. mset ys = mset [0..<?n] \<and> do_all rt k (g_sort_edges ops) [0..<?n] g = Inr h \<and>
      ?P ys h"
  proof (rule do_all_rule [OF assms(1)])
    show "?P [] g" using assms(2) by (simp add: map_nth)
  next
    fix ys x h
    assume "x \<in> set [0..<?n]" and P: "?P ys h"
    then have x: "x < ?n" "x < length (succs h)" by simp_all
    obtain h' where h': "g_sort_edges ops x h = Inr h'" "ginv h'"
      "succs h' = (succs h)[x := sort (succs h ! x)]"
      using sort_law [of h x] P x by auto
    have "succs h' =
        map (\<lambda>u. if u \<in> set (ys @ [x]) then sort (succs g ! u) else succs g ! u) [0..<?n]"
      using P x by (intro nth_equalityI) (auto simp: h' nth_list_update sorted_sort_id)
    with h' show "\<exists>h'. g_sort_edges ops x h = Inr h' \<and> ?P (ys @ [x]) h'" by blast
  qed
  then obtain ys h where ys: "mset ys = mset [0..<?n]"
    and run: "do_all rt k (g_sort_edges ops) [0..<?n] g = Inr h" and P: "?P ys h" by blast
  have "set ys = {0..<?n}" using mset_eq_setD [OF ys] by simp
  with P have "succs h = map sort (succs g)" by (intro nth_equalityI) auto
  with run P show ?thesis by blast
qed

lemma tc_check_loop:
  assumes "ginv g" "v0 < length (succs g)" "sorted (succs g ! v0)"
  shows "\<exists>ups'. fold_res (tc_check ops g v0 v1) v2s ups = Inr ups' \<and>
    sum_list ups' = sum_list ups + length (filter (\<lambda>v2. v1 < v2 \<and> v2 \<in> set (succs g ! v0)) v2s)"
proof (induction v2s arbitrary: ups)
  case (Cons v v2s)
  then show ?case
    using Cons.IH [of ups] Cons.IH [of "ups @ [1]"]
    by (auto simp: tc_check_def find_law [OF assms])
qed simp

lemma tc_edge_loop:
  assumes "ginv g" "v0 < length (succs g)" "sorted (succs g ! v0)"
    and "\<And>v. v \<in> set v1s \<Longrightarrow> v < length (succs g)"
  shows "\<exists>ups'. fold_res (tc_edge ops g v0) v1s ups = Inr ups' \<and>
    sum_list ups' = sum_list ups + sum_list (map (tri_edge (succs g) v0) v1s)"
  using assms(4)
proof (induction v1s arbitrary: ups)
  case (Cons v v1s)
  have "\<exists>ups1. tc_edge ops g v0 v ups = Inr ups1 \<and>
      sum_list ups1 = sum_list ups + tri_edge (succs g) v0 v"
    using tc_check_loop [OF assms(1-3)] edges_law [OF assms(1)] Cons.prems
    by (simp add: tc_edge_def tri_edge_def)
  then obtain ups1 where "tc_edge ops g v0 v ups = Inr ups1"
    "sum_list ups1 = sum_list ups + tri_edge (succs g) v0 v" by blast
  with Cons.IH [of ups1] Cons.prems show ?case by auto
qed simp

lemma tc_count_loop:
  assumes "galois_ok rt" "ginv g" "\<And>u. u < length (succs g) \<Longrightarrow> sorted (succs g ! u)"
  shows "\<exists>ups. do_all rt k (tc_vertex ops g) [0..<length (succs g)] [] = Inr ups \<and>
    sum_list ups = tri_total (succs g)"
proof -
  let ?n = "length (succs g)"
  let ?P = "\<lambda>ys ups. sum_list ups = sum_list (map (tri_vertex (succs g)) ys)"
  have "\<exists>ys ups. mset ys = mset [0..<?n] \<and>
      do_all rt k (tc_vertex ops g) [0..<?n] [] = Inr ups \<and> ?P ys ups"
  proof (rule do_all_rule [OF assms(1)])
    fix ys x ups
    assume "x \<in> set [0..<?n]" and P: "?P ys ups"
    then have x: "x < ?n" by simp
    then show "\<exists>ups'. tc_vertex ops g x ups = Inr ups' \<and> ?P (ys @ [x]) ups'"
      using tc_edge_loop [OF assms(2) x assms(3) [OF x], of "succs g ! x" ups] P
        closed_graphD [OF closed_law [OF assms(2)] x]
      by (auto simp: tc_vertex_def tri_vertex_def edges_law [OF assms(2)])
  qed simp
  then obtain ys ups where ys: "mset ys = mset [0..<?n]"
    and run: "do_all rt k (tc_vertex ops g) [0..<?n] [] = Inr ups" and P: "?P ys ups" by blast
  have "sum_list (map (tri_vertex (succs g)) ys) = tri_total (succs g)"
    unfolding tri_total_def using ys by (metis mset_map sum_mset_sum_list)
  with run P show ?thesis by auto
qed

lemma tc_compute_total:
  assumes "galois_ok rt" "ginv g"
  shows "\<exists>g'. tc_compute ops rt g = Inr (g', tri_total (succs g) mod 2 ^ 64) \<and>
    ginv g' \<and> succs g' = map sort (succs g)"
proof -
  obtain g' where sorted: "do_all rt 0 (g_sort_edges ops) [0..<length (succs g)] g = Inr g'"
    "ginv g'" "succs g' = map sort (succs g)"
    using tc_sort_loop [OF assms] by blast
  obtain ups where "do_all rt 1 (tc_vertex ops g') [0..<length (succs g')] [] = Inr ups"
    "sum_list ups = tri_total (succs g')"
    using tc_count_loop [OF assms(1) sorted(2)] sorted(3) by auto
  moreover have "reduce_sum rt ups = sum_list ups mod 2 ^ 64"
    using assms(1) by (simp add: galois_ok_def)
  ultimately show ?thesis
    using sorted tri_total_sorted [OF closed_law [OF assms(2)]]
    by (simp add: tc_compute_def size_law assms(2))
qed

lemma tc_compute_triangles:
  assumes "galois_ok rt" "ginv g" "simple_undirected (succs g)"
  shows "\<exists>g'. tc_compute ops rt g = Inr (g', card (triangles (succs g)) mod 2 ^ 64)"
  using tc_compute_total [OF assms(1,2)] tri_total_card [of "succs g"] card_triangles [OF assms(3)]
    assms(3)
  by (auto simp: simple_undirected_def)

end

section \<open>CSR: only where the rows are sorted to begin with\<close>

definition csr_sorted_inv :: "csr_graph \<Rightarrow> bool" where
  "csr_sorted_inv g \<longleftrightarrow> csr_inv g \<and> (\<forall>ds\<in>set (m_edges g). sorted ds)"

interpretation csrs: graph_sorting csr_ops csr_sorted_inv m_edges
proof unfold_locales
  fix g :: csr_graph and u
  assume g: "csr_sorted_inv g" and u: "u < length (m_edges g)"
  then have "sort (m_edges g ! u) = m_edges g ! u"
    by (simp add: csr_sorted_inv_def sorted_sort_id)
  with g u show "\<exists>g'. g_sort_edges csr_ops u g = Inr g' \<and> csr_sorted_inv g' \<and>
      m_edges g' = (m_edges g)[u := sort (m_edges g ! u)]"
    by (auto simp: csr_sorted_inv_def csr_ops_def csr_sort_edges_noop)
qed (auto simp: csr_sorted_inv_def csr_ops_def csr_find_ok binary_search_sorted
    csr_size_def csr_degree_ok csr_for_each_edge_ok csr_inv_def)

end
