(* ===== verification/Bfs.thy ===== *)
theory Bfs
  imports Distance CsrGraph
begin

text \<open>
  \<open>SSSP_BFS\<close> (include/scea/algo/bfs.hpp): level-synchronous breadth-first search over any
  \<open>MutableGraph\<close>. The two work lists are bags, here lists whose order the runtime chooses.
  The search is modelled twice: as the code with each iteration of the parallel loop run to
  its end (\<open>bfs_compute\<close>), and with the iterations of one level interleaved access by access
  (\<open>bfs_step\<close>), which is what the comments about missing synchronisation are about.
\<close>

definition unvisited :: nat where
  "unvisited = u64_max"

text \<open>The callback on an edge: push the neighbour if it looks unvisited.\<close>

definition bfs_push :: "nat list \<Rightarrow> nat \<Rightarrow> nat list \<Rightarrow> nat list res" where
  "bfs_push sp neighbor nextSt =
     res_map (\<lambda>d. if d = unvisited then nextSt @ [neighbor] else nextSt) (vec_get sp neighbor)"

text \<open>One iteration of the loop over \<open>currSt\<close>.\<close>

definition bfs_visit :: "'g graph_ops \<Rightarrow> 'g \<Rightarrow> nat \<Rightarrow> nat \<Rightarrow> nat list \<times> nat list
    \<Rightarrow> (nat list \<times> nat list) res" where
  "bfs_visit ops g level vertex st = (case st of (sp, nextSt) \<Rightarrow>
     res_bind (vec_get sp vertex) (\<lambda>d.
       if d \<noteq> unvisited then Inr (sp, nextSt)
       else res_bind (vec_set sp vertex level) (\<lambda>sp'.
            res_bind (g_for_each_edge ops g vertex) (\<lambda>neighbors.
            res_map (\<lambda>nx. (sp', nx)) (fold_res (bfs_push sp') neighbors nextSt)))))"

text \<open>The loop over the levels; \<open>None\<close> would be a search that does not end.\<close>

partial_function (option) bfs_loop ::
  "'g graph_ops \<Rightarrow> galois_rt \<Rightarrow> 'g \<Rightarrow> nat \<Rightarrow> nat list \<Rightarrow> nat list \<Rightarrow> nat list res option" where
  "bfs_loop ops rt g level sp nextSt =
     (if nextSt = [] then Some (Inr sp)
      else case do_all rt level (bfs_visit ops g level) nextSt (sp, []) of
          Inl e \<Rightarrow> Some (Inl e)
        | Inr st \<Rightarrow> bfs_loop ops rt g (u64_add level 1) (fst st) (snd st))"

declare bfs_loop.simps [code]

definition bfs_compute ::
  "'g graph_ops \<Rightarrow> galois_rt \<Rightarrow> 'g \<Rightarrow> nat \<Rightarrow> nat list res option" where
  "bfs_compute ops rt g src =
     (let shortest_path = replicate (g_size ops g) unvisited
      in if src \<ge> g_size ops g then Some (Inr shortest_path)
         else bfs_loop ops rt g 0 shortest_path [src])"

text \<open>What the search should return.\<close>

definition hops_vector :: "nat list list \<Rightarrow> nat \<Rightarrow> nat list" where
  "hops_vector ss src =
     map (\<lambda>v. case hops ss src v of None \<Rightarrow> unvisited | Some k \<Rightarrow> k) [0..<length ss]"

section \<open>One level\<close>

text \<open>
  What a level does, whatever the order or the interleaving of its iterations: the unvisited
  members of the current bag get the level; the next bag holds only successors of those, and
  all their successors that are still unvisited.
\<close>

definition bfs_level_post ::
  "nat list list \<Rightarrow> nat \<Rightarrow> nat list \<Rightarrow> nat list \<Rightarrow> nat list \<Rightarrow> nat list \<Rightarrow> bool" where
  "bfs_level_post ss l cur sp sp' nx \<longleftrightarrow>
     length sp' = length sp \<and>
     (\<forall>v<length sp. sp' ! v = (if sp ! v = unvisited \<and> v \<in> set cur then l else sp ! v)) \<and>
     (\<forall>u\<in>set nx. \<exists>w\<in>set cur. sp ! w = unvisited \<and> u \<in> set (ss ! w)) \<and>
     (\<forall>w\<in>set cur. sp ! w = unvisited \<longrightarrow>
        (\<forall>u\<in>set (ss ! w). sp' ! u = unvisited \<longrightarrow> u \<in> set nx))"

lemma bfs_push_loop:
  assumes "\<And>u. u \<in> set us \<Longrightarrow> u < length sp"
  shows "fold_res (bfs_push sp) us nx = Inr (nx @ filter (\<lambda>u. sp ! u = unvisited) us)"
  using assms by (induction us arbitrary: nx) (auto simp: bfs_push_def)

lemma bfs_level_post_step:
  assumes post: "bfs_level_post ss l ys sp sp1 nx" and x: "x < length sp"
    and succ: "\<And>u. u \<in> set (ss ! x) \<Longrightarrow> u < length sp" and "l \<noteq> unvisited"
  shows "sp1 ! x \<noteq> unvisited \<Longrightarrow> bfs_level_post ss l (ys @ [x]) sp sp1 nx"
    and "sp1 ! x = unvisited \<Longrightarrow> bfs_level_post ss l (ys @ [x]) sp (sp1[x := l])
      (nx @ filter (\<lambda>u. sp1[x := l] ! u = unvisited) (ss ! x))"
proof -
  have len: "length sp1 = length sp"
    and val: "\<And>v. v < length sp \<Longrightarrow>
      sp1 ! v = (if sp ! v = unvisited \<and> v \<in> set ys then l else sp ! v)"
    and sub: "\<And>u. u \<in> set nx \<Longrightarrow> \<exists>w\<in>set ys. sp ! w = unvisited \<and> u \<in> set (ss ! w)"
    and sup: "\<And>w u. w \<in> set ys \<Longrightarrow> sp ! w = unvisited \<Longrightarrow> u \<in> set (ss ! w) \<Longrightarrow>
      sp1 ! u = unvisited \<Longrightarrow> u \<in> set nx"
    using post by (auto simp: bfs_level_post_def)
  show "bfs_level_post ss l (ys @ [x]) sp sp1 nx" if "sp1 ! x \<noteq> unvisited"
  proof -
    have "sp ! x = unvisited \<Longrightarrow> x \<in> set ys" using that val [OF x] by (auto split: if_splits)
    then show ?thesis
      using len val sub sup by (auto simp: bfs_level_post_def)
  qed
  show "bfs_level_post ss l (ys @ [x]) sp (sp1[x := l])
      (nx @ filter (\<lambda>u. sp1[x := l] ! u = unvisited) (ss ! x))" if "sp1 ! x = unvisited"
  proof -
    have "sp ! x = unvisited" using that val [OF x] assms(4) by (auto split: if_splits)
    moreover have "u \<in> set nx"
      if "w \<in> set ys" "sp ! w = unvisited" "u \<in> set (ss ! w)" "sp1[x := l] ! u = unvisited"
      for w u
      using sup [OF that(1-3)] that(4) assms(4) x len by (cases "u = x") auto
    ultimately show ?thesis
      using len val sub x assms(4) by (auto simp: bfs_level_post_def nth_list_update)
  qed
qed

text \<open>The invariant of the loop over the levels.\<close>

definition bfs_inv :: "nat list list \<Rightarrow> nat \<Rightarrow> nat \<Rightarrow> nat list \<Rightarrow> nat list \<Rightarrow> bool" where
  "bfs_inv ss s l sp nx \<longleftrightarrow>
     length sp = length ss \<and>
     (\<forall>v<length ss. sp ! v =
        (case hops ss s v of None \<Rightarrow> unvisited | Some k \<Rightarrow> if k < l then k else unvisited)) \<and>
     (\<forall>v\<in>set nx. v < length ss \<and> (\<exists>j\<le>l. hops ss s v = Some j)) \<and>
     (\<forall>v. hops ss s v = Some l \<longrightarrow> v \<in> set nx) \<and>
     (nx \<noteq> [] \<longrightarrow> l = 0 \<or> (\<exists>w. hops ss s w = Some (l - 1)))"

lemma bfs_inv_start:
  assumes "s < length ss"
  shows "bfs_inv ss s 0 (replicate (length ss) unvisited) [s]"
  using assms by (auto simp: bfs_inv_def hops_0_iff split: option.splits)

text \<open>What the searches assume of the graph: closed, a source inside, and room for every distance.\<close>

definition bfs_setting :: "nat list list \<Rightarrow> nat \<Rightarrow> bool" where
  "bfs_setting ss s \<longleftrightarrow> closed_graph ss \<and> s < length ss \<and> length ss < unvisited"

lemma bfs_inv_level_bound:
  assumes "bfs_setting ss s" "bfs_inv ss s l sp nx" "nx \<noteq> []"
  shows "l \<le> length ss" "l < unvisited"
proof -
  show "l \<le> length ss"
    using assms hops_less_size [of ss s] by (fastforce simp: bfs_inv_def bfs_setting_def)
  then show "l < unvisited" using assms(1) by (simp add: bfs_setting_def)
qed

lemma hops_less_unvisited: "bfs_setting ss s \<Longrightarrow> hops ss s v = Some k \<Longrightarrow> k < unvisited"
  using hops_less_size [of ss s v k] by (simp add: bfs_setting_def)

lemma bfs_inv_level:
  assumes set: "bfs_setting ss s" and inv: "bfs_inv ss s l sp cur" and "cur \<noteq> []"
    and post: "bfs_level_post ss l cur sp sp' nx"
  shows "bfs_inv ss s (Suc l) sp' nx"
proof -
  have closed: "closed_graph ss" and src: "s < length ss"
    using set by (simp_all add: bfs_setting_def)
  have l: "l < unvisited" using bfs_inv_level_bound [OF set inv assms(3)] by simp
  have len: "length sp = length ss"
    and val: "\<And>v. v < length ss \<Longrightarrow> sp ! v =
      (case hops ss s v of None \<Rightarrow> unvisited | Some k \<Rightarrow> if k < l then k else unvisited)"
    and cur: "\<And>v. v \<in> set cur \<Longrightarrow> v < length ss \<and> (\<exists>j\<le>l. hops ss s v = Some j)"
    and full: "\<And>v. hops ss s v = Some l \<Longrightarrow> v \<in> set cur"
    using inv by (auto simp: bfs_inv_def)
  have new: "v \<in> set cur \<and> sp ! v = unvisited \<longleftrightarrow> hops ss s v = Some l" for v
    using val [of v] cur [of v] full [of v] hops_bound [OF closed src, of v l]
      hops_less_unvisited [OF set, of v]
    by (fastforce split: option.splits if_splits)
  have val': "sp' ! v =
      (case hops ss s v of None \<Rightarrow> unvisited | Some k \<Rightarrow> if k < Suc l then k else unvisited)"
    if "v < length ss" for v
    using post val [OF that] new [of v] that len
    by (auto simp: bfs_level_post_def less_Suc_eq split: option.splits if_splits)
  have sub: "\<exists>w. hops ss s w = Some l \<and> w < length ss \<and> u \<in> set (ss ! w)" if "u \<in> set nx" for u
    using post that new cur by (fastforce simp: bfs_level_post_def)
  have "v \<in> set nx" if v: "hops ss s v = Some (Suc l)" for v
  proof -
    obtain w where w: "w < length ss" "hops ss s w = Some l" "v \<in> set (ss ! w)"
      using hops_pred [OF v] by auto
    moreover have "sp' ! v = unvisited"
      using val' [of v] v hops_bound [OF closed src v] by simp
    ultimately show ?thesis using post new [of w] by (auto simp: bfs_level_post_def)
  qed
  moreover have "u < length ss \<and> (\<exists>j\<le>Suc l. hops ss s u = Some j)" if "u \<in> set nx" for u
    using sub [OF that] closed_graphD [OF closed] hops_step_le by blast
  moreover have "nx \<noteq> [] \<longrightarrow> (\<exists>w. hops ss s w = Some l)"
    using sub by (metis list.set_intros(1) neq_Nil_conv)
  ultimately show ?thesis
    using val' post len by (simp add: bfs_inv_def bfs_level_post_def)
qed

lemma bfs_inv_end:
  assumes "bfs_inv ss s l sp []"
  shows "sp = hops_vector ss s"
proof (rule nth_equalityI)
  show "length sp = length (hops_vector ss s)"
    using assms by (simp add: bfs_inv_def hops_vector_def)
next
  fix v
  assume "v < length sp"
  then have v: "v < length ss" using assms by (simp add: bfs_inv_def)
  have "k < l" if "hops ss s v = Some k" for k
    using assms hops_all_levels [OF that, of l] by (fastforce simp: bfs_inv_def not_less)
  then show "sp ! v = hops_vector ss s ! v"
    using assms v by (auto simp: bfs_inv_def hops_vector_def split: option.splits)
qed

context graph_reading
begin

text \<open>A level run iteration by iteration, in any order.\<close>

lemma bfs_level_runs:
  assumes "galois_ok rt" "ginv g" "length sp = length (succs g)" "l \<noteq> unvisited"
    and cur: "\<And>v. v \<in> set cur \<Longrightarrow> v < length (succs g)"
  shows "\<exists>sp' nx. do_all rt k (bfs_visit ops g l) cur (sp, []) = Inr (sp', nx) \<and>
    bfs_level_post (succs g) l cur sp sp' nx"
proof -
  let ?ss = "succs g"
  let ?P = "\<lambda>ys st. bfs_level_post ?ss l ys sp (fst st) (snd st)"
  have succ: "u < length sp" if "v < length ?ss" "u \<in> set (?ss ! v)" for u v
    using closed_graphD [OF closed_law [OF assms(2)] that] assms(3) by simp
  have "\<exists>ys st. mset ys = mset cur \<and> do_all rt k (bfs_visit ops g l) cur (sp, []) = Inr st \<and>
      ?P ys st"
  proof (rule do_all_rule [OF assms(1)])
    fix ys x and st :: "nat list \<times> nat list"
    assume "x \<in> set cur" and P: "?P ys st"
    then have x: "x < length ?ss" using cur by simp
    obtain sp1 nx where st: "st = (sp1, nx)" by (cases st)
    with P have len: "length sp1 = length sp" by (simp add: bfs_level_post_def)
    show "\<exists>st'. bfs_visit ops g l x st = Inr st' \<and> ?P (ys @ [x]) st'"
    proof (cases "sp1 ! x = unvisited")
      case True
      have "fold_res (bfs_push (sp1[x := l])) (?ss ! x) nx =
          Inr (nx @ filter (\<lambda>u. sp1[x := l] ! u = unvisited) (?ss ! x))"
        using succ [OF x] len by (intro bfs_push_loop) simp
      then have "bfs_visit ops g l x st = Inr (sp1[x := l],
          nx @ filter (\<lambda>u. sp1[x := l] ! u = unvisited) (?ss ! x))"
        using True x len assms(3) by (simp add: bfs_visit_def st edges_law [OF assms(2)])
      then show ?thesis
        using bfs_level_post_step(2) [of ?ss l ys sp sp1 nx x] P st True x succ [OF x] assms(3,4)
        by simp
    next
      case False
      then show ?thesis
        using bfs_level_post_step(1) [of ?ss l ys sp sp1 nx x] P st x succ [OF x] assms(3,4) len
        by (simp add: bfs_visit_def)
    qed
  qed (simp add: bfs_level_post_def)
  then obtain ys st where ys: "mset ys = mset cur"
    and run: "do_all rt k (bfs_visit ops g l) cur (sp, []) = Inr st" and P: "?P ys st" by blast
  have "bfs_level_post ?ss l cur sp (fst st) (snd st)"
    using P mset_eq_setD [OF ys] by (simp add: bfs_level_post_def)
  with run show ?thesis by (metis prod.collapse)
qed

lemma bfs_loop_correct:
  assumes rt: "galois_ok rt" and g: "ginv g" and s: "s < length (succs g)"
    and small: "length (succs g) < unvisited" and inv: "bfs_inv (succs g) s l sp nx"
  shows "bfs_loop ops rt g l sp nx = Some (Inr (hops_vector (succs g) s))"
  using inv
proof (induction "Suc (length (succs g)) - l" arbitrary: l sp nx rule: less_induct)
  case less
  have set: "bfs_setting (succs g) s"
    using closed_law [OF g] s small by (simp add: bfs_setting_def)
  show ?case
  proof (cases "nx = []")
    case True
    then show ?thesis
      using bfs_inv_end [of "succs g" s l sp] less.prems by (simp add: bfs_loop.simps)
  next
    case False
    have l: "l \<le> length (succs g)" "l < unvisited"
      using bfs_inv_level_bound [OF set less.prems False] by simp_all
    obtain sp' nx' where run: "do_all rt l (bfs_visit ops g l) nx (sp, []) = Inr (sp', nx')"
      and post: "bfs_level_post (succs g) l nx sp sp' nx'"
      using bfs_level_runs [OF rt g, of sp l nx l] less.prems l by (auto simp: bfs_inv_def)
    have "bfs_loop ops rt g (Suc l) sp' nx' = Some (Inr (hops_vector (succs g) s))"
      using bfs_inv_level [OF set less.prems False post] l
      by (intro less.hyps) auto
    moreover have "u64_add l 1 = Suc l"
      using l small by (simp add: u64_add_small unvisited_def)
    ultimately show ?thesis
      using False run by (simp add: bfs_loop.simps [of ops rt g l])
  qed
qed

lemma bfs_compute_spec:
  assumes "galois_ok rt" "ginv g" "length (succs g) < unvisited"
  shows "bfs_compute ops rt g src = Some (Inr
    (if src < length (succs g) then hops_vector (succs g) src
     else replicate (length (succs g)) unvisited))"
  using bfs_loop_correct [OF assms(1,2) _ assms(3) bfs_inv_start]
  by (simp add: bfs_compute_def size_law [OF assms(2)])

end

end
