(* ===== verification/BfsParallel.thy ===== *)
theory BfsParallel
  imports Bfs
begin

text \<open>
  The iterations of one level of \<open>SSSP_BFS::compute\<close> interleaved access by access. Each
  iteration is a task: it reads \<open>shortest_path[vertex]\<close>, writes the level, and then reads the
  entry of each neighbour and pushes it on the next bag. Between two accesses of a task any
  other task may run, so a vertex that is in the bag twice can be written and scanned twice;
  the code says that needs no synchronisation, because all writers write the same level.
  Accesses are sequentially consistent here.
\<close>

datatype bfs_task =
    Check nat
  | Write nat
  | Scan "nat list"
  | Push nat "nat list"

type_synonym bfs_config = "bfs_task list \<times> nat list \<times> nat list"

inductive bfs_step :: "'g graph_ops \<Rightarrow> 'g \<Rightarrow> nat \<Rightarrow> bfs_config \<Rightarrow> bfs_config \<Rightarrow> bool"
  for ops g level where
  visited: "i < length ts \<Longrightarrow> ts ! i = Check v \<Longrightarrow> vec_get sp v = Inr d \<Longrightarrow> d \<noteq> unvisited \<Longrightarrow>
    bfs_step ops g level (ts, sp, nx) (ts[i := Scan []], sp, nx)"
| fresh: "i < length ts \<Longrightarrow> ts ! i = Check v \<Longrightarrow> vec_get sp v = Inr d \<Longrightarrow> d = unvisited \<Longrightarrow>
    bfs_step ops g level (ts, sp, nx) (ts[i := Write v], sp, nx)"
| write_level: "i < length ts \<Longrightarrow> ts ! i = Write v \<Longrightarrow> vec_set sp v level = Inr sp' \<Longrightarrow>
    g_for_each_edge ops g v = Inr us \<Longrightarrow>
    bfs_step ops g level (ts, sp, nx) (ts[i := Scan us], sp', nx)"
| see_unvisited: "i < length ts \<Longrightarrow> ts ! i = Scan (u # us) \<Longrightarrow> vec_get sp u = Inr d \<Longrightarrow>
    d = unvisited \<Longrightarrow> bfs_step ops g level (ts, sp, nx) (ts[i := Push u us], sp, nx)"
| see_visited: "i < length ts \<Longrightarrow> ts ! i = Scan (u # us) \<Longrightarrow> vec_get sp u = Inr d \<Longrightarrow>
    d \<noteq> unvisited \<Longrightarrow> bfs_step ops g level (ts, sp, nx) (ts[i := Scan us], sp, nx)"
| push: "i < length ts \<Longrightarrow> ts ! i = Push u us \<Longrightarrow>
    bfs_step ops g level (ts, sp, nx) (ts[i := Scan us], sp, nx @ [u])"

inductive_cases bfs_stepE: "bfs_step ops g level (ts, sp, nx) c"

definition bfs_finished :: "bfs_config \<Rightarrow> bool" where
  "bfs_finished c \<longleftrightarrow> (\<forall>t\<in>set (fst c). t = Scan [])"

definition bfs_level_start :: "nat list \<Rightarrow> nat list \<Rightarrow> bfs_config" where
  "bfs_level_start cur sp = (map Check cur, sp, [])"

text \<open>A run of the loop over the levels: each level runs some interleaving to its end.\<close>

inductive bfs_par :: "'g graph_ops \<Rightarrow> 'g \<Rightarrow> nat \<Rightarrow> nat list \<Rightarrow> nat list \<Rightarrow> nat list \<Rightarrow> bool"
  for ops g where
  par_end: "bfs_par ops g level sp [] sp"
| par_level: "nx \<noteq> [] \<Longrightarrow>
    (bfs_step ops g level)\<^sup>*\<^sup>* (bfs_level_start nx sp) (ts, sp', nx') \<Longrightarrow>
    bfs_finished (ts, sp', nx') \<Longrightarrow> bfs_par ops g (u64_add level 1) sp' nx' r \<Longrightarrow>
    bfs_par ops g level sp nx r"

section \<open>The invariant of a level\<close>

text \<open>\<open>scanned ss sp nx w t\<close>: the task has scanned the successors of \<open>w\<close> up to its rest.\<close>

fun scanned :: "nat list list \<Rightarrow> nat list \<Rightarrow> nat list \<Rightarrow> nat \<Rightarrow> bfs_task \<Rightarrow> bool" where
  "scanned ss sp nx w (Scan us) \<longleftrightarrow>
     (\<forall>u\<in>set (ss ! w). u \<in> set us \<or> sp ! u \<noteq> unvisited \<or> u \<in> set nx)"
| "scanned ss sp nx w (Push v us) \<longleftrightarrow>
     (\<forall>u\<in>set (ss ! w). u = v \<or> u \<in> set us \<or> sp ! u \<noteq> unvisited \<or> u \<in> set nx)"
| "scanned ss sp nx w t \<longleftrightarrow> False"

text \<open>What is true of the task that was started for \<open>w\<close>; \<open>sp0\<close> is the array at the start.\<close>

fun task_ok :: "nat list list \<Rightarrow> nat list \<Rightarrow> nat list \<Rightarrow> nat \<Rightarrow> bfs_task \<Rightarrow> bool" where
  "task_ok ss sp0 sp w (Check v) \<longleftrightarrow> v = w"
| "task_ok ss sp0 sp w (Write v) \<longleftrightarrow> v = w \<and> sp0 ! w = unvisited"
| "task_ok ss sp0 sp w (Scan us) \<longleftrightarrow> sp ! w \<noteq> unvisited \<and>
     (us = [] \<or> sp0 ! w = unvisited) \<and> set us \<subseteq> set (ss ! w)"
| "task_ok ss sp0 sp w (Push u us) \<longleftrightarrow> sp ! w \<noteq> unvisited \<and>
     sp0 ! w = unvisited \<and> set (u # us) \<subseteq> set (ss ! w)"

definition par_inv ::
  "nat list list \<Rightarrow> nat \<Rightarrow> nat list \<Rightarrow> nat list \<Rightarrow> bfs_config \<Rightarrow> bool" where
  "par_inv ss l cur sp0 c \<longleftrightarrow> (case c of (ts, sp, nx) \<Rightarrow>
     length ts = length cur \<and> length sp = length sp0 \<and>
     (\<forall>v<length sp0. sp ! v = sp0 ! v \<or> sp0 ! v = unvisited \<and> v \<in> set cur \<and> sp ! v = l) \<and>
     (\<forall>i<length cur. task_ok ss sp0 sp (cur ! i) (ts ! i)) \<and>
     (\<forall>w<length sp0. sp0 ! w = unvisited \<and> sp ! w \<noteq> unvisited \<longrightarrow>
        (\<exists>i<length cur. cur ! i = w \<and> scanned ss sp nx w (ts ! i))) \<and>
     (\<forall>u\<in>set nx. \<exists>w\<in>set cur. sp0 ! w = unvisited \<and> u \<in> set (ss ! w)))"

lemma scanned_mono:
  "scanned ss sp nx w t \<Longrightarrow> (\<And>u. sp ! u \<noteq> unvisited \<Longrightarrow> sp' ! u \<noteq> unvisited) \<Longrightarrow>
    set nx \<subseteq> set nx' \<Longrightarrow> scanned ss sp' nx' w t"
  by (cases t) auto

lemma task_ok_mono:
  "task_ok ss sp0 sp w t \<Longrightarrow> (\<And>u. sp ! u \<noteq> unvisited \<Longrightarrow> sp' ! u \<noteq> unvisited) \<Longrightarrow>
    task_ok ss sp0 sp' w t"
  by (cases t) auto

text \<open>
  One step of one task keeps the invariant if it keeps it for that task: entries of the array
  only change from unvisited to the level, and the bag only grows.
\<close>

lemma par_inv_task:
  assumes inv: "par_inv ss l cur sp0 (ts, sp, nx)" and i: "i < length ts"
    and "length sp' = length sp" and "set nx \<subseteq> set nx'" and "l \<noteq> unvisited"
    and cur: "\<And>v. v \<in> set cur \<Longrightarrow> v < length sp0"
    and same: "\<And>u. u \<noteq> cur ! i \<Longrightarrow> sp' ! u = sp ! u"
    and upd: "sp' ! (cur ! i) = sp ! (cur ! i) \<or>
      sp0 ! (cur ! i) = unvisited \<and> sp' ! (cur ! i) = l \<and> scanned ss sp' nx' (cur ! i) t"
    and ok: "task_ok ss sp0 sp' (cur ! i) t"
    and scan: "scanned ss sp nx (cur ! i) (ts ! i) \<Longrightarrow> scanned ss sp' nx' (cur ! i) t"
    and bag: "\<And>u. u \<in> set nx' \<Longrightarrow> u \<in> set nx \<or> (sp0 ! (cur ! i) = unvisited \<and> u \<in> set (ss ! (cur ! i)))"
  shows "par_inv ss l cur sp0 (ts[i := t], sp', nx')"
proof -
  let ?w = "cur ! i"
  have len: "length ts = length cur" "length sp = length sp0"
    and val: "\<And>v. v < length sp0 \<Longrightarrow> sp ! v = sp0 ! v \<or>
      sp0 ! v = unvisited \<and> v \<in> set cur \<and> sp ! v = l"
    and tasks: "\<And>j. j < length cur \<Longrightarrow> task_ok ss sp0 sp (cur ! j) (ts ! j)"
    and swept: "\<And>w. w < length sp0 \<Longrightarrow> sp0 ! w = unvisited \<Longrightarrow> sp ! w \<noteq> unvisited \<Longrightarrow>
      \<exists>j<length cur. cur ! j = w \<and> scanned ss sp nx w (ts ! j)"
    and nx: "\<And>u. u \<in> set nx \<Longrightarrow> \<exists>w\<in>set cur. sp0 ! w = unvisited \<and> u \<in> set (ss ! w)"
    using inv unfolding par_inv_def by auto
  have w: "?w \<in> set cur" "?w < length sp0" "i < length cur" using i len cur by auto
  have mono: "sp' ! u \<noteq> unvisited" if "sp ! u \<noteq> unvisited" for u
    using same [of u] upd that assms(5) by (cases "u = ?w") auto
  have "sp' ! v = sp0 ! v \<or> sp0 ! v = unvisited \<and> v \<in> set cur \<and> sp' ! v = l"
    if "v < length sp0" for v
    using val [OF that] same [of v] upd w by (cases "v = ?w") auto
  moreover have "task_ok ss sp0 sp' (cur ! j) (ts[i := t] ! j)" if "j < length cur" for j
    using tasks [OF that] ok i task_ok_mono mono by (cases "j = i") auto
  moreover have "\<exists>j<length cur. cur ! j = v \<and> scanned ss sp' nx' v (ts[i := t] ! j)"
    if v: "v < length sp0" "sp0 ! v = unvisited" "sp' ! v \<noteq> unvisited" for v
  proof (cases "sp ! v = unvisited")
    case True
    then have "v = ?w" using same [of v] v(3) by auto
    with True upd v(3) have "scanned ss sp' nx' v t" by auto
    then show ?thesis using \<open>v = ?w\<close> w i by (intro exI [of _ i]) auto
  next
    case False
    then obtain j where j: "j < length cur" "cur ! j = v" "scanned ss sp nx v (ts ! j)"
      using swept [OF v(1,2)] by auto
    show ?thesis
    proof (cases "j = i")
      case True
      then show ?thesis using j scan i by (intro exI [of _ i]) auto
    next
      case False
      then show ?thesis
        using j scanned_mono [OF j(3), of sp' nx'] mono assms(4) by (intro exI [of _ j]) auto
    qed
  qed
  moreover have "\<exists>w\<in>set cur. sp0 ! w = unvisited \<and> u \<in> set (ss ! w)" if "u \<in> set nx'" for u
    using bag [OF that] nx w by blast
  ultimately show ?thesis using len assms(3) by (simp add: par_inv_def)
qed

lemma par_inv_start:
  assumes "\<And>v. v \<in> set cur \<Longrightarrow> v < length sp0"
  shows "par_inv ss l cur sp0 (bfs_level_start cur sp0)"
  by (auto simp: par_inv_def bfs_level_start_def)

lemma par_inv_finished:
  assumes inv: "par_inv ss l cur sp0 (ts, sp, nx)" and fin: "bfs_finished (ts, sp, nx)"
    and "l \<noteq> unvisited" and cur: "\<And>v. v \<in> set cur \<Longrightarrow> v < length sp0"
  shows "bfs_level_post ss l cur sp0 sp nx"
proof -
  have len: "length ts = length cur" "length sp = length sp0"
    and val: "\<And>v. v < length sp0 \<Longrightarrow> sp ! v = sp0 ! v \<or>
      sp0 ! v = unvisited \<and> v \<in> set cur \<and> sp ! v = l"
    and tasks: "\<And>j. j < length cur \<Longrightarrow> task_ok ss sp0 sp (cur ! j) (ts ! j)"
    and swept: "\<And>w. w < length sp0 \<Longrightarrow> sp0 ! w = unvisited \<Longrightarrow> sp ! w \<noteq> unvisited \<Longrightarrow>
      \<exists>j<length cur. cur ! j = w \<and> scanned ss sp nx w (ts ! j)"
    and nx: "\<And>u. u \<in> set nx \<Longrightarrow> \<exists>w\<in>set cur. sp0 ! w = unvisited \<and> u \<in> set (ss ! w)"
    using inv unfolding par_inv_def by auto
  have end_task: "ts ! j = Scan []" if "j < length cur" for j
    using fin that len by (simp add: bfs_finished_def)
  have written: "sp ! w \<noteq> unvisited" if "w \<in> set cur" for w
    using that tasks end_task by (fastforce simp: in_set_conv_nth)
  have "sp ! v = (if sp0 ! v = unvisited \<and> v \<in> set cur then l else sp0 ! v)"
    if "v < length sp0" for v
    using val [OF that] written [of v] assms(3) by auto
  moreover have "u \<in> set nx"
    if "w \<in> set cur" "sp0 ! w = unvisited" "u \<in> set (ss ! w)" "sp ! u = unvisited" for w u
    using swept [of w] cur [OF that(1)] written [OF that(1)] that end_task by fastforce
  ultimately show ?thesis using len nx by (auto simp: bfs_level_post_def)
qed

section \<open>Every step makes progress\<close>

text \<open>
  \<open>work\<close> bounds the accesses a task still makes; \<open>deg\<close> is the number of edges of its vertex.
\<close>

fun work :: "nat list list \<Rightarrow> bfs_task \<Rightarrow> nat" where
  "work ss (Check v) = 2 * length (ss ! v) + 2"
| "work ss (Write v) = 2 * length (ss ! v) + 1"
| "work ss (Scan us) = 2 * length us"
| "work ss (Push u us) = 2 * length us + 1"

definition total_work :: "nat list list \<Rightarrow> bfs_config \<Rightarrow> nat" where
  "total_work ss c = sum_list (map (work ss) (fst c))"

lemma sum_list_update_less:
  fixes xs :: "nat list"
  assumes "i < length xs" "x < xs ! i"
  shows "sum_list (xs[i := x]) < sum_list xs"
  unfolding sum_list_update [OF assms(1)]
  using assms(2) elem_le_sum_list [OF assms(1)] by linarith

lemma total_work_less:
  "i < length ts \<Longrightarrow> work ss t < work ss (ts ! i) \<Longrightarrow>
    total_work ss (ts[i := t], sp', nx') < total_work ss (ts, sp, nx)"
  using sum_list_update_less [of i "map (work ss) ts" "work ss t"]
  by (simp add: total_work_def map_update)

context graph_reading
begin

lemma bfs_step_inv:
  assumes g: "ginv g" and len: "length sp0 = length (succs g)" and l: "l \<noteq> unvisited"
    and cur: "\<And>v. v \<in> set cur \<Longrightarrow> v < length sp0"
    and inv: "par_inv (succs g) l cur sp0 (ts, sp, nx)"
    and step: "bfs_step ops g l (ts, sp, nx) c"
  shows "par_inv (succs g) l cur sp0 c"
proof -
  let ?ss = "succs g"
  have lens: "length ts = length cur" "length sp = length sp0"
    and val: "\<And>v. v < length sp0 \<Longrightarrow> sp ! v = sp0 ! v \<or>
      sp0 ! v = unvisited \<and> v \<in> set cur \<and> sp ! v = l"
    and task: "\<And>i. i < length ts \<Longrightarrow> task_ok ?ss sp0 sp (cur ! i) (ts ! i)"
    using inv unfolding par_inv_def by auto
  have in_range: "cur ! i < length sp0" if "i < length ts" for i
    using that lens cur by simp
  note here = par_inv_task [OF inv _ _ _ l cur]
  from step show ?thesis
  proof (elim bfs_stepE, goal_cases)
    case (1 i v d)
    with task [of i] show ?case
      by (auto simp: vec_get_def split: if_splits intro!: here)
  next
    case (2 i v)
    with task [of i] val [OF in_range [of i]] in_range [of i] l lens show ?case
      by (auto simp: vec_get_def split: if_splits intro!: here)
  next
    case (3 i v sp' us)
    with task [of i] have v: "v = cur ! i" "sp0 ! v = unvisited" by auto
    have "v < length ?ss" using in_range [of i] 3 v len by simp
    then have us: "us = ?ss ! v" using 3 edges_law [OF g] by simp
    have sp': "sp' = sp[v := l]" "v < length sp"
      using 3(4) by (auto simp: vec_set_def split: if_splits)
    then show ?case using 3 v us l lens by (auto intro!: here)
  next
    case (4 i u us)
    with task [of i] show ?case by (auto intro!: here)
  next
    case (5 i u us d)
    with task [of i] show ?case
      by (auto simp: vec_get_def split: if_splits intro!: here)
  next
    case (6 i u us)
    with task [of i] show ?case by (auto intro!: here)
  qed
qed

lemma bfs_steps_inv:
  assumes "ginv g" "length sp0 = length (succs g)" "l \<noteq> unvisited"
    "\<And>v. v \<in> set cur \<Longrightarrow> v < length sp0"
    and "(bfs_step ops g l)\<^sup>*\<^sup>* (bfs_level_start cur sp0) c"
  shows "par_inv (succs g) l cur sp0 c"
  using assms(5)
proof (induction rule: rtranclp_induct)
  case base
  show ?case by (rule par_inv_start) (rule assms(4))
next
  case (step c c')
  then show ?case using bfs_step_inv [OF assms(1-4)] by (cases c) auto
qed

text \<open>Every step leaves less work, so a level cannot go on for ever.\<close>

lemma bfs_step_work:
  assumes "ginv g" "length sp0 = length (succs g)" "\<And>v. v \<in> set cur \<Longrightarrow> v < length sp0"
    and "par_inv (succs g) l cur sp0 (ts, sp, nx)" "bfs_step ops g l (ts, sp, nx) c"
  shows "total_work (succs g) c < total_work (succs g) (ts, sp, nx)"
  using assms(5)
proof (elim bfs_stepE, goal_cases)
  case (3 i v sp' us)
  have "v < length (succs g)"
    using 3(2-4) assms(2-4) by (auto simp: par_inv_def)
  then have "us = succs g ! v" using 3 edges_law [OF assms(1)] by simp
  with 3 show ?case by (auto intro: total_work_less)
qed (auto intro: total_work_less)

text \<open>A level that is not finished can take a step: no access of it is out of range.\<close>

lemma bfs_step_progress:
  assumes g: "ginv g" and len: "length sp0 = length (succs g)"
    and cur: "\<And>v. v \<in> set cur \<Longrightarrow> v < length sp0"
    and inv: "par_inv (succs g) l cur sp0 (ts, sp, nx)" and "\<not> bfs_finished (ts, sp, nx)"
  shows "\<exists>c. bfs_step ops g l (ts, sp, nx) c"
proof -
  obtain i where i: "i < length ts" "ts ! i \<noteq> Scan []"
    using assms(5) by (auto simp: bfs_finished_def in_set_conv_nth)
  have lens: "length ts = length cur" "length sp = length sp0"
    and ok: "task_ok (succs g) sp0 sp (cur ! i) (ts ! i)"
    using inv i unfolding par_inv_def by auto
  have w: "cur ! i < length sp" using cur i lens by simp
  have succ: "u < length sp" if "u \<in> set (succs g ! (cur ! i))" for u
    using closed_graphD [OF closed_law [OF g]] that w len lens by simp
  show ?thesis
  proof (cases "ts ! i")
    case (Check v)
    then have "vec_get sp v = Inr (sp ! v)" using ok w by simp
    then show ?thesis
      by (cases "sp ! v = unvisited")
        (blast intro: bfs_step.visited [OF i(1) Check] bfs_step.fresh [OF i(1) Check])+
  next
    case (Write v)
    then have "vec_set sp v l = Inr (sp[v := l])"
      and "g_for_each_edge ops g v = Inr (succs g ! v)"
      using ok w edges_law [OF g] len lens by simp_all
    then show ?thesis by (blast intro: bfs_step.write_level [OF i(1) Write])
  next
    case (Scan us)
    then obtain u us' where "us = u # us'" using i(2) by (cases us) auto
    with Scan have task: "ts ! i = Scan (u # us')" by simp
    then have "vec_get sp u = Inr (sp ! u)" using ok succ by simp
    then show ?thesis
      by (cases "sp ! u = unvisited")
        (blast intro: bfs_step.see_unvisited [OF i(1) task] bfs_step.see_visited [OF i(1) task])+
  next
    case (Push u us)
    then show ?thesis by (intro exI) (rule bfs_step.push [OF i(1) Push])
  qed
qed

lemma bfs_level_finishes:
  assumes "ginv g" "length sp0 = length (succs g)" "l \<noteq> unvisited"
    "\<And>v. v \<in> set cur \<Longrightarrow> v < length sp0" and "par_inv (succs g) l cur sp0 c"
  shows "\<exists>c'. (bfs_step ops g l)\<^sup>*\<^sup>* c c' \<and> bfs_finished c'"
  using assms(5)
proof (induction "total_work (succs g) c" arbitrary: c rule: less_induct)
  case less
  obtain ts sp nx where c: "c = (ts, sp, nx)" by (cases c)
  show ?case
  proof (cases "bfs_finished c")
    case True
    then show ?thesis by blast
  next
    case False
    then obtain c1 where "bfs_step ops g l c c1"
      using bfs_step_progress [OF assms(1,2,4)] less.prems c by blast
    moreover from this have "\<exists>c'. (bfs_step ops g l)\<^sup>*\<^sup>* c1 c' \<and> bfs_finished c'"
      using bfs_step_work [OF assms(1,2,4)] bfs_step_inv [OF assms(1-4)] less.prems c
      by (intro less.hyps) auto
    ultimately show ?thesis by (meson converse_rtranclp_into_rtranclp)
  qed
qed

lemma bfs_par_correct:
  assumes g: "ginv g" and s: "s < length (succs g)" and small: "length (succs g) < unvisited"
    and run: "bfs_par ops g l sp nx r" and inv: "bfs_inv (succs g) s l sp nx"
  shows "r = hops_vector (succs g) s"
proof -
  have set: "bfs_setting (succs g) s"
    using closed_law [OF g] s small by (simp add: bfs_setting_def)
  from run inv show ?thesis
  proof (induction rule: bfs_par.induct)
    case (par_end l sp)
    then show ?case by (rule bfs_inv_end)
  next
    case (par_level nx l sp ts sp' nx' r)
    have l: "l < unvisited" "l \<le> length (succs g)"
      using bfs_inv_level_bound [OF set par_level.prems par_level.hyps(1)] by simp_all
    have nx: "length sp = length (succs g)" "\<And>v. v \<in> set nx \<Longrightarrow> v < length sp"
      using par_level.prems by (auto simp: bfs_inv_def)
    have "bfs_level_post (succs g) l nx sp sp' nx'"
      using bfs_steps_inv [OF g nx(1) _ nx(2) par_level.hyps(2)] par_level.hyps(3) l nx
      by (intro par_inv_finished) auto
    then have "bfs_inv (succs g) s (Suc l) sp' nx'"
      using bfs_inv_level [OF set par_level.prems par_level.hyps(1)] by simp
    moreover have "u64_add l 1 = Suc l"
      using l small by (simp add: u64_add_small unvisited_def)
    ultimately show ?case using par_level.IH by simp
  qed
qed

lemma bfs_par_runs:
  assumes g: "ginv g" and s: "s < length (succs g)" and small: "length (succs g) < unvisited"
    and inv: "bfs_inv (succs g) s l sp nx"
  shows "\<exists>r. bfs_par ops g l sp nx r"
  using inv
proof (induction "Suc (length (succs g)) - l" arbitrary: l sp nx rule: less_induct)
  case less
  have set: "bfs_setting (succs g) s"
    using closed_law [OF g] s small by (simp add: bfs_setting_def)
  show ?case
  proof (cases "nx = []")
    case True
    then show ?thesis by (auto intro: bfs_par.par_end)
  next
    case False
    have l: "l < unvisited" "l \<le> length (succs g)"
      using bfs_inv_level_bound [OF set less.prems False] by simp_all
    have nx: "length sp = length (succs g)" "\<And>v. v \<in> set nx \<Longrightarrow> v < length sp"
      using less.prems by (auto simp: bfs_inv_def)
    obtain ts sp' nx' where
      run: "(bfs_step ops g l)\<^sup>*\<^sup>* (bfs_level_start nx sp) (ts, sp', nx')"
      and fin: "bfs_finished (ts, sp', nx')"
      using bfs_level_finishes [OF g nx(1) _ nx(2) par_inv_start] l nx(2)
      by (metis less_irrefl prod_cases3)
    have "bfs_level_post (succs g) l nx sp sp' nx'"
      using bfs_steps_inv [OF g nx(1) _ nx(2) run] fin l nx
      by (intro par_inv_finished) auto
    then have "bfs_inv (succs g) s (Suc l) sp' nx'"
      using bfs_inv_level [OF set less.prems False] by simp
    then obtain r where "bfs_par ops g (Suc l) sp' nx' r" using less.hyps l by fastforce
    moreover have "u64_add l 1 = Suc l"
      using l small by (simp add: u64_add_small unvisited_def)
    ultimately show ?thesis using bfs_par.par_level [OF False run fin] by auto
  qed
qed

end

end
