(* ===== verification/ClientCalls.thy ===== *)
theory ClientCalls
  imports Batches AdjGraph
begin

text \<open>
  A discipline for the callers of \<open>MutableGraph\<close>, in the manner of a type system: the type of a
  graph is its number of vertices, its number of edges and the vertices whose edges are sorted.
  A call has a type transition if its vertices exist, a batch fits, and a search is made in
  sorted edges. Over any graph with the contracts, typed calls never fail and keep the type.
\<close>

datatype graph_call =
    Load batch
  | Each nat
  | Degree nat
  | Sort nat
  | Find nat nat

type_synonym graph_type = "nat \<times> nat \<times> nat set"

fun call_type :: "graph_call \<Rightarrow> graph_type \<Rightarrow> graph_type option" where
  "call_type (Load es) (n, m, S) =
     (if batch_ok es \<and> m + length (batch_edges es) \<le> u64_max
      then Some (max n (Suc (batch_max es)), m + length (batch_edges es), S - set (map fst es))
      else None)"
| "call_type (Each u) (n, m, S) = (if u < n then Some (n, m, S) else None)"
| "call_type (Degree u) (n, m, S) = (if u < n then Some (n, m, S) else None)"
| "call_type (Sort u) (n, m, S) = (if u < n then Some (n, m, insert u S) else None)"
| "call_type (Find u d) (n, m, S) = (if u < n \<and> u \<in> S then Some (n, m, S) else None)"

fun calls_type :: "graph_call list \<Rightarrow> graph_type \<Rightarrow> graph_type option" where
  "calls_type [] T = Some T"
| "calls_type (call # calls) T = Option.bind (call_type call T) (calls_type calls)"

fun run_call :: "'g graph_ops \<Rightarrow> galois_rt \<Rightarrow> graph_call \<Rightarrow> 'g \<Rightarrow> 'g res" where
  "run_call ops rt (Load es) g = load_batch ops rt es g"
| "run_call ops rt (Each u) g = res_map (\<lambda>ds. g) (g_for_each_edge ops g u)"
| "run_call ops rt (Degree u) g = res_map (\<lambda>k. g) (g_out_degree ops g u)"
| "run_call ops rt (Sort u) g = g_sort_edges ops u g"
| "run_call ops rt (Find u d) g = res_map (\<lambda>b. g) (g_find_edge_sorted ops g u d)"

definition run_calls :: "'g graph_ops \<Rightarrow> galois_rt \<Rightarrow> graph_call list \<Rightarrow> 'g \<Rightarrow> 'g res" where
  "run_calls ops rt = fold_res (run_call ops rt)"

text \<open>What it means for adjacency lists to have a type.\<close>

definition has_type :: "nat list list \<Rightarrow> graph_type \<Rightarrow> bool" where
  "has_type ss T \<longleftrightarrow> (case T of (n, m, S) \<Rightarrow>
     length ss = n \<and> edge_total ss = m \<and> (\<forall>u\<in>S. u < n \<and> sorted (ss ! u)))"

lemma edge_total_apply: "edge_total (apply_batch es ss) = edge_total ss + length (batch_edges es)"
  using edge_total_load [of "[es]" ss] by simp

lemma batch_for_none: "u \<notin> set (map fst es) \<Longrightarrow> batch_for es u = []"
  by (force simp: batch_for_def filter_empty_conv)

lemma has_type_load:
  assumes "has_type ss (n, m, S)"
  shows "has_type (apply_batch es ss)
    (max n (Suc (batch_max es)), m + length (batch_edges es), S - set (map fst es))"
  using assms batch_for_none [of _ es]
  by (auto simp: has_type_def edge_total_apply nth_apply_batch adj_of_def)

lemma has_type_sort:
  assumes "has_type ss (n, m, S)" "u < n"
  shows "has_type (ss[u := sort (ss ! u)]) (n, m, insert u S)"
proof -
  have "map length (ss[u := sort (ss ! u)]) = map length ss"
    by (simp add: map_update) (metis length_map list_update_id map_update nth_map)
  then show ?thesis using assms by (auto simp: has_type_def edge_total_def nth_list_update)
qed

locale graph_using = graph_updating + graph_sorting
begin

text \<open>Progress and preservation for one call.\<close>

lemma typed_call:
  assumes rt: "galois_ok rt" and g: "ginv g" and type: "has_type (succs g) T" and "call_type call T = Some T'"
  shows "\<exists>g'. run_call ops rt call g = Inr g' \<and> ginv g' \<and> has_type (succs g') T'"
proof -
  obtain n m S where T: "T = (n, m, S)" by (cases T)
  have size: "length (succs g) = n" "edge_total (succs g) = m" "\<And>u. u \<in> S \<Longrightarrow> sorted (succs g ! u)"
    using type by (auto simp: T has_type_def)
  show ?thesis
  proof (cases call)
    case (Load es)
    then have "batch_ok es" "edge_total (apply_batch es (succs g)) \<le> u64_max"
      and T': "T' = (max n (Suc (batch_max es)), m + length (batch_edges es), S - set (map fst es))"
      using assms(4) size by (simp_all add: T edge_total_apply split: if_splits)
    then show ?thesis
      using load_batch_ok [OF rt g] has_type_load [OF type [unfolded T]] Load by fastforce
  next
    case (Sort u)
    then have "u < n" "T' = (n, m, insert u S)" using assms(4) by (simp_all add: T split: if_splits)
    then show ?thesis
      using sort_law [OF g, of u] has_type_sort [OF type [unfolded T]] Sort size by fastforce
  next
    case (Find u d)
    then show ?thesis
      using assms(4) find_law [OF g, of u d] size g type by (simp add: T split: if_splits)
  qed (use assms(4) edges_law [OF g] degree_law [OF g] size g type in \<open>simp_all add: T split: if_splits\<close>)
qed

lemma typed_calls:
  assumes "galois_ok rt" "ginv g" "has_type (succs g) T" "calls_type calls T = Some T'"
  shows "\<exists>g'. run_calls ops rt calls g = Inr g' \<and> ginv g' \<and> has_type (succs g') T'"
  using assms(2-)
proof (induction calls arbitrary: g T)
  case Nil
  then show ?case by (simp add: run_calls_def)
next
  case (Cons call calls)
  then obtain T1 where T1: "call_type call T = Some T1" "calls_type calls T1 = Some T'"
    by (auto simp: bind_eq_Some_conv)
  then obtain g1 where "run_call ops rt call g = Inr g1" "ginv g1" "has_type (succs g1) T1"
    using typed_call [OF assms(1) Cons.prems(1,2)] by blast
  with Cons.IH [OF _ _ T1(2)] show ?case by (auto simp: run_calls_def)
qed

end

interpretation adju: graph_using adj_ops adj_inv m_edges
  by unfold_locales

end
