(* ===== verification/GraphProperties.thy ===== *)
theory GraphProperties
  imports TriangleCount BfsParallel ClientCalls
begin

text \<open>
  The properties of the graph representations and of the searches and counts that run on them.
  Every statement is over the model's own operations and starts, where it can, from the empty
  graph and a sequence of batches, as the benchmark drivers do.
\<close>

lemma adj_inv_empty [simp]: "adj_inv empty_adj"
  by (simp add: adj_inv_def empty_adj_def closed_graph_def)

lemma m_edges_empty [simp]: "m_edges empty_adj = []" "m_edges empty_csr = []"
  by (simp_all add: empty_adj_def empty_csr_def)

lemma loaded_adj:
  assumes "galois_ok rt" "batches_fit bs []"
  obtains a where "load_batches adj_ops rt bs empty_adj = Inr a" "adj_inv a"
    "m_edges a = fold apply_batch bs []"
  using adjr.load_batches_ok [of rt empty_adj bs] assms by auto

lemma loaded_csr:
  assumes "galois_ok rt" "batches_fit bs []"
  obtains c where "load_batches csr_ops rt bs empty_csr = Inr c" "csr_inv c"
    "m_edges c = fold apply_batch bs []"
  using csrr.load_batches_ok [of rt empty_csr bs] assms by auto

text \<open>Two batches and three arrangements of one small graph, used where results are applied.\<close>

definition two_batches :: "batch list" where
  "two_batches = [[(0, [2, 1]), (2, [0])], [(1, [3]), (0, [3])]]"

definition triangle_batch :: batch where
  "triangle_batch = [(0, [2, 1]), (1, [0, 2]), (2, [0, 1])]"

lemma two_batches_fit: "batches_fit two_batches []"
  by code_simp

lemma triangle_batch_fits: "batches_fit [triangle_batch] []"
  by code_simp

lemma two_batches_graph: "fold apply_batch two_batches [] = [[2, 1, 3], [3], [0], []]"
  by code_simp

lemma triangle_graph: "fold apply_batch [triangle_batch] [] = [[2, 1], [0, 2], [0, 1]]"
  by code_simp

section \<open>The representations\<close>

text \<open>
  C1: after any sequence of batches both representations exist, hold the same vertices, and
  answer every degree and every traversal alike, with the adjacency lists that the batches
  prescribe; the two runtimes may order their parallel loops differently.
\<close>

theorem csr_agrees_with_adj:
  assumes "galois_ok rt" and "galois_ok rt'" and "batches_fit bs []"
  shows "\<exists>a c. load_batches adj_ops rt bs empty_adj = Inr a \<and>
    load_batches csr_ops rt' bs empty_csr = Inr c \<and>
    adj_size a = length (fold apply_batch bs []) \<and> csr_size c = adj_size a \<and>
    (\<forall>u < adj_size a. adj_for_each_edge a u = Inr (fold apply_batch bs [] ! u) \<and>
       csr_for_each_edge c u = adj_for_each_edge a u \<and>
       csr_get_out_degree c u = adj_get_out_degree a u)"
proof -
  obtain a where a: "load_batches adj_ops rt bs empty_adj = Inr a" "adj_inv a"
    "m_edges a = fold apply_batch bs []" using loaded_adj [OF assms(1,3)] .
  obtain c where c: "load_batches csr_ops rt' bs empty_csr = Inr c" "csr_inv c"
    "m_edges c = fold apply_batch bs []" using loaded_csr [OF assms(2,3)] .
  have "csr_size c = length (m_edges c)"
    using csrr.size_law [OF c(2)] by (simp add: csr_ops_def)
  with a c show ?thesis
    by (simp add: adj_size_def adj_for_each_edge_def adj_get_out_degree_def
        csr_for_each_edge_ok csr_degree_ok)
qed

lemma csr_agrees_with_adj_witness:
  "\<exists>a c. load_batches adj_ops serial_rt two_batches empty_adj = Inr a \<and>
    load_batches csr_ops backward_rt two_batches empty_csr = Inr c \<and>
    adj_size a = 4 \<and> csr_size c = 4 \<and>
    csr_for_each_edge c 0 = Inr [2, 1, 3] \<and> csr_get_out_degree c 3 = Inr 0"
proof -
  obtain a c where ac: "load_batches adj_ops serial_rt two_batches empty_adj = Inr a"
    "load_batches csr_ops backward_rt two_batches empty_csr = Inr c"
    "adj_size a = length (fold apply_batch two_batches [])" "csr_size c = adj_size a"
    "\<forall>u < adj_size a. adj_for_each_edge a u = Inr (fold apply_batch two_batches [] ! u) \<and>
       csr_for_each_edge c u = adj_for_each_edge a u \<and>
       csr_get_out_degree c u = adj_get_out_degree a u"
    using csr_agrees_with_adj [OF galois_ok_serial galois_ok_backward two_batches_fit] by blast
  then have size: "adj_size a = 4" by (simp add: two_batches_graph)
  then have "csr_for_each_edge c 0 = Inr [2, 1, 3]" "adj_for_each_edge a 3 = Inr []"
    "csr_get_out_degree c 3 = adj_get_out_degree a 3"
    using ac(5) by (simp_all add: two_batches_graph)
  moreover from this(2) have "adj_get_out_degree a 3 = Inr 0"
    by (simp add: adj_for_each_edge_def adj_get_out_degree_def)
  ultimately show ?thesis using ac size by auto
qed

text \<open>
  C33: \<open>ingest\<close> of the adjacency vectors (shared by \<open>CSR\<close>) resizes to the largest identifier
  named, as source or as destination, appends every edge list to its source, and touches
  nothing else; no access is out of bounds, whatever the order of the parallel loops.
\<close>

theorem ingest_applies_batch:
  assumes "galois_ok rt" and "batch_ok es"
  shows "adj_ingest rt es g = Inr (g\<lparr>m_edges := apply_batch es (m_edges g)\<rparr>)"
  by (rule adj_ingest_ok [OF assms])

lemma ingest_applies_batch_witness:
  "adj_ingest backward_rt triangle_batch empty_adj =
    Inr \<lparr>m_edges = [[2, 1], [0, 2], [0, 1]]\<rparr>"
  using ingest_applies_batch [OF galois_ok_backward, of triangle_batch empty_adj]
    triangle_batch_fits triangle_graph by (simp add: empty_adj_def)

text \<open>
  C21: after \<open>ingest\<close> and \<open>post_ingest\<close> the two arrays of \<open>CSR\<close> are the compressed rows of
  the adjacency vectors: the offsets are the running sums of the degrees, starting at zero,
  and the compact array is the concatenation of the rows; the assertion on the first offset
  never fails. Both the serial and the parallel prefix sum lead to it.
\<close>

theorem csr_layout:
  assumes "galois_ok rt" and "csr_inv g" and "batch_ok es"
    and "edge_total (apply_batch es (m_edges g)) \<le> u64_max"
  shows "\<exists>g'. res_bind (adj_ingest rt es g) (csr_post_ingest rt) = Inr g' \<and>
    m_edges g' = apply_batch es (m_edges g) \<and>
    m_vertices g' =
      map (\<lambda>i. sum_list (map length (take i (m_edges g')))) [0..<Suc (length (m_edges g'))] \<and>
    m_edges_compact g' = concat (m_edges g')"
proof -
  obtain g' where "load_batch csr_ops rt es g = Inr g'" "csr_inv g'"
    "m_edges g' = apply_batch es (m_edges g)"
    using csrr.load_batch_ok [OF assms] by blast
  then show ?thesis
    by (simp add: load_batch_def csr_ops_def csr_inv_def row_starts_def row_start_def
        length_concat del: upt_Suc)
qed

lemma csr_layout_witness:
  "\<exists>g'. res_bind (adj_ingest backward_rt triangle_batch empty_csr) (csr_post_ingest backward_rt) =
    Inr g' \<and> m_vertices g' = [0, 2, 4, 6] \<and> m_edges_compact g' = [2, 1, 0, 2, 0, 1]"
  using csr_layout [OF galois_ok_backward csr_inv_empty, of triangle_batch]
    triangle_batch_fits triangle_graph by (auto simp: upt_rec)

section \<open>Breadth-first search\<close>

text \<open>
  C4: breadth-first search over a loaded graph returns, on either representation and for any
  order of the parallel loops, the vector of hop distances from the source, with the largest
  64-bit value for unreachable vertices; a source out of range leaves every vertex unvisited.
  The search always ends.
\<close>

theorem bfs_computes_hops:
  assumes "galois_ok rt" and "batches_fit bs []"
    and "length (fold apply_batch bs []) < unvisited"
  shows "\<exists>a c. load_batches adj_ops rt bs empty_adj = Inr a \<and>
    load_batches csr_ops rt bs empty_csr = Inr c \<and>
    bfs_compute adj_ops rt a src = bfs_compute csr_ops rt c src \<and>
    bfs_compute csr_ops rt c src = Some (Inr
      (if src < length (fold apply_batch bs []) then hops_vector (fold apply_batch bs []) src
       else replicate (length (fold apply_batch bs [])) unvisited))"
proof -
  obtain a where a: "load_batches adj_ops rt bs empty_adj = Inr a" "adj_inv a"
    "m_edges a = fold apply_batch bs []" using loaded_adj [OF assms(1,2)] .
  obtain c where c: "load_batches csr_ops rt bs empty_csr = Inr c" "csr_inv c"
    "m_edges c = fold apply_batch bs []" using loaded_csr [OF assms(1,2)] .
  show ?thesis
    using a c assms(3) adjr.bfs_compute_spec [OF assms(1) a(2), of src]
      csrr.bfs_compute_spec [OF assms(1) c(2), of src] by simp
qed

lemma bfs_computes_hops_witness:
  "\<exists>c. load_batches csr_ops backward_rt two_batches empty_csr = Inr c \<and>
    bfs_compute csr_ops backward_rt c 0 = Some (Inr (hops_vector [[2, 1, 3], [3], [0], []] 0))"
proof -
  have "length [[2, 1, 3], [3], [0], [] :: nat list] < unvisited" by code_simp
  then show ?thesis
    using bfs_computes_hops [OF galois_ok_backward two_batches_fit, of 0]
    by (auto simp: two_batches_graph)
qed

text \<open>
  C20: the comments of \<open>SSSP_BFS::compute\<close> claim that the unsynchronised writes of
  \<open>shortest_path\<close> and duplicate pushes are harmless. With the iterations of every level
  interleaved access by access, every complete run ends with the hop distances, and a
  complete run exists.
\<close>

theorem racy_bfs_correct:
  assumes "adj_inv a" and "src < length (m_edges a)" and "length (m_edges a) < unvisited"
  shows "bfs_par adj_ops a 0 (replicate (length (m_edges a)) unvisited) [src] r \<longleftrightarrow>
    r = hops_vector (m_edges a) src"
  using adjr.bfs_par_runs [OF assms bfs_inv_start [OF assms(2)]]
    adjr.bfs_par_correct [OF assms _ bfs_inv_start [OF assms(2)]] by blast

lemma racy_bfs_correct_witness:
  "bfs_par adj_ops \<lparr>m_edges = [[1], [0]]\<rparr> 0 [unvisited, unvisited] [0]
    (hops_vector [[1], [0]] 0)"
  using racy_bfs_correct [of "\<lparr>m_edges = [[1], [0]]\<rparr>" 0]
  by (simp add: adj_inv_def closed_graph_def unvisited_def u64_max_def)

text \<open>
  C28: the races of a level cannot keep it from ending: from any state that a level can reach,
  every access leaves strictly less work, and unless the level is finished an access is
  possible, so no interleaving deadlocks, diverges or reads out of bounds.
\<close>

theorem racy_level_ends:
  assumes "adj_inv a" and "length sp = length (m_edges a)" and "l \<noteq> unvisited"
    and "\<And>v. v \<in> set cur \<Longrightarrow> v < length (m_edges a)"
    and "(bfs_step adj_ops a l)\<^sup>*\<^sup>* (bfs_level_start cur sp) c"
  shows "(bfs_finished c \<or> (\<exists>c'. bfs_step adj_ops a l c c')) \<and>
    (\<forall>c'. bfs_step adj_ops a l c c' \<longrightarrow> total_work (m_edges a) c' < total_work (m_edges a) c)"
proof -
  obtain ts sp' nx where c: "c = (ts, sp', nx)" by (cases c)
  have cur: "\<And>v. v \<in> set cur \<Longrightarrow> v < length sp" using assms(2,4) by simp
  have "par_inv (m_edges a) l cur sp (ts, sp', nx)"
    using adjr.bfs_steps_inv [OF assms(1-3) cur assms(5)] c by simp
  then show ?thesis
    using adjr.bfs_step_progress [OF assms(1,2) cur] adjr.bfs_step_work [OF assms(1,2) cur] c
    by blast
qed

lemma racy_level_ends_witness:
  "\<exists>c. bfs_step adj_ops \<lparr>m_edges = [[1], [0]]\<rparr> 0
    (bfs_level_start [0, 0] [unvisited, unvisited]) c"
proof -
  let ?c = "bfs_level_start [0, 0] [unvisited, unvisited]"
  have "bfs_finished ?c \<or> (\<exists>c'. bfs_step adj_ops \<lparr>m_edges = [[1], [0]]\<rparr> 0 ?c c')"
    using racy_level_ends [of "\<lparr>m_edges = [[1], [0]]\<rparr>" "[unvisited, unvisited]" 0 "[0, 0]" ?c]
    by (simp add: adj_inv_def closed_graph_def unvisited_def u64_max_def)
  then show ?thesis by (simp add: bfs_finished_def bfs_level_start_def)
qed

section \<open>Typed callers\<close>

text \<open>
  C30: a caller of the adjacency vectors that keeps to the typing of \<open>ClientCalls\<close> (vertices below
  the size, batches that fit, searches only in a vertex whose edges were sorted since it last got
  some) never causes an error, and ends with a graph of the type computed for its calls.
\<close>

theorem typed_calls_never_fail:
  assumes "galois_ok rt" and "calls_type calls (0, 0, {}) = Some (n, m, S)"
  shows "\<exists>a. run_calls adj_ops rt calls empty_adj = Inr a \<and> adj_size a = n \<and> edge_total (m_edges a) = m \<and>
    (\<forall>u\<in>S. \<exists>ds. adj_for_each_edge a u = Inr ds \<and> sorted ds)"
proof -
  have "has_type (m_edges empty_adj) (0, 0, {})" by (simp add: has_type_def edge_total_def)
  from adju.typed_calls [OF assms(1) adj_inv_empty this assms(2)] obtain a where
    "run_calls adj_ops rt calls empty_adj = Inr a" "has_type (m_edges a) (n, m, S)" by blast
  then show ?thesis by (simp add: has_type_def adj_size_def adj_for_each_edge_def)
qed

lemma typed_calls_never_fail_witness:
  "\<exists>a. run_calls adj_ops serial_rt [Load triangle_batch, Sort 0, Find 0 2, Each 2, Degree 1] empty_adj = Inr a \<and>
    adj_size a = 3 \<and> edge_total (m_edges a) = 6"
proof -
  have "calls_type [Load triangle_batch, Sort 0, Find 0 2, Each 2, Degree 1] (0, 0, {}) = Some (3, 6, {0})"
    by code_simp
  from typed_calls_never_fail [OF galois_ok_serial this] show ?thesis by blast
qed

section \<open>Triangles\<close>

text \<open>
  C7: over the adjacency vectors of a simple undirected graph, triangle counting returns the
  number of triangles (modulo the width of the accumulator), whatever the order of the
  adjacency lists and of the parallel loops.
\<close>

theorem tc_counts_triangles:
  assumes "galois_ok rt" and "adj_inv a" and "simple_undirected (m_edges a)"
  shows "\<exists>a'. tc_compute adj_ops rt a = Inr (a', card (triangles (m_edges a)) mod 2 ^ 64)"
  by (rule adjs.tc_compute_triangles [OF assms])

lemma tc_counts_triangles_witness:
  "\<exists>a'. tc_compute adj_ops serial_rt \<lparr>m_edges = [[2, 1], [0, 2], [0, 1]]\<rparr> =
    Inr (a', card (triangles [[2, 1], [0, 2], [0, 1]]) mod 2 ^ 64)"
proof -
  have "simple_undirected [[2, 1], [0, 2], [0, 1]]" by code_simp
  then show ?thesis
    using tc_counts_triangles [of serial_rt "\<lparr>m_edges = [[2, 1], [0, 2], [0, 1]]\<rparr>"]
    by (simp add: adj_inv_def closed_graph_def)
qed

text \<open>
  \<open>CSR::sort_edges\<close> passes the begin of the row as both ends of the range, so it leaves
  every graph as it is, where \<open>AdjGraph::sort_edges\<close> sorts the row.
\<close>

theorem csr_sort_edges_does_nothing:
  assumes "csr_inv g" and "u < csr_size g"
  shows "csr_sort_edges u g = Inr g"
  using csr_sort_edges_noop [OF assms(1)] assms csrr.size_law [OF assms(1)]
  by (simp add: csr_ops_def)

text \<open>The triangle, loaded into both representations.\<close>

definition triangle_csr :: csr_graph where
  "triangle_csr = \<lparr>m_edges = [[2, 1], [0, 2], [0, 1]], m_vertices = [0, 2, 4, 6],
     m_edges_compact = [2, 1, 0, 2, 0, 1]\<rparr>"

lemma triangle_csr_inv: "csr_inv triangle_csr"
  by code_simp

lemma csr_sort_edges_does_nothing_witness:
  "csr_sort_edges 0 triangle_csr = Inr triangle_csr"
  by (rule csr_sort_edges_does_nothing [OF triangle_csr_inv])
    (simp add: triangle_csr_def csr_size_def)


text \<open>
  Triangle counting over \<open>CSR\<close> is right, and equal to the adjacency vectors, exactly
  when the batches leave every row sorted.
\<close>

theorem tc_on_sorted_csr:
  assumes "galois_ok rt" and "csr_inv c" and "\<forall>ds\<in>set (m_edges c). sorted ds"
    and "simple_undirected (m_edges c)"
  shows "\<exists>c'. tc_compute csr_ops rt c = Inr (c', card (triangles (m_edges c)) mod 2 ^ 64)"
  using csrs.tc_compute_triangles [of rt c] assms by (simp add: csr_sorted_inv_def)

lemma tc_on_sorted_csr_witness:
  "\<exists>c'. tc_compute csr_ops serial_rt
      \<lparr>m_edges = [[1], [0]], m_vertices = [0, 1, 2], m_edges_compact = [1, 0]\<rparr> =
    Inr (c', card (triangles [[1], [0]]) mod 2 ^ 64)"
proof -
  let ?c = "\<lparr>m_edges = [[1], [0]], m_vertices = [0, 1, 2], m_edges_compact = [1, 0]\<rparr>"
  have "simple_undirected [[1], [0]]" "csr_inv ?c" by code_simp+
  then show ?thesis using tc_on_sorted_csr [of serial_rt ?c] by simp
qed

end
