(* ===== verification/CentralityProperties.thy ===== *)
theory CentralityProperties
  imports BcSerialScores BcRaces Pagerank GraphProperties
begin

text \<open>
  The properties of the two centrality algorithms. Betweenness: the parallel algorithm and its
  serial reference compute the betweenness of every vertex, hence the same numbers. PageRank:
  the iteration converges before it runs out, near every solution of the rank equation.
\<close>

section \<open>Room for the path counts\<close>

text \<open>A bound that is easy to check: with at most \<open>d\<close> edges per vertex, at most \<open>d ^ n\<close> paths.\<close>

lemma walks_bound:
  assumes "\<forall>ds\<in>set ss. length ds \<le> d"
  shows "walks ss k u v \<le> d ^ k"
proof (induction k arbitrary: u)
  case (Suc k)
  have "length (adj_of ss u) \<le> d" using assms by (simp add: adj_of_def)
  moreover have "(\<Sum>w\<leftarrow>ws. walks ss k w v) \<le> length ws * d ^ k" for ws
    using Suc.IH by (induction ws) (simp_all add: add_mono)
  ultimately show ?case by (metis mult_le_mono1 order_trans power_Suc walks.simps(2))
qed simp

lemma paths_bound:
  assumes "closed_graph ss" "s < length ss" "\<forall>ds\<in>set ss. length ds \<le> d" "1 \<le> d"
  shows "paths ss s v \<le> d ^ length ss"
proof (cases "hops ss s v")
  case (Some k)
  then have "k \<le> length ss" using hops_less_size [OF assms(1,2)] by (simp add: less_imp_le)
  then show ?thesis
    using walks_bound [OF assms(3), of k s v] power_increasing [OF _ assms(4), of k "length ss"] Some
    by (simp add: paths_def)
qed (simp add: paths_def)

lemma bc_setting_small:
  assumes "closed_graph ss" "\<forall>ds\<in>set ss. length ds \<le> d" "1 \<le> d" "d ^ length ss \<le> u64_max"
    "length ss < infinity" "s < length ss"
  shows "bc_setting ss s"
  using assms paths_bound [OF assms(1,6,2,3)] by (auto simp: bc_setting_def intro: order_trans)

lemma serial_setting_small:
  assumes "closed_graph ss" "\<forall>ds\<in>set ss. length ds \<le> d" "1 \<le> d" "int (d ^ length ss) \<le> int_max"
    "int (length ss) < int_max" "s < length ss"
  shows "serial_setting ss s"
  using assms paths_bound [OF assms(1,6,2,3)] unfolding serial_setting_def
  by (meson of_nat_le_iff order_trans)

lemma serial_setting_bc:
  assumes "serial_setting ss s"
  shows "bc_setting ss s"
proof -
  have fits: "m < infinity \<and> m \<le> u64_max" if "int m \<le> int_max" for m
    using that by (simp add: int_max_def infinity_def u64_max_def)
  show ?thesis
    using assms fits less_imp_le unfolding serial_setting_def bc_setting_def by blast
qed

section \<open>Properties\<close>

text \<open>The path 0 - 1 - 2 of the first test.\<close>

definition path_batch :: batch where
  "path_batch = [(0, [1]), (1, [0, 2]), (2, [1])]"

lemma path_batch_fits: "batches_fit [path_batch] []"
  by code_simp

lemma path_graph: "fold apply_batch [path_batch] [] = [[1], [0, 2], [1]]"
  by code_simp

lemma path_setting: "\<forall>s<length [[1], [0, 2], [1::nat]]. serial_setting [[1], [0, 2], [1]] s"
  by (intro allI impI serial_setting_small [where d = 2])
    (simp_all add: closed_graph_def int_max_def)

text \<open>
  C11: \<open>BetweennessCentrality::compute\<close> returns for every vertex the sum, over the chosen
  sources, of the shares of shortest paths that pass through it (parallel edges counted
  apart), if the path counts fit in 64 bits: the counting search finds every distance and
  every count, no level assertion fails, and the accumulation over the levels is exact. The
  order of every parallel loop and the shuffle are arbitrary.
\<close>

theorem centrality_is_betweenness:
  assumes "galois_ok rt" and "batches_fit bs []" and "\<forall>xs. mset (shuffle rseed xs) = mset xs"
    and ss: "ss = fold apply_batch bs []" and "\<forall>s<length ss. bc_setting ss s"
  shows "res_bind (load_batches csr_ops rt bs empty_csr) (\<lambda>c. bc_compute csr_ops rt shuffle c rseed num_src) =
    Inr (map (betweenness ss (chosen_sources shuffle (length ss) rseed num_src)) [0..<length ss] ::
      'd::linordered_field list)"
proof -
  obtain c where c: "load_batches csr_ops rt bs empty_csr = Inr c" "csr_inv c" "m_edges c = ss"
    using loaded_csr [OF assms(1,2)] unfolding ss .
  have "\<forall>s<length (m_edges c). bc_setting (m_edges c) s" using assms(5) c(3) by simp
  from csrr.bc_compute_ok [where shuffle = shuffle, OF assms(1) c(2) assms(3) this, where 'd = 'd] c show ?thesis by simp
qed

theorem centrality_is_betweenness_witness:
  "map (betweenness [[1], [0, 2], [1]] [0, 1, 2]) [0, 1, 2] = [0, 2, 0 :: rat]"
proof -
  have three: "length [[1], [0, 2], [1::nat]] = 3" by simp
  have set: "\<forall>s<length [[1], [0, 2], [1::nat]]. bc_setting [[1], [0, 2], [1]] s"
    using path_setting serial_setting_bc by blast
  have "res_bind (load_batches csr_ops serial_rt [path_batch] empty_csr)
      (\<lambda>c. bc_compute csr_ops serial_rt (\<lambda>_ xs. xs) c 0 0) =
    Inr (map (betweenness [[1], [0, 2], [1]] (chosen_sources (\<lambda>_ xs. xs) 3 0 0)) [0..<3] :: rat list)"
    using centrality_is_betweenness [where shuffle = "\<lambda>_ xs. xs", OF galois_ok_serial path_batch_fits _
        path_graph [symmetric] set, of 0 0, where 'd = rat] by (simp only: three simp_thms)
  moreover have "res_bind (load_batches csr_ops serial_rt [path_batch] empty_csr)
      (\<lambda>c. bc_compute csr_ops serial_rt (\<lambda>_ xs. xs) c 0 0) = Inr [0, 2, 0 :: rat]"
    by code_simp
  moreover have "[0..<3] = [0, 1, 2::nat]" by (simp add: upt_rec)
  ultimately show ?thesis by (simp add: chosen_sources_def)
qed

text \<open>
  C14: The parallel algorithm over all sources agrees with the serial reference, even when the
  two run on different representations of the graph, if the path counts fit in an \<open>int\<close>.
\<close>

theorem parallel_matches_serial:
  assumes "galois_ok rt" and "galois_ok rt'" and "batches_fit bs []"
    and "\<forall>s<length (fold apply_batch bs []). serial_setting (fold apply_batch bs []) s"
  shows "res_bind (load_batches csr_ops rt bs empty_csr) (\<lambda>c. bc_compute csr_ops rt shuffle c rseed 0) =
    (res_bind (load_batches adj_ops rt' bs empty_adj) (serial_compute adj_ops) :: 'd::linordered_field list res)"
proof -
  obtain c where c: "load_batches csr_ops rt bs empty_csr = Inr c" "csr_inv c" "m_edges c = fold apply_batch bs []"
    using loaded_csr [OF assms(1,3)] .
  obtain a where a: "load_batches adj_ops rt' bs empty_adj = Inr a" "adj_inv a" "m_edges a = fold apply_batch bs []"
    using loaded_adj [OF assms(2,3)] .
  have "bc_compute csr_ops rt shuffle c rseed 0 = (bc_compute csr_ops rt (\<lambda>_ xs. xs) c rseed 0 :: 'd list res)"
    by (simp add: bc_compute_def select_sources_def)
  then show ?thesis
    using csrr.bc_compute_ok [OF assms(1) c(2), of "\<lambda>_ xs. xs" rseed 0, where 'd = 'd]
      adjr.serial_compute_ok [OF a(2), where 'd = 'd] assms(4) a c serial_setting_bc
    by (simp add: chosen_sources_def)
qed

theorem parallel_matches_serial_witness:
  "res_bind (load_batches csr_ops backward_rt [path_batch] empty_csr)
      (\<lambda>c. bc_compute csr_ops backward_rt (\<lambda>_ xs. xs) c 0 0) =
    (res_bind (load_batches adj_ops serial_rt [path_batch] empty_adj) (serial_compute adj_ops) :: rat list res) \<and>
    res_bind (load_batches adj_ops serial_rt [path_batch] empty_adj) (serial_compute adj_ops) =
      Inr [0, 2, 0 :: rat]"
proof -
  have "\<forall>s<length (fold apply_batch [path_batch] []). serial_setting (fold apply_batch [path_batch] []) s"
    unfolding path_graph by (rule path_setting)
  from parallel_matches_serial [OF galois_ok_backward galois_ok_serial path_batch_fits this, where 'd = rat]
  have "res_bind (load_batches csr_ops backward_rt [path_batch] empty_csr)
      (\<lambda>c. bc_compute csr_ops backward_rt (\<lambda>_ xs. xs) c 0 0) =
    (res_bind (load_batches adj_ops serial_rt [path_batch] empty_adj) (serial_compute adj_ops) :: rat list res)" .
  moreover have "res_bind (load_batches adj_ops serial_rt [path_batch] empty_adj) (serial_compute adj_ops) =
      Inr [0, 2, 0 :: rat]"
    by code_simp
  ultimately show ?thesis by simp
qed

section \<open>Racing searches\<close>


text \<open>The path graph, loaded.\<close>

lemma path_loaded:
  obtains c where "load_batches csr_ops serial_rt [path_batch] empty_csr = Inr c" "csr_inv c"
    "m_edges c = [[1], [0, 2], [1]]"
  using loaded_csr [OF galois_ok_serial path_batch_fits] unfolding path_graph .




section \<open>PageRank\<close>

definition uniform_rank :: "nat \<Rightarrow> 'd::linordered_field list" where
  "uniform_rank n = replicate n (1 / of_nat n)"

text \<open>Without vertices that have no edge, no rank is lost.\<close>

lemma power_total:
  assumes "closed_graph ss" "ss \<noteq> []" "\<forall>ds\<in>set ss. ds \<noteq> []"
  shows "(\<Sum>v<length ss. ((pr_step ss ^^ i) (uniform_rank (length ss))) ! v) = (1 :: 'd::linordered_field)"
proof (induction i)
  case 0
  then show ?case using assms(2) by (simp add: uniform_rank_def)
next
  case (Suc i)
  have "(\<Sum>v<length ss. if ss ! v = [] then 0 else x ! v) = (\<Sum>v<length ss. x ! v :: 'd)" for x
    using assms(3) by (intro sum.cong) auto
  then show ?case using pr_step_total [OF assms(1,2), where 'd = 'd] Suc by simp
qed

text \<open>
  C18: \<open>PageRank::compute\<close> always stops because the ranks have converged, after at most 62 of
  its 100 iterations, on any graph and in any order of the parallel loops. The ranks are then
  that power of the rank step applied to the uniform vector; they are not negative, sum to at
  most one (to one, if every vertex has an edge), and differ from every solution of the rank
  equation by less than 17/30000 in total.
\<close>

theorem pagerank_converges:
  assumes "galois_ok rt" and "batches_fit bs []" and ss: "ss = fold apply_batch bs []"
  shows "\<exists>i\<le>61. \<exists>rank. res_bind (load_batches csr_ops rt bs empty_csr) (pr_compute csr_ops rt) =
      Inr (max_iterations - i, rank) \<and>
    rank = (pr_step ss ^^ Suc i) (uniform_rank (length ss)) \<and> sub_distribution rank \<and>
    (ss \<noteq> [] \<and> (\<forall>ds\<in>set ss. ds \<noteq> []) \<longrightarrow> (\<Sum>v<length ss. rank ! v) = 1) \<and>
    (\<forall>x. length x = length ss \<and> pr_step ss x = x \<longrightarrow> rank_distance rank x < (17 / 30000 :: 'd::linordered_field))"
proof -
  obtain c where c: "load_batches csr_ops rt bs empty_csr = Inr c" "csr_inv c" "m_edges c = ss"
    using loaded_csr [OF assms(1,2)] unfolding ss .
  have closed: "closed_graph ss" using csrr.closed_law [OF c(2)] c(3) by simp
  obtain i where i: "i \<le> 61"
    "pr_compute csr_ops rt c = Inr (max_iterations - i, (pr_step ss ^^ Suc i) (uniform_rank (length ss)) :: 'd list)"
    and last: "let r = (pr_step ss ^^ i) (uniform_rank (length ss)) :: 'd list in
      sub_distribution r \<and> length r = length ss \<and> rank_distance (pr_step ss r) r < tolerance"
    using csrr.pr_compute_ok [OF assms(1) c(2), where 'd = 'd]
    unfolding c(3) uniform_rank_def [symmetric] by (elim exE conjE) (rule that)
  note r = last [unfolded Let_def, THEN conjunct1] last [unfolded Let_def, THEN conjunct2, THEN conjunct1]
    last [unfolded Let_def, THEN conjunct2, THEN conjunct2]
  let ?rank = "(pr_step ss ^^ Suc i) (uniform_rank (length ss)) :: 'd list"
  have "rank_distance ?rank x < 17 / 30000" if x: "length x = length ss" "pr_step ss x = x" for x
  proof -
    have "rank_distance ?rank x * (1 - damping_factor) \<le> damping_factor * rank_distance ?rank
        ((pr_step ss ^^ i) (uniform_rank (length ss)))"
      using near_solution [OF closed r(2) x] by simp
    also have "\<dots> < damping_factor * tolerance"
      using r(3) damping_range [where 'd = 'd] by (intro mult_strict_left_mono) simp_all
    finally show ?thesis by (simp add: damping_factor_def tolerance_def divide_simps)
  qed
  moreover have "sub_distribution ?rank" using pr_step_sub_distribution [OF closed r(2,1)] by simp
  moreover have "ss \<noteq> [] \<and> (\<forall>ds\<in>set ss. ds \<noteq> []) \<longrightarrow> (\<Sum>v<length ss. ?rank ! v) = 1"
    using power_total [OF closed, of "Suc i", where 'd = 'd] by blast
  ultimately show ?thesis using i c(1) by (intro exI [of _ i]) simp
qed

theorem pagerank_converges_witness:
  "\<exists>i\<le>61. \<exists>rank. res_bind (load_batches csr_ops backward_rt [path_batch] empty_csr) (pr_compute csr_ops backward_rt) =
      Inr (max_iterations - i, rank) \<and> (\<Sum>v<3. rank ! v) = 1 \<and>
    rank_distance rank [19 / 74, 18 / 37, 19 / 74] < (17 / 30000 :: rat)"
proof -
  have solution: "pr_step [[1], [0, 2], [1]] [19 / 74, 18 / 37, 19 / 74] = [19 / 74, 18 / 37, 19 / 74 :: rat]"
    by (simp add: pr_step_def inflow_def damping_factor_def lessThan_Suc numeral_2_eq_2)
  have three: "length [[1], [0, 2], [1::nat]] = 3" "length [19 / 74, 18 / 37, 19 / 74 :: rat] = 3"
    "[[1], [0, 2], [1]] \<noteq> [] \<and> (\<forall>ds\<in>set [[1], [0, 2], [1::nat]]. ds \<noteq> [])" by simp_all
  show ?thesis
    using pagerank_converges [OF galois_ok_backward path_batch_fits path_graph [symmetric], where 'd = rat]
      solution three unfolding three(1) by blast
qed

end
