(* ===== verification/LcCsrGraph.thy ===== *)
theory LcCsrGraph
  imports AdjGraph
begin

text \<open>
  \<open>LC_CSR\<close> (include/scea/graph/lccsr.hpp): derives from \<open>AdjGraph\<close>, whose \<open>ingest\<close> and
  \<open>size\<close> it keeps, and rebuilds a Galois graph from the adjacency vectors after every batch.
  The Galois graph \<open>LC_CSR_64_Graph\<close> is a parameter: a record of the members the class
  calls, and the behaviour Galois documents for them (\<open>lc_ok\<close>).
\<close>

section \<open>The Galois graph\<close>

record ('r, 'e) lc_csr_64 =
  lc_new :: "nat \<Rightarrow> nat \<Rightarrow> (nat \<Rightarrow> nat res) \<Rightarrow> (nat \<Rightarrow> nat \<Rightarrow> nat res) \<Rightarrow> 'r res"
  lc_get_degree :: "'r \<Rightarrow> nat \<Rightarrow> nat res"
  lc_edges :: "'r \<Rightarrow> nat \<Rightarrow> 'e list res"
  lc_get_edge_dst :: "'r \<Rightarrow> 'e \<Rightarrow> nat"
  lc_sort_edges_by_dst :: "nat \<Rightarrow> 'r \<Rightarrow> 'r res"
  lc_find_edge_sorted :: "'r \<Rightarrow> nat \<Rightarrow> nat \<Rightarrow> 'e res"
  lc_edge_end :: "'r \<Rightarrow> nat \<Rightarrow> 'e"

section \<open>The class\<close>

record 'r lc_csr = adj_graph +
  lc_graph :: "'r option"

definition lc_deref :: "'r lc_csr \<Rightarrow> 'r res" where
  "lc_deref g = (case lc_graph g of None \<Rightarrow> Inl NullPointer | Some r \<Rightarrow> Inr r)"

definition empty_lc :: "'r lc_csr" where
  "empty_lc = \<lparr>m_edges = [], lc_graph = None\<rparr>"

definition lc_get_out_degree :: "('r, 'e) lc_csr_64 \<Rightarrow> 'r lc_csr \<Rightarrow> nat \<Rightarrow> nat res" where
  "lc_get_out_degree gal g src = res_bind (lc_deref g) (\<lambda>r. lc_get_degree gal r src)"

definition lc_count_edges :: "nat list \<Rightarrow> nat list \<Rightarrow> nat list res" where
  "lc_count_edges dsts ups = Inr (ups @ [length dsts])"

definition lc_row_size :: "nat list list \<Rightarrow> nat \<Rightarrow> nat res" where
  "lc_row_size es src = res_map length (vec_get es src)"

definition lc_row_dst :: "nat list list \<Rightarrow> nat \<Rightarrow> nat \<Rightarrow> nat res" where
  "lc_row_dst es src idx = res_bind (vec_get es src) (\<lambda>dsts. vec_get dsts idx)"

definition lc_post_ingest :: "('r, 'e) lc_csr_64 \<Rightarrow> galois_rt \<Rightarrow> 'r lc_csr \<Rightarrow> 'r lc_csr res" where
  "lc_post_ingest gal rt g =
     res_bind (do_all rt 2 lc_count_edges (m_edges g) []) (\<lambda>ups.
     res_map (\<lambda>r. g\<lparr>lc_graph := Some r\<rparr>)
       (lc_new gal (length (m_edges g)) (reduce_sum rt ups)
          (lc_row_size (m_edges g)) (lc_row_dst (m_edges g))))"

definition lc_for_each_edge :: "('r, 'e) lc_csr_64 \<Rightarrow> 'r lc_csr \<Rightarrow> nat \<Rightarrow> nat list res" where
  "lc_for_each_edge gal g src =
     res_bind (lc_deref g) (\<lambda>r. res_map (map (lc_get_edge_dst gal r)) (lc_edges gal r src))"

definition lc_sort_edges :: "('r, 'e) lc_csr_64 \<Rightarrow> nat \<Rightarrow> 'r lc_csr \<Rightarrow> 'r lc_csr res" where
  "lc_sort_edges gal src g =
     res_bind (lc_deref g) (\<lambda>r. res_map (\<lambda>r'. g\<lparr>lc_graph := Some r'\<rparr>) (lc_sort_edges_by_dst gal src r))"

definition lc_find_edge :: "('r, 'e) lc_csr_64 \<Rightarrow> 'r lc_csr \<Rightarrow> nat \<Rightarrow> nat \<Rightarrow> bool res" where
  "lc_find_edge gal g src dst =
     res_bind (lc_deref g) (\<lambda>r. res_map (\<lambda>e. e \<noteq> lc_edge_end gal r src) (lc_find_edge_sorted gal r src dst))"

definition lc_ops :: "('r, 'e) lc_csr_64 \<Rightarrow> 'r lc_csr graph_ops" where
  "lc_ops gal = \<lparr>g_size = adj_size, g_out_degree = lc_get_out_degree gal, g_ingest = adj_ingest,
     g_post_ingest = lc_post_ingest gal, g_for_each_edge = lc_for_each_edge gal,
     g_sort_edges = lc_sort_edges gal, g_find_edge_sorted = lc_find_edge gal\<rparr>"

lemmas lc_defs = lc_ops_def adj_size_def lc_get_out_degree_def lc_for_each_edge_def lc_sort_edges_def
  lc_find_edge_def lc_deref_def

section \<open>What Galois documents\<close>

text \<open>\<open>rows\<close> are the edges of a built graph, in the order in which it keeps them.\<close>

definition lc_ok :: "('r, 'e) lc_csr_64 \<Rightarrow> ('r \<Rightarrow> nat list list) \<Rightarrow> bool" where
  "lc_ok gal rows \<longleftrightarrow>
     (\<forall>ss. edge_total ss \<le> u64_max \<longrightarrow> (\<exists>r. lc_new gal (length ss) (edge_total ss) (lc_row_size ss)
        (lc_row_dst ss) = Inr r \<and> rows r = ss)) \<and>
     (\<forall>r. \<forall>u<length (rows r). lc_get_degree gal r u = Inr (length (rows r ! u)) \<and>
        (\<exists>es. lc_edges gal r u = Inr es \<and> map (lc_get_edge_dst gal r) es = rows r ! u) \<and>
        (\<exists>r'. lc_sort_edges_by_dst gal u r = Inr r' \<and> rows r' = (rows r)[u := sort (rows r ! u)]) \<and>
        (\<forall>d. sorted (rows r ! u) \<longrightarrow> (\<exists>e. lc_find_edge_sorted gal r u d = Inr e \<and>
           (e \<noteq> lc_edge_end gal r u \<longleftrightarrow> d \<in> set (rows r ! u)))))"

lemma lc_okD:
  assumes "lc_ok gal rows"
  shows "edge_total ss \<le> u64_max \<Longrightarrow> \<exists>r. lc_new gal (length ss) (edge_total ss) (lc_row_size ss)
      (lc_row_dst ss) = Inr r \<and> rows r = ss"
    and "u < length (rows r) \<Longrightarrow> lc_get_degree gal r u = Inr (length (rows r ! u))"
    and "u < length (rows r) \<Longrightarrow> res_map (map (lc_get_edge_dst gal r)) (lc_edges gal r u) = Inr (rows r ! u)"
    and "u < length (rows r) \<Longrightarrow>
      \<exists>r'. lc_sort_edges_by_dst gal u r = Inr r' \<and> rows r' = (rows r)[u := sort (rows r ! u)]"
    and "u < length (rows r) \<Longrightarrow> sorted (rows r ! u) \<Longrightarrow>
      res_map (\<lambda>e. e \<noteq> lc_edge_end gal r u) (lc_find_edge_sorted gal r u d) = Inr (d \<in> set (rows r ! u))"
proof -
  have all: "\<forall>u<length (rows r). lc_get_degree gal r u = Inr (length (rows r ! u)) \<and>
        (\<exists>es. lc_edges gal r u = Inr es \<and> map (lc_get_edge_dst gal r) es = rows r ! u) \<and>
        (\<exists>r'. lc_sort_edges_by_dst gal u r = Inr r' \<and> rows r' = (rows r)[u := sort (rows r ! u)]) \<and>
        (\<forall>d. sorted (rows r ! u) \<longrightarrow> (\<exists>e. lc_find_edge_sorted gal r u d = Inr e \<and>
           (e \<noteq> lc_edge_end gal r u \<longleftrightarrow> d \<in> set (rows r ! u))))" for r
    using conjunct2 [OF assms [unfolded lc_ok_def]] by (rule spec)
  show "edge_total ss \<le> u64_max \<Longrightarrow> \<exists>r. lc_new gal (length ss) (edge_total ss) (lc_row_size ss)
      (lc_row_dst ss) = Inr r \<and> rows r = ss"
    using assms by (simp add: lc_ok_def)
  assume u: "u < length (rows r)"
  from all [rule_format, OF u]
  show "lc_get_degree gal r u = Inr (length (rows r ! u))"
    and "res_map (map (lc_get_edge_dst gal r)) (lc_edges gal r u) = Inr (rows r ! u)"
    and "\<exists>r'. lc_sort_edges_by_dst gal u r = Inr r' \<and> rows r' = (rows r)[u := sort (rows r ! u)]"
    by auto
  assume "sorted (rows r ! u)"
  with all [rule_format, OF u] obtain e where "lc_find_edge_sorted gal r u d = Inr e"
    "e \<noteq> lc_edge_end gal r u \<longleftrightarrow> d \<in> set (rows r ! u)" by blast
  then show "res_map (\<lambda>e. e \<noteq> lc_edge_end gal r u) (lc_find_edge_sorted gal r u d) =
      Inr (d \<in> set (rows r ! u))" by simp
qed

section \<open>The contracts\<close>

text \<open>
  After a batch the Galois graph holds the adjacency vectors. Sorting touches only the Galois
  graph, so from then on it is the Galois graph alone that can be read.
\<close>

definition lc_rows :: "('r \<Rightarrow> nat list list) \<Rightarrow> 'r lc_csr \<Rightarrow> nat list list" where
  "lc_rows rows g = (case lc_graph g of None \<Rightarrow> [] | Some r \<Rightarrow> rows r)"

definition lc_inv :: "('r \<Rightarrow> nat list list) \<Rightarrow> 'r lc_csr \<Rightarrow> bool" where
  "lc_inv rows g \<longleftrightarrow> closed_graph (m_edges g) \<and> lc_rows rows g = m_edges g"

definition lc_read_inv :: "('r \<Rightarrow> nat list list) \<Rightarrow> 'r lc_csr \<Rightarrow> bool" where
  "lc_read_inv rows g \<longleftrightarrow> closed_graph (lc_rows rows g) \<and> length (lc_rows rows g) = length (m_edges g)"

lemma lc_inv_read: "lc_inv rows g \<Longrightarrow> lc_read_inv rows g"
  by (simp add: lc_inv_def lc_read_inv_def)

lemma lc_inv_empty: "lc_inv rows empty_lc" "m_edges empty_lc = []"
  by (simp_all add: lc_inv_def lc_rows_def empty_lc_def closed_graph_def)

lemma lc_rows_Some:
  assumes "u < length (lc_rows rows g)"
  obtains r where "lc_graph g = Some r" "lc_rows rows g = rows r"
  using assms by (cases "lc_graph g") (auto simp: lc_rows_def)

lemma lc_reading:
  assumes ok: "lc_ok gal rows"
  shows "graph_reading (lc_ops gal) (lc_read_inv rows) (lc_rows rows)"
proof
  fix g :: "'a lc_csr" and u
  assume u: "u < length (lc_rows rows g)"
  then obtain r where r: "lc_graph g = Some r" "lc_rows rows g = rows r" by (rule lc_rows_Some)
  show "g_out_degree (lc_ops gal) g u = Inr (length (lc_rows rows g ! u))"
    "g_for_each_edge (lc_ops gal) g u = Inr (lc_rows rows g ! u)"
    using u lc_okD(2,3) [OF ok, of u r] by (simp_all add: lc_defs r)
qed (auto simp: lc_read_inv_def lc_defs)

lemma lc_sorting:
  assumes ok: "lc_ok gal rows"
  shows "graph_sorting (lc_ops gal) (lc_read_inv rows) (lc_rows rows)"
proof (intro graph_sorting.intro graph_sorting_axioms.intro lc_reading [OF ok])
  fix g :: "'a lc_csr" and u d
  assume inv: "lc_read_inv rows g" and u: "u < length (lc_rows rows g)"
  then obtain r where r: "lc_graph g = Some r" "lc_rows rows g = rows r" by (metis lc_rows_Some)
  with lc_okD(4) [OF ok, of u r] u inv
  show "\<exists>g'. g_sort_edges (lc_ops gal) u g = Inr g' \<and> lc_read_inv rows g' \<and>
      lc_rows rows g' = (lc_rows rows g)[u := sort (lc_rows rows g ! u)]"
    by (auto simp: lc_defs lc_rows_def lc_read_inv_def closed_graph_sort_at)
  assume "sorted (lc_rows rows g ! u)"
  with lc_okD(5) [OF ok, of u r d] u r
  show "g_find_edge_sorted (lc_ops gal) g u d = Inr (d \<in> set (lc_rows rows g ! u))"
    by (simp add: lc_defs)
qed

lemma lc_count_loop:
  assumes "galois_ok rt" "edge_total es \<le> u64_max"
  shows "\<exists>ups. do_all rt k lc_count_edges es [] = Inr ups \<and> reduce_sum rt ups = edge_total es"
proof -
  have "\<exists>ys ups. mset ys = mset es \<and> do_all rt k lc_count_edges es [] = Inr ups \<and>
      ups = map length ys"
    by (rule do_all_rule [OF assms(1)]) (simp_all add: lc_count_edges_def)
  then obtain ys where ys: "mset ys = mset es" and run: "do_all rt k lc_count_edges es [] = Inr (map length ys)"
    by blast
  have "sum_list (map length ys) = edge_total es"
    using ys unfolding edge_total_def by (metis mset_map sum_mset_sum_list)
  with run assms show ?thesis by (auto simp: galois_ok_def u64_max_def)
qed

lemma lc_post_ingest_ok:
  assumes rt: "galois_ok rt" and ok: "lc_ok gal rows" and fits: "edge_total (m_edges g) \<le> u64_max"
  shows "\<exists>r. lc_post_ingest gal rt g = Inr (g\<lparr>lc_graph := Some r\<rparr>) \<and> rows r = m_edges g"
  using lc_count_loop [OF rt fits, of 2] lc_okD(1) [OF ok fits] by (auto simp: lc_post_ingest_def)

lemma lc_updating:
  assumes ok: "lc_ok gal rows"
  shows "graph_updating (lc_ops gal) (lc_inv rows) m_edges"
proof (intro graph_updating.intro graph_updating_axioms.intro graph_reading.intro)
  fix g :: "'a lc_csr" and u
  assume inv: "lc_inv rows g"
  then show "g_size (lc_ops gal) g = length (m_edges g)" "closed_graph (m_edges g)"
    by (simp_all add: lc_defs lc_inv_def)
  assume "u < length (m_edges g)"
  then show "g_out_degree (lc_ops gal) g u = Inr (length (m_edges g ! u))"
    "g_for_each_edge (lc_ops gal) g u = Inr (m_edges g ! u)"
    using graph_reading.degree_law [OF lc_reading [OF ok] lc_inv_read [OF inv], of u]
      graph_reading.edges_law [OF lc_reading [OF ok] lc_inv_read [OF inv], of u] inv
    by (simp_all add: lc_inv_def)
next
  fix rt and g :: "'a lc_csr" and es
  assume rt: "galois_ok rt" and inv: "lc_inv rows g" and es: "batch_ok es"
    and fits: "edge_total (apply_batch es (m_edges g)) \<le> u64_max"
  let ?g = "g\<lparr>m_edges := apply_batch es (m_edges g)\<rparr>"
  have "edge_total (m_edges ?g) \<le> u64_max" using fits by simp
  from lc_post_ingest_ok [OF rt ok this] obtain r where
    "lc_post_ingest gal rt ?g = Inr (?g\<lparr>lc_graph := Some r\<rparr>)" "rows r = apply_batch es (m_edges g)" by auto
  moreover have "adj_ingest rt es g = Inr ?g" by (rule adj_ingest_ok [OF rt es])
  ultimately show "\<exists>g' g''. g_ingest (lc_ops gal) rt es g = Inr g' \<and> g_post_ingest (lc_ops gal) rt g' = Inr g'' \<and>
      lc_inv rows g'' \<and> m_edges g'' = apply_batch es (m_edges g)"
    using inv by (simp add: lc_ops_def lc_inv_def lc_rows_def closed_apply_batch)
qed

text \<open>Loading batches into an empty graph, and reading it.\<close>

lemma lc_loaded:
  assumes rt: "galois_ok rt" and ok: "lc_ok gal rows" and fit: "batches_fit bs []"
  obtains l where "load_batches (lc_ops gal) rt bs empty_lc = Inr l" "m_edges l = fold apply_batch bs []"
    "\<And>u. u < length (m_edges l) \<Longrightarrow> lc_for_each_edge gal l u = Inr (m_edges l ! u)"
    "\<And>u. u < length (m_edges l) \<Longrightarrow> lc_get_out_degree gal l u = Inr (length (m_edges l ! u))"
proof -
  note upd = lc_updating [OF ok]
  have "batches_fit bs (m_edges (empty_lc :: 'a lc_csr))" using fit by (simp add: lc_inv_empty)
  from graph_updating.load_batches_ok [OF upd rt lc_inv_empty(1) this] obtain l where
    l: "load_batches (lc_ops gal) rt bs empty_lc = Inr l" "lc_inv rows l" "m_edges l = fold apply_batch bs []"
    by (auto simp: lc_inv_empty)
  show thesis
    using that [OF l(1,3)] graph_reading.edges_law [OF graph_updating.axioms(1) [OF upd] l(2)]
      graph_reading.degree_law [OF graph_updating.axioms(1) [OF upd] l(2)]
    by (simp add: lc_ops_def)
qed

text \<open>A graph that behaves as documented: the edges themselves, an edge being a row and an index.\<close>

definition row_graph :: "(nat list list, nat \<times> nat) lc_csr_64" where
  "row_graph = \<lparr>lc_new = (\<lambda>n m size dst. fold_res (\<lambda>u ss. res_bind (size u) (\<lambda>k.
       res_map (\<lambda>ds. ss @ [ds]) (fold_res (\<lambda>i ds. res_map (\<lambda>d. ds @ [d]) (dst u i)) [0..<k] []))) [0..<n] []),
     lc_get_degree = (\<lambda>ss u. res_map length (vec_get ss u)),
     lc_edges = (\<lambda>ss u. res_map (\<lambda>ds. map (Pair u) [0..<length ds]) (vec_get ss u)),
     lc_get_edge_dst = (\<lambda>ss (u, i). ss ! u ! i),
     lc_sort_edges_by_dst = (\<lambda>u ss. vec_update ss u sort),
     lc_find_edge_sorted = (\<lambda>ss u d. res_map (\<lambda>ds. (u, length (takeWhile (\<lambda>x. x \<noteq> d) ds))) (vec_get ss u)),
     lc_edge_end = (\<lambda>ss u. (u, length (ss ! u)))\<rparr>"

lemma row_copy_loop: "fold_res (\<lambda>i ds. res_map (\<lambda>d. ds @ [d]) (f i)) is ds0 = Inr (ds0 @ map g is)"
  if "\<forall>i\<in>set is. f i = Inr (g i)" for f :: "nat \<Rightarrow> 'x res"
  using that by (induction "is" arbitrary: ds0) auto

lemma row_graph_ok: "lc_ok row_graph (\<lambda>ss. ss)"
proof -
  have row: "fold_res (\<lambda>i ds. res_map (\<lambda>d. ds @ [d]) (lc_row_dst ss u i)) [0..<length (ss ! u)] [] =
      Inr (ss ! u)" if "u < length ss" for ss u
    using that row_copy_loop [of "[0..<length (ss ! u)]" "lc_row_dst ss u" "(!) (ss ! u)" "[]"]
    by (simp add: lc_row_dst_def map_nth)
  have build: "lc_new row_graph (length ss) m (lc_row_size ss) (lc_row_dst ss) = Inr ss" for ss m
  proof -
    have "fold_res (\<lambda>u acc. res_bind (lc_row_size ss u) (\<lambda>k. res_map (\<lambda>ds. acc @ [ds])
        (fold_res (\<lambda>i ds. res_map (\<lambda>d. ds @ [d]) (lc_row_dst ss u i)) [0..<k] []))) us acc =
        Inr (acc @ map ((!) ss) us)" if "\<forall>u\<in>set us. u < length ss" for us acc
      using that by (induction us arbitrary: acc) (auto simp: lc_row_size_def row)
    from this [of "[0..<length ss]" "[]"] show ?thesis by (simp add: row_graph_def map_nth)
  qed
  have found: "length (takeWhile (\<lambda>x. x \<noteq> d) ds) \<noteq> length ds \<longleftrightarrow> d \<in> set ds" for d and ds :: "nat list"
    by (induction ds) auto
  show ?thesis
    unfolding lc_ok_def build by (auto simp: row_graph_def comp_def map_nth found)
qed

end
