(* ===== verification/LsCsrGraph.thy ===== *)
theory LsCsrGraph
  imports AdjGraph
begin

text \<open>
  \<open>LS_CSR\<close> (include/scea/graph/lscsr.hpp): hands every operation to the log-structured graph
  of Galois, and compacts it after a batch when its log has grown past a threshold. The Galois
  graph is a parameter, as in \<open>LcCsrGraph\<close>. What is assumed of it says nothing of the order
  of the edges of a vertex: inserting and compacting may rearrange them.
\<close>

record 'r ls_lc_csr =
  ls_new :: "nat \<Rightarrow> 'r"
  ls_vertices :: "'r \<Rightarrow> nat"
  ls_get_degree :: "'r \<Rightarrow> nat \<Rightarrow> nat res"
  ls_add_batch :: "batch \<Rightarrow> 'r \<Rightarrow> 'r res"
  ls_csr_bytes :: "'r \<Rightarrow> nat"
  ls_log_bytes :: "'r \<Rightarrow> nat"
  ls_compact :: "'r \<Rightarrow> 'r res"
  ls_edges :: "'r \<Rightarrow> nat \<Rightarrow> nat list res"
  ls_sort :: "nat \<Rightarrow> 'r \<Rightarrow> 'r res"
  ls_find_sorted :: "'r \<Rightarrow> nat \<Rightarrow> nat \<Rightarrow> bool res"

record ('r, 'd) ls_csr =
  ls_graph :: 'r
  compact_threshold :: 'd

section \<open>The class\<close>

definition new_ls_csr :: "'r ls_lc_csr \<Rightarrow> 'd \<Rightarrow> ('r, 'd) ls_csr" where
  "new_ls_csr gal threshold = \<lparr>ls_graph = ls_new gal 0, compact_threshold = threshold\<rparr>"

definition ls_size :: "'r ls_lc_csr \<Rightarrow> ('r, 'd) ls_csr \<Rightarrow> nat" where
  "ls_size gal g = ls_vertices gal (ls_graph g)"

definition ls_get_out_degree :: "'r ls_lc_csr \<Rightarrow> ('r, 'd) ls_csr \<Rightarrow> nat \<Rightarrow> nat res" where
  "ls_get_out_degree gal g src = ls_get_degree gal (ls_graph g) src"

definition ls_ingest :: "'r ls_lc_csr \<Rightarrow> galois_rt \<Rightarrow> batch \<Rightarrow> ('r, 'd) ls_csr \<Rightarrow> ('r, 'd) ls_csr res" where
  "ls_ingest gal rt edges g = res_map (\<lambda>r. g\<lparr>ls_graph := r\<rparr>) (ls_add_batch gal edges (ls_graph g))"

definition ls_post_ingest :: "'r ls_lc_csr \<Rightarrow> galois_rt \<Rightarrow> ('r, 'd::linordered_field) ls_csr \<Rightarrow>
    ('r, 'd) ls_csr res" where
  "ls_post_ingest gal rt g =
     (let csr_usage = ls_csr_bytes gal (ls_graph g); memory_usage = ls_log_bytes gal (ls_graph g)
      in if of_nat memory_usage > compact_threshold g * of_nat csr_usage
         then res_map (\<lambda>r. g\<lparr>ls_graph := r\<rparr>) (ls_compact gal (ls_graph g))
         else Inr g)"

definition ls_for_each_edge :: "'r ls_lc_csr \<Rightarrow> ('r, 'd) ls_csr \<Rightarrow> nat \<Rightarrow> nat list res" where
  "ls_for_each_edge gal g src = ls_edges gal (ls_graph g) src"

definition ls_sort_edges :: "'r ls_lc_csr \<Rightarrow> nat \<Rightarrow> ('r, 'd) ls_csr \<Rightarrow> ('r, 'd) ls_csr res" where
  "ls_sort_edges gal src g = res_map (\<lambda>r. g\<lparr>ls_graph := r\<rparr>) (ls_sort gal src (ls_graph g))"

definition ls_find_edge :: "'r ls_lc_csr \<Rightarrow> ('r, 'd) ls_csr \<Rightarrow> nat \<Rightarrow> nat \<Rightarrow> bool res" where
  "ls_find_edge gal g src dst = ls_find_sorted gal (ls_graph g) src dst"

definition ls_ops :: "'r ls_lc_csr \<Rightarrow> ('r, 'd::linordered_field) ls_csr graph_ops" where
  "ls_ops gal = \<lparr>g_size = ls_size gal, g_out_degree = ls_get_out_degree gal, g_ingest = ls_ingest gal,
     g_post_ingest = ls_post_ingest gal, g_for_each_edge = ls_for_each_edge gal,
     g_sort_edges = ls_sort_edges gal, g_find_edge_sorted = ls_find_edge gal\<rparr>"

lemmas ls_defs = ls_ops_def ls_size_def ls_get_out_degree_def ls_for_each_edge_def ls_sort_edges_def
  ls_find_edge_def

section \<open>What Galois documents\<close>

definition same_rows :: "nat list list \<Rightarrow> nat list list \<Rightarrow> bool" where
  "same_rows xs ys \<longleftrightarrow> list_all2 (\<lambda>a b. mset a = mset b) xs ys"

definition ls_ok :: "'r ls_lc_csr \<Rightarrow> ('r \<Rightarrow> nat list list) \<Rightarrow> bool" where
  "ls_ok gal rows \<longleftrightarrow> rows (ls_new gal 0) = [] \<and>
     (\<forall>r. ls_vertices gal r = length (rows r)) \<and>
     (\<forall>r es. batch_ok es \<and> edge_total (apply_batch es (rows r)) \<le> u64_max \<longrightarrow>
        (\<exists>r'. ls_add_batch gal es r = Inr r' \<and> same_rows (rows r') (apply_batch es (rows r)))) \<and>
     (\<forall>r. \<exists>r'. ls_compact gal r = Inr r' \<and> same_rows (rows r') (rows r)) \<and>
     (\<forall>r. \<forall>u<length (rows r). ls_get_degree gal r u = Inr (length (rows r ! u)) \<and>
        ls_edges gal r u = Inr (rows r ! u) \<and>
        (\<exists>r'. ls_sort gal u r = Inr r' \<and> rows r' = (rows r)[u := sort (rows r ! u)]) \<and>
        (\<forall>d. sorted (rows r ! u) \<longrightarrow> ls_find_sorted gal r u d = Inr (d \<in> set (rows r ! u))))"

lemma ls_okD:
  assumes "ls_ok gal rows"
  shows "ls_vertices gal r = length (rows r)"
    and "batch_ok es \<Longrightarrow> edge_total (apply_batch es (rows r)) \<le> u64_max \<Longrightarrow>
      \<exists>r'. ls_add_batch gal es r = Inr r' \<and> same_rows (rows r') (apply_batch es (rows r))"
    and "\<exists>r'. ls_compact gal r = Inr r' \<and> same_rows (rows r') (rows r)"
    and "u < length (rows r) \<Longrightarrow> ls_get_degree gal r u = Inr (length (rows r ! u)) \<and>
        ls_edges gal r u = Inr (rows r ! u)"
    and "u < length (rows r) \<Longrightarrow>
      \<exists>r'. ls_sort gal u r = Inr r' \<and> rows r' = (rows r)[u := sort (rows r ! u)]"
    and "u < length (rows r) \<Longrightarrow> sorted (rows r ! u) \<Longrightarrow>
      ls_find_sorted gal r u d = Inr (d \<in> set (rows r ! u))"
  using assms by (simp_all add: ls_ok_def)

lemma same_rows_refl [simp]: "same_rows xs xs"
  by (simp add: same_rows_def list_all2_refl)

lemma same_rows_trans: "same_rows xs ys \<Longrightarrow> same_rows ys zs \<Longrightarrow> same_rows xs zs"
  unfolding same_rows_def by (rule list_all2_trans) auto

lemma same_rows_iff: "same_rows xs ys \<longleftrightarrow> length xs = length ys \<and>
    (\<forall>u<length ys. mset (xs ! u) = mset (ys ! u))"
  by (auto simp: same_rows_def list_all2_conv_all_nth)

lemma same_rows_apply: "same_rows xs ys \<Longrightarrow> same_rows (apply_batch es xs) (apply_batch es ys)"
  by (auto simp: same_rows_iff nth_apply_batch adj_of_def)

lemma same_rows_total: "same_rows xs ys \<Longrightarrow> edge_total xs = edge_total ys"
  unfolding same_rows_def edge_total_def
  by (induction rule: list_all2_induct) (auto dest: mset_eq_length)

lemma same_rows_closed: "same_rows xs ys \<Longrightarrow> closed_graph ys \<Longrightarrow> closed_graph xs"
  by (rule closed_graphI) (metis closed_graphD same_rows_iff mset_eq_setD)

section \<open>The contracts, up to the order of the edges of a vertex\<close>

definition ls_rows :: "('r \<Rightarrow> nat list list) \<Rightarrow> ('r, 'd) ls_csr \<Rightarrow> nat list list" where
  "ls_rows rows g = rows (ls_graph g)"

definition ls_inv :: "('r \<Rightarrow> nat list list) \<Rightarrow> ('r, 'd) ls_csr \<Rightarrow> bool" where
  "ls_inv rows g \<longleftrightarrow> closed_graph (ls_rows rows g)"

lemma ls_sorting:
  assumes "ls_ok gal rows"
  shows "graph_sorting (ls_ops gal :: ('r, 'd::linordered_field) ls_csr graph_ops) (ls_inv rows) (ls_rows rows)"
proof
  fix g :: "('r, 'd) ls_csr" and u
  assume inv: "ls_inv rows g" and u: "u < length (ls_rows rows g)"
  note reads = ls_okD(4-6) [OF assms u [unfolded ls_rows_def]]
  show "g_out_degree (ls_ops gal) g u = Inr (length (ls_rows rows g ! u))"
    "g_for_each_edge (ls_ops gal) g u = Inr (ls_rows rows g ! u)"
    using reads(1) by (simp_all add: ls_defs ls_rows_def)
  from reads(2) inv u show "\<exists>g'. g_sort_edges (ls_ops gal) u g = Inr g' \<and> ls_inv rows g' \<and>
      ls_rows rows g' = (ls_rows rows g)[u := sort (ls_rows rows g ! u)]"
    by (auto simp: ls_defs ls_inv_def ls_rows_def closed_graph_sort_at)
  show "sorted (ls_rows rows g ! u) \<Longrightarrow>
      g_find_edge_sorted (ls_ops gal) g u d = Inr (d \<in> set (ls_rows rows g ! u))" for d
    using reads(3) by (simp add: ls_defs ls_rows_def)
qed (use ls_okD(1) [OF assms] in \<open>simp_all add: ls_defs ls_inv_def ls_rows_def\<close>)

text \<open>After the post-processing the graph is compacted or its log is small enough.\<close>

definition log_bounded :: "'r ls_lc_csr \<Rightarrow> ('r, 'd::linordered_field) ls_csr \<Rightarrow> bool" where
  "log_bounded gal g \<longleftrightarrow>
     of_nat (ls_log_bytes gal (ls_graph g)) \<le> compact_threshold g * of_nat (ls_csr_bytes gal (ls_graph g))"

lemma ls_load_batch_ok:
  fixes g :: "('r, 'd::linordered_field) ls_csr"
  assumes ok: "ls_ok gal rows" and es: "batch_ok es" and inv: "ls_inv rows g"
    and fits: "edge_total (apply_batch es (ls_rows rows g)) \<le> u64_max"
  shows "\<exists>g'. load_batch (ls_ops gal) rt es g = Inr g' \<and> ls_inv rows g' \<and>
    same_rows (ls_rows rows g') (apply_batch es (ls_rows rows g)) \<and>
    (log_bounded gal g' \<or> (\<exists>r. ls_compact gal r = Inr (ls_graph g')))"
proof -
  have closed: "closed_graph (apply_batch es (ls_rows rows g))"
    using inv by (simp add: ls_inv_def closed_apply_batch)
  obtain r where r: "ls_add_batch gal es (ls_graph g) = Inr r" "same_rows (rows r) (apply_batch es (ls_rows rows g))"
    using ls_okD(2) [OF ok es] fits unfolding ls_rows_def by blast
  let ?g = "g\<lparr>ls_graph := r\<rparr>"
  obtain r' where r': "ls_compact gal r = Inr r'" "same_rows (rows r') (rows r)"
    using ls_okD(3) [OF ok] by blast
  have "ls_post_ingest gal rt ?g = Inr (if log_bounded gal ?g then ?g else ?g\<lparr>ls_graph := r'\<rparr>)"
    by (auto simp: ls_post_ingest_def Let_def log_bounded_def r')
  then have "load_batch (ls_ops gal) rt es g = Inr (if log_bounded gal ?g then ?g else ?g\<lparr>ls_graph := r'\<rparr>)"
    by (simp add: load_batch_def ls_ops_def ls_ingest_def r)
  moreover have "same_rows (rows r') (apply_batch es (ls_rows rows g))"
    using r'(2) r(2) by (rule same_rows_trans)
  ultimately show ?thesis
    using r r' closed same_rows_closed by (auto simp: ls_inv_def ls_rows_def)
qed

lemma ls_load_batches_ok:
  fixes g :: "('r, 'd::linordered_field) ls_csr"
  assumes ok: "ls_ok gal rows"
  shows "batches_fit bs ss \<Longrightarrow> ls_inv rows g \<Longrightarrow> same_rows (ls_rows rows g) ss \<Longrightarrow>
    \<exists>g'. load_batches (ls_ops gal) rt bs g = Inr g' \<and> ls_inv rows g' \<and>
      same_rows (ls_rows rows g') (fold apply_batch bs ss)"
proof (induction bs arbitrary: g ss)
  case Nil
  then show ?case by (simp add: load_batches_def)
next
  case (Cons es bs)
  note same = same_rows_apply [OF Cons.prems(3), of es]
  have fits: "batch_ok es" "edge_total (apply_batch es (ls_rows rows g)) \<le> u64_max"
    using Cons.prems(1) same_rows_total [OF same] by simp_all
  from ls_load_batch_ok [OF ok fits(1) Cons.prems(2) fits(2)] obtain g' where
    g': "load_batch (ls_ops gal) rt es g = Inr g'" "ls_inv rows g'"
      "same_rows (ls_rows rows g') (apply_batch es (ls_rows rows g))" by blast
  have "same_rows (ls_rows rows g') (apply_batch es ss)" using g'(3) same by (rule same_rows_trans)
  with Cons.IH [of "apply_batch es ss" g'] Cons.prems(1) g' show ?case by (simp add: load_batches_def)
qed

lemma ls_loaded:
  fixes threshold :: "'d::linordered_field"
  assumes ok: "ls_ok gal rows" and fit: "batches_fit bs []"
  obtains s where "load_batches (ls_ops gal) rt bs (new_ls_csr gal threshold) = Inr s"
    "ls_size gal s = length (fold apply_batch bs [])"
    "\<And>u. u < length (fold apply_batch bs []) \<Longrightarrow> \<exists>ds. ls_for_each_edge gal s u = Inr ds \<and>
      mset ds = mset (fold apply_batch bs [] ! u) \<and> ls_get_out_degree gal s u = Inr (length ds)"
proof -
  let ?new = "new_ls_csr gal threshold"
  have "ls_inv rows ?new" "same_rows (ls_rows rows ?new) []"
    using ok by (simp_all add: ls_inv_def ls_rows_def new_ls_csr_def ls_ok_def closed_graph_def same_rows_def)
  from ls_load_batches_ok [OF ok fit this] obtain s where
    s: "load_batches (ls_ops gal) rt bs ?new = Inr s" "ls_inv rows s"
      "same_rows (ls_rows rows s) (fold apply_batch bs [])" by blast
  note reading = graph_sorting.axioms(1) [OF ls_sorting [where 'd = 'd, OF ok]]
  show thesis
    using that [OF s(1)] s(3) graph_reading.size_law [OF reading s(2)] graph_reading.edges_law [OF reading s(2)]
      graph_reading.degree_law [OF reading s(2)]
    by (simp add: same_rows_iff ls_ops_def)
qed

text \<open>A graph that behaves as documented: its log is what was added since the last compaction.\<close>

definition logged_graph :: "(nat list list \<times> nat) ls_lc_csr" where
  "logged_graph = \<lparr>ls_new = (\<lambda>n. (replicate n [], 0)), ls_vertices = (\<lambda>(ss, k). length ss),
     ls_get_degree = (\<lambda>(ss, k) u. res_map length (vec_get ss u)),
     ls_add_batch = (\<lambda>es (ss, k). Inr (apply_batch es ss, k + length (batch_ids es))),
     ls_csr_bytes = (\<lambda>(ss, k). 8 * (edge_total ss - k)), ls_log_bytes = (\<lambda>(ss, k). 8 * k),
     ls_compact = (\<lambda>(ss, k). Inr (map rev ss, 0)), ls_edges = (\<lambda>(ss, k) u. vec_get ss u),
     ls_sort = (\<lambda>u (ss, k). res_map (\<lambda>ss'. (ss', k)) (vec_update ss u sort)),
     ls_find_sorted = (\<lambda>(ss, k) u d. res_map (\<lambda>ds. d \<in> set ds) (vec_get ss u))\<rparr>"

lemma logged_graph_ok: "ls_ok logged_graph fst"
  by (auto simp: ls_ok_def logged_graph_def same_rows_def list_all2_refl list_all2_conv_all_nth)

end
