(* ===== verification/MorphGraph.thy ===== *)
theory MorphGraph
  imports AdjGraph
begin

text \<open>
  \<open>MorphGraph\<close> (include/scea/graph/morph.hpp): a vector of the nodes of a Galois morph graph.
  The Galois graph is a parameter, as in \<open>LcCsrGraph\<close>. Its \<open>addEdge\<close> adds no second edge
  between the same two nodes, so this representation alone keeps no parallel edges.
\<close>

record ('r, 'n, 'e) morph_galois =
  mo_empty :: 'r
  mo_size :: "'r \<Rightarrow> nat"
  mo_create_node :: "nat \<Rightarrow> 'r \<Rightarrow> 'n \<times> 'r"
  mo_add_node :: "'n \<Rightarrow> 'r \<Rightarrow> 'r"
  mo_add_edge :: "'n \<Rightarrow> 'n \<Rightarrow> 'r \<Rightarrow> 'r"
  mo_edges :: "'r \<Rightarrow> 'n \<Rightarrow> 'e list"
  mo_get_edge_dst :: "'r \<Rightarrow> 'e \<Rightarrow> 'n"
  mo_get_data :: "'r \<Rightarrow> 'n \<Rightarrow> nat"
  mo_sort_edges_by_dst :: "'n \<Rightarrow> 'r \<Rightarrow> 'r"
  mo_find_edge_sorted :: "'r \<Rightarrow> 'n \<Rightarrow> 'n \<Rightarrow> 'e"
  mo_edge_end :: "'r \<Rightarrow> 'n \<Rightarrow> 'e"

record ('r, 'n) morph_graph =
  mg_graph :: 'r
  mg_vertices :: "'n list"

section \<open>The class\<close>

definition empty_morph :: "('r, 'n, 'e) morph_galois \<Rightarrow> ('r, 'n) morph_graph" where
  "empty_morph gal = \<lparr>mg_graph = mo_empty gal, mg_vertices = []\<rparr>"

definition morph_size :: "('r, 'n, 'e) morph_galois \<Rightarrow> ('r, 'n) morph_graph \<Rightarrow> nat" where
  "morph_size gal g = mo_size gal (mg_graph g)"

definition morph_get_out_degree :: "('r, 'n, 'e) morph_galois \<Rightarrow> ('r, 'n) morph_graph \<Rightarrow> nat \<Rightarrow> nat res" where
  "morph_get_out_degree gal g src =
     res_map (\<lambda>n. length (mo_edges gal (mg_graph g) n)) (vec_get (mg_vertices g) src)"

definition morph_add_vertex :: "('r, 'n, 'e) morph_galois \<Rightarrow> nat \<Rightarrow> ('r, 'n) morph_graph \<Rightarrow>
    ('r, 'n) morph_graph" where
  "morph_add_vertex gal i g = (case mo_create_node gal i (mg_graph g) of (n, r) \<Rightarrow>
     g\<lparr>mg_graph := mo_add_node gal n r, mg_vertices := mg_vertices g @ [n]\<rparr>)"

definition morph_add_edge :: "('r, 'n, 'e) morph_galois \<Rightarrow> 'n list \<Rightarrow> nat \<Rightarrow> nat \<Rightarrow> 'r \<Rightarrow> 'r res" where
  "morph_add_edge gal vertices src dst r =
     res_bind (vec_get vertices src) (\<lambda>a. res_map (\<lambda>b. mo_add_edge gal a b r) (vec_get vertices dst))"

definition morph_add_edges :: "('r, 'n, 'e) morph_galois \<Rightarrow> 'n list \<Rightarrow> nat \<times> nat list \<Rightarrow> 'r \<Rightarrow> 'r res" where
  "morph_add_edges gal vertices p r = (case p of (src, dsts) \<Rightarrow>
     fold_res (morph_add_edge gal vertices src) dsts r)"

definition morph_ingest :: "('r, 'n, 'e) morph_galois \<Rightarrow> galois_rt \<Rightarrow> batch \<Rightarrow> ('r, 'n) morph_graph \<Rightarrow>
    ('r, 'n) morph_graph res" where
  "morph_ingest gal rt edges g =
     res_bind (do_all rt 0 find_max_updates edges []) (\<lambda>ups.
     let g' = fold (morph_add_vertex gal)
                [length (mg_vertices g)..<u64_add (reduce_max rt ups) 1] g
     in res_map (\<lambda>r. g'\<lparr>mg_graph := r\<rparr>)
          (do_all rt 1 (morph_add_edges gal (mg_vertices g')) edges (mg_graph g')))"

definition morph_post_ingest :: "galois_rt \<Rightarrow> ('r, 'n) morph_graph \<Rightarrow> ('r, 'n) morph_graph res" where
  "morph_post_ingest rt g = Inr g"

definition morph_for_each_edge :: "('r, 'n, 'e) morph_galois \<Rightarrow> ('r, 'n) morph_graph \<Rightarrow> nat \<Rightarrow> nat list res" where
  "morph_for_each_edge gal g src =
     res_map (\<lambda>n. map (\<lambda>e. mo_get_data gal (mg_graph g) (mo_get_edge_dst gal (mg_graph g) e))
        (mo_edges gal (mg_graph g) n)) (vec_get (mg_vertices g) src)"

definition morph_sort_edges :: "('r, 'n, 'e) morph_galois \<Rightarrow> nat \<Rightarrow> ('r, 'n) morph_graph \<Rightarrow>
    ('r, 'n) morph_graph res" where
  "morph_sort_edges gal src g =
     res_map (\<lambda>n. g\<lparr>mg_graph := mo_sort_edges_by_dst gal n (mg_graph g)\<rparr>) (vec_get (mg_vertices g) src)"

definition morph_find_edge_sorted :: "('r, 'n, 'e) morph_galois \<Rightarrow> ('r, 'n) morph_graph \<Rightarrow> nat \<Rightarrow> nat \<Rightarrow>
    bool res" where
  "morph_find_edge_sorted gal g src dst =
     res_bind (vec_get (mg_vertices g) src) (\<lambda>a. res_map (\<lambda>b.
       mo_find_edge_sorted gal (mg_graph g) a b \<noteq> mo_edge_end gal (mg_graph g) a) (vec_get (mg_vertices g) dst))"

definition morph_ops :: "('r, 'n, 'e) morph_galois \<Rightarrow> ('r, 'n) morph_graph graph_ops" where
  "morph_ops gal = \<lparr>g_size = morph_size gal, g_out_degree = morph_get_out_degree gal,
     g_ingest = morph_ingest gal, g_post_ingest = morph_post_ingest,
     g_for_each_edge = morph_for_each_edge gal, g_sort_edges = morph_sort_edges gal,
     g_find_edge_sorted = morph_find_edge_sorted gal\<rparr>"

lemmas morph_defs = morph_ops_def morph_size_def morph_get_out_degree_def morph_for_each_edge_def
  morph_sort_edges_def morph_find_edge_sorted_def morph_post_ingest_def

section \<open>What Galois documents\<close>

definition mo_ok :: "('r, 'n, 'e) morph_galois \<Rightarrow> ('r \<Rightarrow> 'n set) \<Rightarrow> ('r \<Rightarrow> 'n \<Rightarrow> 'n list) \<Rightarrow> bool" where
  "mo_ok gal nodes out \<longleftrightarrow> nodes (mo_empty gal) = {} \<and> (\<forall>r. mo_size gal r = card (nodes r)) \<and>
     (\<forall>r n. n \<in> nodes r \<longrightarrow> map (mo_get_edge_dst gal r) (mo_edges gal r n) = out r n) \<and>
     (\<forall>r i n r'. mo_create_node gal i r = (n, r') \<longrightarrow> n \<notin> nodes r \<and> nodes r' = nodes r \<and>
        mo_get_data gal r' n = i \<and>
        (\<forall>m\<in>nodes r. mo_get_data gal r' m = mo_get_data gal r m \<and> out r' m = out r m)) \<and>
     (\<forall>r n. n \<notin> nodes r \<longrightarrow> nodes (mo_add_node gal n r) = insert n (nodes r) \<and>
        out (mo_add_node gal n r) n = [] \<and>
        (\<forall>m. mo_get_data gal (mo_add_node gal n r) m = mo_get_data gal r m) \<and>
        (\<forall>m\<in>nodes r. out (mo_add_node gal n r) m = out r m)) \<and>
     (\<forall>r a b. a \<in> nodes r \<and> b \<in> nodes r \<longrightarrow> nodes (mo_add_edge gal a b r) = nodes r \<and>
        (\<forall>m. mo_get_data gal (mo_add_edge gal a b r) m = mo_get_data gal r m) \<and>
        (\<forall>m\<in>nodes r - {a}. out (mo_add_edge gal a b r) m = out r m) \<and>
        set (out (mo_add_edge gal a b r) a) = insert b (set (out r a)) \<and>
        (distinct (out r a) \<longrightarrow> distinct (out (mo_add_edge gal a b r) a)))"

lemma mo_okD:
  assumes "mo_ok gal nodes out"
  shows "nodes (mo_empty gal) = {}" "mo_size gal r = card (nodes r)"
    and "n \<in> nodes r \<Longrightarrow> map (mo_get_edge_dst gal r) (mo_edges gal r n) = out r n"
    and "mo_create_node gal i r = (n, r') \<Longrightarrow> n \<notin> nodes r \<and> nodes r' = nodes r \<and>
      mo_get_data gal r' n = i \<and> (\<forall>m\<in>nodes r. mo_get_data gal r' m = mo_get_data gal r m \<and> out r' m = out r m)"
    and "n \<notin> nodes r \<Longrightarrow> nodes (mo_add_node gal n r) = insert n (nodes r) \<and>
      out (mo_add_node gal n r) n = [] \<and>
      (\<forall>m. mo_get_data gal (mo_add_node gal n r) m = mo_get_data gal r m) \<and>
      (\<forall>m\<in>nodes r. out (mo_add_node gal n r) m = out r m)"
    and "a \<in> nodes r \<Longrightarrow> b \<in> nodes r \<Longrightarrow> nodes (mo_add_edge gal a b r) = nodes r \<and>
      (\<forall>m. mo_get_data gal (mo_add_edge gal a b r) m = mo_get_data gal r m) \<and>
      (\<forall>m\<in>nodes r - {a}. out (mo_add_edge gal a b r) m = out r m) \<and>
      set (out (mo_add_edge gal a b r) a) = insert b (set (out r a)) \<and>
      (distinct (out r a) \<longrightarrow> distinct (out (mo_add_edge gal a b r) a))"
  using assms by (simp_all add: mo_ok_def)

section \<open>The state\<close>

text \<open>
  The node of vertex i carries i, and leads exactly to the nodes of the vertices that \<open>ss\<close>
  lists for i, each once.
\<close>

definition morph_holds :: "('r, 'n, 'e) morph_galois \<Rightarrow> ('r \<Rightarrow> 'n set) \<Rightarrow> ('r \<Rightarrow> 'n \<Rightarrow> 'n list) \<Rightarrow>
    'n list \<Rightarrow> 'r \<Rightarrow> nat list list \<Rightarrow> bool" where
  "morph_holds gal nodes out vs r ss \<longleftrightarrow> distinct vs \<and> set vs = nodes r \<and> length vs = length ss \<and>
     closed_graph ss \<and> (\<forall>i<length ss. mo_get_data gal r (vs ! i) = i \<and> distinct (out r (vs ! i)) \<and>
        set (out r (vs ! i)) = (!) vs ` set (ss ! i))"

lemma morph_holdsI:
  assumes "distinct vs" "set vs = nodes r" "length vs = length ss" "closed_graph ss"
    and "\<And>i. i < length ss \<Longrightarrow> mo_get_data gal r (vs ! i) = i \<and> distinct (out r (vs ! i)) \<and>
      set (out r (vs ! i)) = (!) vs ` set (ss ! i)"
  shows "morph_holds gal nodes out vs r ss"
  using assms by (simp add: morph_holds_def)

lemma morph_holdsD:
  assumes "morph_holds gal nodes out vs r ss"
  shows "distinct vs" "set vs = nodes r" "length vs = length ss" "closed_graph ss"
    and "i < length ss \<Longrightarrow> vs ! i \<in> nodes r"
    and "i < length ss \<Longrightarrow> mo_get_data gal r (vs ! i) = i"
    and "i < length ss \<Longrightarrow> distinct (out r (vs ! i))"
    and "i < length ss \<Longrightarrow> set (out r (vs ! i)) = (!) vs ` set (ss ! i)"
  using assms by (auto simp: morph_holds_def)

lemma nth_append_image:
  "closed_graph ss \<Longrightarrow> k < length ss \<Longrightarrow> length vs = length ss \<Longrightarrow>
    (!) (vs @ [n]) ` set (ss ! k) = (!) vs ` set (ss ! k)"
  by (intro image_cong refl) (auto simp: nth_append dest: closed_graphD)

lemma closed_graph_grow: "closed_graph ss \<Longrightarrow> closed_graph (ss @ [[]])"
  by (auto simp: closed_graph_def less_Suc_eq)

lemma closed_graph_add:
  assumes "closed_graph ss" "u < length ss" "d < length ss"
  shows "closed_graph (ss[u := ss ! u @ [d]])"
proof (rule closed_graphI)
  fix v e
  assume "v < length (ss[u := ss ! u @ [d]])" "e \<in> set (ss[u := ss ! u @ [d]] ! v)"
  then have "e \<in> set (ss ! v) \<and> v < length ss \<or> e = d" using assms(2) by (cases "v = u") auto
  then show "e < length (ss[u := ss ! u @ [d]])" using closed_graphD [OF assms(1)] assms(3) by auto
qed

lemma morph_add_vertex_holds:
  assumes ok: "mo_ok gal nodes out"
    and holds: "morph_holds gal nodes out (mg_vertices g) (mg_graph g) ss" and i: "i = length ss"
  shows "morph_holds gal nodes out (mg_vertices (morph_add_vertex gal i g))
    (mg_graph (morph_add_vertex gal i g)) (ss @ [[]])"
proof -
  obtain n r where new: "mo_create_node gal i (mg_graph g) = (n, r)" by force
  note old = morph_holdsD [OF holds]
  note created = mo_okD(4) [OF ok new]
  then have fresh: "n \<notin> nodes r" by simp
  note added = mo_okD(5) [OF ok fresh]
  show ?thesis
    unfolding morph_add_vertex_def new prod.case
  proof (rule morph_holdsI, goal_cases)
    case (5 k)
    show ?case
    proof (cases "k < length ss")
      case True
      then have "(mg_vertices g @ [n]) ! k = mg_vertices g ! k" using old(3) by (simp add: nth_append)
      then show ?thesis
        using old(4-8) True created added nth_append_image [OF old(4) True old(3)] by (simp add: nth_append)
    next
      case False
      then have "k = length ss" using 5 by simp
      then show ?thesis using old(3) created added i by (simp add: nth_append)
    qed
  qed (use old created added in \<open>auto simp: closed_graph_grow\<close>)
qed

lemma morph_add_vertices_hold:
  assumes ok: "mo_ok gal nodes out"
    and holds: "morph_holds gal nodes out (mg_vertices g) (mg_graph g) ss"
  shows "morph_holds gal nodes out (mg_vertices (fold (morph_add_vertex gal) [length ss..<length ss + k] g))
    (mg_graph (fold (morph_add_vertex gal) [length ss..<length ss + k] g)) (ss @ replicate k [])"
proof (induction k)
  case 0
  then show ?case using holds by simp
next
  case (Suc k)
  from morph_add_vertex_holds [OF ok Suc.IH, of "length ss + k"] show ?case
    by (simp add: replicate_append_same)
qed

lemma morph_add_edge_holds:
  assumes ok: "mo_ok gal nodes out" and holds: "morph_holds gal nodes out vs r ss"
    and src: "src < length ss" and dst: "dst < length ss"
  shows "\<exists>r'. morph_add_edge gal vs src dst r = Inr r' \<and>
    morph_holds gal nodes out vs r' (ss[src := ss ! src @ [dst]])"
proof -
  note old = morph_holdsD [OF holds]
  note added = mo_okD(6) [OF ok old(5) [OF src] old(5) [OF dst]]
  have other: "vs ! i \<noteq> vs ! src" if "i < length ss" "i \<noteq> src" for i
    using that old(1,3) src nth_eq_iff_index_eq by metis
  have "morph_holds gal nodes out vs (mo_add_edge gal (vs ! src) (vs ! dst) r)
      (ss[src := ss ! src @ [dst]])"
  proof (rule morph_holdsI, goal_cases)
    case (5 i)
    then show ?case
      using old(5-8) added src other by (cases "i = src") auto
  qed (use old(1-4) added src dst closed_graph_add in auto)
  then show ?thesis using src dst old(3) by (simp add: morph_add_edge_def)
qed

lemma morph_add_edges_hold:
  assumes ok: "mo_ok gal nodes out" and src: "src < length ss"
  shows "morph_holds gal nodes out vs r ss \<Longrightarrow> \<forall>d\<in>set dsts. d < length ss \<Longrightarrow>
    \<exists>r'. morph_add_edges gal vs (src, dsts) r = Inr r' \<and>
      morph_holds gal nodes out vs r' (ss[src := ss ! src @ dsts])"
proof (induction dsts rule: rev_induct)
  case Nil
  then show ?case by (simp add: morph_add_edges_def)
next
  case (snoc d dsts)
  then obtain r' where r': "morph_add_edges gal vs (src, dsts) r = Inr r'"
    "morph_holds gal nodes out vs r' (ss[src := ss ! src @ dsts])" by auto
  from morph_add_edge_holds [OF ok r'(2), of src d] snoc.prems src r'(1)
  show ?case by (auto simp: morph_add_edges_def fold_res_append)
qed

section \<open>Ingesting a batch\<close>

lemma morph_edges_loop:
  assumes rt: "galois_ok rt" and ok: "mo_ok gal nodes out" and distinct: "distinct (map fst es)"
    and holds: "morph_holds gal nodes out vs r m"
    and ids: "\<forall>x\<in>set (batch_ids es). x < length m"
  shows "\<exists>r'. do_all rt k (morph_add_edges gal vs) es r = Inr r' \<and>
    morph_holds gal nodes out vs r' (map (\<lambda>u. m ! u @ batch_for es u) [0..<length m])"
proof -
  let ?ss = "\<lambda>ys. map (\<lambda>u. m ! u @ batch_for ys u) [0..<length m]"
  have "\<exists>ys t. mset ys = mset es \<and> do_all rt k (morph_add_edges gal vs) es r = Inr t \<and>
      morph_holds gal nodes out vs t (?ss ys)"
  proof (rule do_all_rule [OF rt])
    show "morph_holds gal nodes out vs r (?ss [])" using holds by (simp add: batch_for_def map_nth)
  next
    fix ys :: batch and x :: "nat \<times> nat list" and t
    assume x: "x \<in> set es" and t: "morph_holds gal nodes out vs t (?ss ys)"
    obtain src dsts where src: "x = (src, dsts)" by (cases x)
    have "set (src # dsts) \<subseteq> set (batch_ids es)" using x by (force simp: src batch_ids_def)
    then have lt: "src < length (?ss ys)" "\<forall>d\<in>set dsts. d < length (?ss ys)" using ids by auto
    have "(?ss ys)[src := ?ss ys ! src @ dsts] = ?ss (ys @ [x])"
      by (rule nth_equalityI) (simp_all add: src batch_for_def nth_list_update)
    with morph_add_edges_hold [OF ok lt(1) t lt(2)]
    show "\<exists>t'. morph_add_edges gal vs x t = Inr t' \<and> morph_holds gal nodes out vs t' (?ss (ys @ [x]))"
      by (simp only: src)
  qed
  then obtain ys t where ys: "mset ys = mset es" and t: "do_all rt k (morph_add_edges gal vs) es r = Inr t"
    "morph_holds gal nodes out vs t (?ss ys)" by blast
  have "batch_for ys u = batch_for es u" for u
    unfolding batch_for_def by (rule concat_append_at [OF ys distinct])
  with t show ?thesis by auto
qed

lemma morph_ingest_ok:
  assumes rt: "galois_ok rt" and ok: "mo_ok gal nodes out" and es: "batch_ok es"
    and holds: "morph_holds gal nodes out (mg_vertices g) (mg_graph g) ss"
  shows "\<exists>g'. morph_ingest gal rt es g = Inr g' \<and>
    morph_holds gal nodes out (mg_vertices g') (mg_graph g') (apply_batch es ss)"
proof -
  obtain ups where ups: "do_all rt 0 find_max_updates es [] = Inr ups" "fold max ups 0 = batch_max es"
    using find_max_loop [OF rt] by blast
  have red: "u64_add (reduce_max rt ups) 1 = Suc (batch_max es)"
    using rt batch_max_less [OF es] ups(2) by (simp add: galois_ok_def u64_add_small)
  let ?k = "Suc (batch_max es) - length ss" and ?n = "max (length ss) (Suc (batch_max es))"
  let ?m = "ss @ replicate ?k []"
  let ?g = "fold (morph_add_vertex gal) [length (mg_vertices g)..<Suc (batch_max es)] g"
  have "[length (mg_vertices g)..<Suc (batch_max es)] = [length ss..<length ss + ?k]"
    using holds by (cases "length ss \<le> Suc (batch_max es)") (simp_all add: morph_holds_def)
  with morph_add_vertices_hold [OF ok holds, of ?k]
  have grown: "morph_holds gal nodes out (mg_vertices ?g) (mg_graph ?g) ?m" by simp
  have len: "length ?m = ?n" by simp
  have ids: "\<forall>x\<in>set (batch_ids es). x < length ?m" using batch_max_ge unfolding len by fastforce
  have "distinct (map fst es)" using es by (simp add: batch_ok_def)
  from morph_edges_loop [OF rt ok this grown ids, of 1] obtain r' where
    r': "do_all rt 1 (morph_add_edges gal (mg_vertices ?g)) es (mg_graph ?g) = Inr r'"
    "morph_holds gal nodes out (mg_vertices ?g) r' (map (\<lambda>u. ?m ! u @ batch_for es u) [0..<length ?m])" by blast
  have "map (\<lambda>u. ?m ! u @ batch_for es u) [0..<length ?m] = apply_batch es ss"
    unfolding len apply_batch_def by (rule map_cong) (auto simp: adj_of_def nth_append)
  with r' show ?thesis
    by (intro exI [of _ "?g\<lparr>mg_graph := r'\<rparr>"]) (simp add: morph_ingest_def ups(1) red Let_def del: upt_Suc One_nat_def)
qed

lemma morph_load_batches_ok:
  assumes rt: "galois_ok rt" and ok: "mo_ok gal nodes out"
  shows "batches_fit bs ss \<Longrightarrow> morph_holds gal nodes out (mg_vertices g) (mg_graph g) ss \<Longrightarrow>
    \<exists>g'. load_batches (morph_ops gal) rt bs g = Inr g' \<and>
      morph_holds gal nodes out (mg_vertices g') (mg_graph g') (fold apply_batch bs ss)"
proof (induction bs arbitrary: g ss)
  case Nil
  then show ?case by (simp add: load_batches_def)
next
  case (Cons es bs)
  then have es: "batch_ok es" by simp
  from morph_ingest_ok [OF rt ok es Cons.prems(2)] obtain g' where
    "morph_ingest gal rt es g = Inr g'"
    "morph_holds gal nodes out (mg_vertices g') (mg_graph g') (apply_batch es ss)" by blast
  with Cons.IH [of "apply_batch es ss" g'] Cons.prems(1) show ?case
    by (simp add: load_batches_def load_batch_def morph_ops_def morph_post_ingest_def)
qed

section \<open>Reading\<close>

lemma morph_read:
  assumes ok: "mo_ok gal nodes out"
    and holds: "morph_holds gal nodes out (mg_vertices g) (mg_graph g) ss"
  shows "morph_size gal g = length ss"
    and "u < length ss \<Longrightarrow> \<exists>ds. morph_for_each_edge gal g u = Inr ds \<and> distinct ds \<and> set ds = set (ss ! u) \<and>
      morph_get_out_degree gal g u = Inr (length ds)"
proof -
  let ?vs = "mg_vertices g" and ?r = "mg_graph g"
  note holds = morph_holdsD [OF holds]
  show "morph_size gal g = length ss"
    using holds(1-3) mo_okD(2) [OF ok, of ?r] by (metis morph_size_def distinct_card)
  assume u: "u < length ss"
  let ?o = "out ?r (?vs ! u)" and ?d = "mo_get_data gal ?r"
  have edges: "map (mo_get_edge_dst gal ?r) (mo_edges gal ?r (?vs ! u)) = ?o"
    by (rule mo_okD(3) [OF ok holds(5) [OF u]])
  have data: "?d (?vs ! v) = v" if "v \<in> set (ss ! u)" for v
    using closed_graphD [OF holds(4) u that] by (rule holds(6))
  have "inj_on ?d (set ?o)" unfolding holds(8) [OF u] by (rule inj_onI) (use data in auto)
  then have "distinct (map ?d ?o)" using holds(7) [OF u] by (simp add: distinct_map)
  moreover have "set (map ?d ?o) = set (ss ! u)" using data by (auto simp: holds(8) [OF u] image_image)
  moreover have "morph_for_each_edge gal g u = Inr (map ?d ?o)"
    using u holds(3) by (simp add: morph_for_each_edge_def edges [symmetric] comp_def)
  moreover have "morph_get_out_degree gal g u = Inr (length (map ?d ?o))"
    using u holds(3) by (simp add: morph_get_out_degree_def edges [symmetric])
  ultimately show "\<exists>ds. morph_for_each_edge gal g u = Inr ds \<and> distinct ds \<and> set ds = set (ss ! u) \<and>
      morph_get_out_degree gal g u = Inr (length ds)" by blast
qed

lemma morph_loaded:
  assumes rt: "galois_ok rt" and ok: "mo_ok gal nodes out" and fit: "batches_fit bs []"
  obtains m where "load_batches (morph_ops gal) rt bs (empty_morph gal) = Inr m"
    "morph_size gal m = length (fold apply_batch bs [])"
    "\<And>u. u < length (fold apply_batch bs []) \<Longrightarrow> \<exists>ds. morph_for_each_edge gal m u = Inr ds \<and> distinct ds \<and>
      set ds = set (fold apply_batch bs [] ! u) \<and> morph_get_out_degree gal m u = Inr (length ds)"
proof -
  have "morph_holds gal nodes out (mg_vertices (empty_morph gal)) (mg_graph (empty_morph gal)) []"
    using mo_okD(1) [OF ok] by (simp add: morph_holds_def empty_morph_def closed_graph_def)
  from morph_load_batches_ok [OF rt ok fit this] obtain m where
    "load_batches (morph_ops gal) rt bs (empty_morph gal) = Inr m"
    "morph_holds gal nodes out (mg_vertices m) (mg_graph m) (fold apply_batch bs [])" by blast
  then show thesis using that morph_read [OF ok] by blast
qed

text \<open>A graph that behaves as documented: the data of the nodes made, the nodes added, the edges.\<close>

definition node_graph :: "((nat \<Rightarrow> nat) \<times> nat list \<times> (nat \<Rightarrow> nat list), nat, nat option) morph_galois" where
  "node_graph = \<lparr>mo_empty = (\<lambda>_. 0, [], \<lambda>_. []), mo_size = (\<lambda>(ds, ns, es). length (remdups ns)),
     mo_create_node = (\<lambda>i (ds, ns, es). let n = Suc (fold max ns 0) in (n, ds(n := i), ns, es)),
     mo_add_node = (\<lambda>n (ds, ns, es). (ds, n # ns, es(n := []))),
     mo_add_edge = (\<lambda>a b (ds, ns, es). (ds, ns, if b \<in> set (es a) then es else es(a := es a @ [b]))),
     mo_edges = (\<lambda>(ds, ns, es) n. map Some (es n)), mo_get_edge_dst = (\<lambda>_ e. the e),
     mo_get_data = (\<lambda>(ds, ns, es) n. ds n),
     mo_sort_edges_by_dst = (\<lambda>n (ds, ns, es). (ds, ns, es(n := sort (es n)))),
     mo_find_edge_sorted = (\<lambda>(ds, ns, es) a b. if b \<in> set (es a) then Some b else None),
     mo_edge_end = (\<lambda>_ _. None)\<rparr>"

lemma node_graph_ok: "mo_ok node_graph (\<lambda>(ds, ns, es). set ns) (\<lambda>(ds, ns, es). es)"
proof -
  have "Suc (fold max ns 0) \<notin> set ns" for ns :: "nat list"
    using fold_max_ge [of _ ns 0] by fastforce
  then show ?thesis
    by (auto simp: mo_ok_def node_graph_def Let_def comp_def length_remdups_card_conv)
qed

end
