(* ===== verification/BenchMain.thy ===== *)
theory BenchMain
  imports Options LcCsrGraph LsCsrGraph MorphGraph TextDriver LargeDriver Bfs TriangleCount Pagerank Bc
    "HOL-Library.Log_Nat"
begin

text \<open>
  The \<open>main\<close> functions of microbench/edit\_scalability.cpp and edit\_scalability\_large.cpp: what
  they take from the command line, the graph and the algorithm they choose, and the loop of
  \<open>TextDriver\<close> or \<open>LargeDriver\<close> they run.
\<close>

section \<open>Options\<close>

text \<open>The values options have by default; 0.3 is the float nearest to it.\<close>

definition text_defaults :: variables where
  "text_defaults = [''ingest-threads'' \<mapsto> OptNum 1, ''algo-threads'' \<mapsto> OptNum 1,
     ''graph'' \<mapsto> OptText ''lscsr'', ''lscsr-compact-threshold'' \<mapsto> OptFloat (5033165 / 16777216),
     ''algo'' \<mapsto> OptText ''nop'', ''bc-rseed'' \<mapsto> OptNum 0, ''bc-num-src'' \<mapsto> OptNum 0]"

definition large_defaults :: variables where
  "large_defaults = [''graph'' \<mapsto> OptText ''lscsr'', ''algo'' \<mapsto> OptText ''nop'', ''startup'' \<mapsto> OptFloat 0,
     ''num-batches'' \<mapsto> OptNum 10, ''ingest-threads'' \<mapsto> OptNum 1, ''algo-threads'' \<mapsto> OptNum 1,
     ''lscsr-compact-threshold'' \<mapsto> OptFloat (1 / 2), ''bc-rseed'' \<mapsto> OptNum 0, ''bc-num-src'' \<mapsto> OptNum 0]"

section \<open>Graphs\<close>

text \<open>The Galois graphs the adapters stand on.\<close>

record ('r, 'e, 's, 'm, 'n, 'f) galois_graphs =
  lc_lib :: "('r, 'e) lc_csr_64"
  ls_lib :: "'s ls_lc_csr"
  mo_lib :: "('m, 'n, 'f) morph_galois"

datatype ('r, 's, 'm, 'n) any_graph =
    LsCsr "('s, rat) ls_csr" | LcCsr "'r lc_csr" | Csr csr_graph | Morph "('m, 'n) morph_graph"
  | Adj adj_graph

text \<open>A virtual call goes to the class of the object.\<close>

definition any_ops :: "('r, 'e, 's, 'm, 'n, 'f) galois_graphs \<Rightarrow> ('r, 's, 'm, 'n) any_graph graph_ops" where
  "any_ops libs = \<lparr>
     g_size = (\<lambda>g. case g of LsCsr x \<Rightarrow> g_size (ls_ops (ls_lib libs)) x
       | LcCsr x \<Rightarrow> g_size (lc_ops (lc_lib libs)) x
       | Csr x \<Rightarrow> g_size csr_ops x
       | Morph x \<Rightarrow> g_size (morph_ops (mo_lib libs)) x
       | Adj x \<Rightarrow> g_size adj_ops x),
     g_out_degree = (\<lambda>g u. case g of LsCsr x \<Rightarrow> g_out_degree (ls_ops (ls_lib libs)) x u
       | LcCsr x \<Rightarrow> g_out_degree (lc_ops (lc_lib libs)) x u
       | Csr x \<Rightarrow> g_out_degree csr_ops x u
       | Morph x \<Rightarrow> g_out_degree (morph_ops (mo_lib libs)) x u
       | Adj x \<Rightarrow> g_out_degree adj_ops x u),
     g_ingest = (\<lambda>rt es g. case g of LsCsr x \<Rightarrow> res_map LsCsr (g_ingest (ls_ops (ls_lib libs)) rt es x)
       | LcCsr x \<Rightarrow> res_map LcCsr (g_ingest (lc_ops (lc_lib libs)) rt es x)
       | Csr x \<Rightarrow> res_map Csr (g_ingest csr_ops rt es x)
       | Morph x \<Rightarrow> res_map Morph (g_ingest (morph_ops (mo_lib libs)) rt es x)
       | Adj x \<Rightarrow> res_map Adj (g_ingest adj_ops rt es x)),
     g_post_ingest = (\<lambda>rt g. case g of LsCsr x \<Rightarrow> res_map LsCsr (g_post_ingest (ls_ops (ls_lib libs)) rt x)
       | LcCsr x \<Rightarrow> res_map LcCsr (g_post_ingest (lc_ops (lc_lib libs)) rt x)
       | Csr x \<Rightarrow> res_map Csr (g_post_ingest csr_ops rt x)
       | Morph x \<Rightarrow> res_map Morph (g_post_ingest (morph_ops (mo_lib libs)) rt x)
       | Adj x \<Rightarrow> res_map Adj (g_post_ingest adj_ops rt x)),
     g_for_each_edge = (\<lambda>g u. case g of LsCsr x \<Rightarrow> g_for_each_edge (ls_ops (ls_lib libs)) x u
       | LcCsr x \<Rightarrow> g_for_each_edge (lc_ops (lc_lib libs)) x u
       | Csr x \<Rightarrow> g_for_each_edge csr_ops x u
       | Morph x \<Rightarrow> g_for_each_edge (morph_ops (mo_lib libs)) x u
       | Adj x \<Rightarrow> g_for_each_edge adj_ops x u),
     g_sort_edges = (\<lambda>u g. case g of LsCsr x \<Rightarrow> res_map LsCsr (g_sort_edges (ls_ops (ls_lib libs)) u x)
       | LcCsr x \<Rightarrow> res_map LcCsr (g_sort_edges (lc_ops (lc_lib libs)) u x)
       | Csr x \<Rightarrow> res_map Csr (g_sort_edges csr_ops u x)
       | Morph x \<Rightarrow> res_map Morph (g_sort_edges (morph_ops (mo_lib libs)) u x)
       | Adj x \<Rightarrow> res_map Adj (g_sort_edges adj_ops u x)),
     g_find_edge_sorted = (\<lambda>g u d. case g of LsCsr x \<Rightarrow> g_find_edge_sorted (ls_ops (ls_lib libs)) x u d
       | LcCsr x \<Rightarrow> g_find_edge_sorted (lc_ops (lc_lib libs)) x u d
       | Csr x \<Rightarrow> g_find_edge_sorted csr_ops x u d
       | Morph x \<Rightarrow> g_find_edge_sorted (morph_ops (mo_lib libs)) x u d
       | Adj x \<Rightarrow> g_find_edge_sorted adj_ops x u d)\<rparr>"

definition make_graph :: "('r, 'e, 's, 'm, 'n, 'f) galois_graphs \<Rightarrow> variables \<Rightarrow> string \<Rightarrow>
    ('r, 's, 'm, 'n) any_graph option res" where
  "make_graph libs vm graph_type =
     (if graph_type = ''lscsr'' then res_map (\<lambda>thresh. Some (LsCsr (new_ls_csr (ls_lib libs) thresh)))
        (as_float vm ''lscsr-compact-threshold'')
      else if graph_type = ''lccsr'' then Inr (Some (LcCsr empty_lc))
      else if graph_type = ''csr'' then Inr (Some (Csr empty_csr))
      else if graph_type = ''morph'' then Inr (Some (Morph (empty_morph (mo_lib libs))))
      else if graph_type = ''adj'' then Inr (Some (Adj empty_adj))
      else Inr None)"

section \<open>Algorithms\<close>

datatype algo = Nop | SSSP_BFS nat | TriangleCounting | PageRank | BetweennessCentrality nat nat

text \<open>\<open>operator()\<close>: the result is dropped; only triangle counting changes the graph.\<close>

definition run_algo :: "algo \<Rightarrow> 'g graph_ops \<Rightarrow> galois_rt \<Rightarrow> (nat \<Rightarrow> nat list \<Rightarrow> nat list) \<Rightarrow> 'g \<Rightarrow> 'g res" where
  "run_algo a ops rt shuffle g = (case a of
       Nop \<Rightarrow> Inr g
     | SSSP_BFS src \<Rightarrow> res_map (\<lambda>_. g) (res_bind (returns (bfs_compute ops rt g src)) (\<lambda>r. r))
     | TriangleCounting \<Rightarrow> res_map fst (tc_compute ops rt g)
     | PageRank \<Rightarrow> res_map (\<lambda>_. g) (pr_compute ops rt g :: (nat \<times> rat list) res)
     | BetweennessCentrality rseed num_src \<Rightarrow>
         res_map (\<lambda>_. g) (bc_compute ops rt shuffle g rseed num_src :: rat list res))"

text \<open>\<open>operator()\<close> with an output stream.\<close>

definition run_algo_output :: "algo \<Rightarrow> 'g graph_ops \<Rightarrow> galois_rt \<Rightarrow> (nat \<Rightarrow> nat list \<Rightarrow> nat list) \<Rightarrow> 'g \<Rightarrow>
    ('g \<times> string) res" where
  "run_algo_output a ops rt shuffle g = (case a of
       TriangleCounting \<Rightarrow> res_map (\<lambda>(g', answer). (g', ''Number of triangles: '' @ show_u64 answer @ [newline]))
         (tc_compute ops rt g)
     | _ \<Rightarrow> res_map (\<lambda>g'. (g', ''done'' @ [newline])) (run_algo a ops rt shuffle g))"

section \<open>edit\_scalability\<close>

text \<open>What main has chosen when it comes to the loop; before that it may return an exit code.\<close>

record 'g bench_setup =
  su_input :: string
  su_num_vertices :: nat
  su_graph :: 'g
  su_algo :: algo

definition make_algo :: "variables \<Rightarrow> string \<Rightarrow> algo option res" where
  "make_algo vm algo_name =
     (if algo_name = ''nop'' then Inr (Some Nop)
      else if algo_name = ''bfs'' then res_map (\<lambda>src. Some (SSSP_BFS src)) (as_num vm ''bfs-src'')
      else if algo_name = ''tc'' then Inr (Some TriangleCounting)
      else if algo_name = ''pr'' then Inr (Some PageRank)
      else if algo_name = ''bc''
      then res_bind (as_num vm ''bc-rseed'') (\<lambda>rseed. res_map (\<lambda>num_src.
        Some (BetweennessCentrality rseed num_src)) (as_num vm ''bc-num-src''))
      else Inr None)"

definition text_setup :: "('r, 'e, 's, 'm, 'n, 'f) galois_graphs \<Rightarrow> variables \<Rightarrow>
    (nat + ('r, 's, 'm, 'n) any_graph bench_setup) res" where
  "text_setup libs vm =
     (if vm ''help'' \<noteq> None then Inr (Inl 1)
      else res_bind (as_text vm ''input-file'') (\<lambda>input.
      res_bind (as_num vm ''ingest-threads'') (\<lambda>ingest_threads.
      res_bind (as_num vm ''algo-threads'') (\<lambda>algo_threads.
      res_bind (as_num vm ''num-vertices'') (\<lambda>num_vertices.
      res_bind (as_text vm ''graph'') (\<lambda>graph_type.
      res_bind (as_text vm ''algo'') (\<lambda>algo_name.
        if ingest_threads = 0 then Inr (Inl 1)
        else if algo_threads = 0 then Inr (Inl 1)
        else res_bind (make_graph libs vm graph_type) (\<lambda>graph.
          case graph of None \<Rightarrow> Inr (Inl 1)
          | Some g \<Rightarrow> res_map (\<lambda>algo. case algo of None \<Rightarrow> Inl 1
              | Some a \<Rightarrow> Inr \<lparr>su_input = input, su_num_vertices = num_vertices, su_graph = g, su_algo = a\<rparr>)
              (make_algo vm algo_name)))))))))"

text \<open>Opening a file: \<open>None\<close> is a file that cannot be opened.\<close>

definition open_input :: "(string \<Rightarrow> string option) \<Rightarrow> string \<Rightarrow> string \<Rightarrow> istream" where
  "open_input files stdin name =
     (if name = ''-'' then stream_of stdin
      else case files name of Some content \<Rightarrow> stream_of content
        | None \<Rightarrow> \<lparr>rest = [], eofbit = False, failbit = True\<rparr>)"

text \<open>The exit code, with the graph if the loop was entered. \<open>None\<close>: the loop does not end.\<close>

definition text_main :: "('r, 'e, 's, 'm, 'n, 'f) galois_graphs \<Rightarrow> galois_rt \<Rightarrow> (batch \<Rightarrow> batch) \<Rightarrow> bool \<Rightarrow>
    (nat \<Rightarrow> nat list \<Rightarrow> nat list) \<Rightarrow> (string \<Rightarrow> string option) \<Rightarrow> string \<Rightarrow> variables \<Rightarrow>
    (nat \<times> ('r, 's, 'm, 'n) any_graph option) res option" where
  "text_main libs rt h ndebug shuffle files stdin vm = (case text_setup libs vm of
       Inl e \<Rightarrow> Some (Inl e)
     | Inr (Inl code) \<Rightarrow> Some (Inr (code, None))
     | Inr (Inr s) \<Rightarrow> map_option (res_map (\<lambda>(batch, g). (0, Some g)))
         (drive (any_ops libs) (\<lambda>batch. run_algo (su_algo s) (any_ops libs) rt shuffle) rt h ndebug
            (su_num_vertices s) (open_input files stdin (su_input s)) 0 (su_graph s)))"

section \<open>edit\_scalability\_large\<close>

text \<open>The binary edge list: 16 bytes per edge, both numbers with the least byte first.\<close>

fun le_value :: "nat list \<Rightarrow> nat" where
  "le_value [] = 0"
| "le_value (b # bs) = b + 256 * le_value bs"

fun decode_edges :: "nat list \<Rightarrow> edge list" where
  "decode_edges bs = (if length bs < 16 then []
     else (le_value (take 8 bs), le_value (take 8 (drop 8 bs))) # decode_edges (drop 16 bs))"

declare decode_edges.simps [simp del]

definition count_file_edges :: "nat list \<Rightarrow> nat res" where
  "count_file_edges bs = (let num_edges = length bs div 16
     in if num_edges * 16 = length bs then Inr num_edges else Inl AssertFailed)"

text \<open>
  \<open>num_edges * pre_ingest\<close> in single precision: the count is rounded to 24 binary digits (to the
  nearest, ties to even), and \<open>fround\<close> is the rounding of the product.
\<close>

definition round_off :: "nat \<Rightarrow> nat \<Rightarrow> nat" where
  "round_off k n = (let q = n div 2 ^ k; r = n mod 2 ^ k
     in (if 2 * r > 2 ^ k \<or> 2 * r = 2 ^ k \<and> odd q then q + 1 else q) * 2 ^ k)"

definition float_of_u64 :: "nat \<Rightarrow> nat" where
  "float_of_u64 n = round_off (floorlog 2 n - 24) n"

definition edges_to_pre_ingest :: "(rat \<Rightarrow> rat) \<Rightarrow> nat \<Rightarrow> rat \<Rightarrow> nat" where
  "edges_to_pre_ingest fround num_edges pre_ingest =
     nat \<lfloor>fround (of_nat (float_of_u64 num_edges) * pre_ingest)\<rfloor>"

definition large_make_algo :: "variables \<Rightarrow> string \<Rightarrow> algo option res" where
  "large_make_algo vm algo_name =
     (if algo_name = ''nop'' then Inr (Some Nop)
      else if algo_name = ''bfs''
      then if vm ''bfs-src'' = None then Inr None
           else res_map (\<lambda>src. Some (SSSP_BFS src)) (as_num vm ''bfs-src'')
      else if algo_name = ''tc'' then Inr (Some TriangleCounting)
      else if algo_name = ''pr'' then Inr (Some PageRank)
      else if algo_name = ''bc''
      then res_bind (as_num vm ''bc-rseed'') (\<lambda>rseed. res_map (\<lambda>num_src.
        Some (BetweennessCentrality rseed num_src)) (as_num vm ''bc-num-src''))
      else Inr None)"

text \<open>The graph, the algorithm and its name, and the startup fraction.\<close>

definition large_setup :: "('r, 'e, 's, 'm, 'n, 'f) galois_graphs \<Rightarrow> variables \<Rightarrow>
    (nat + ('r, 's, 'm, 'n) any_graph \<times> algo \<times> string \<times> rat) res" where
  "large_setup libs vm =
     (if vm ''help'' \<noteq> None then Inr (Inl 1)
      else res_bind (as_num vm ''ingest-threads'') (\<lambda>ingest_threads.
      res_bind (as_num vm ''algo-threads'') (\<lambda>algo_threads.
      res_bind (as_float vm ''startup'') (\<lambda>pre_ingest.
        if \<not> (0 \<le> pre_ingest \<and> pre_ingest \<le> 1) then Inl AssertFailed
        else res_bind (as_text vm ''graph'') (\<lambda>graph_type.
          res_bind (make_graph libs vm graph_type) (\<lambda>graph. case graph of None \<Rightarrow> Inr (Inl 1)
          | Some g \<Rightarrow> res_bind (as_text vm ''algo'') (\<lambda>algo_name.
              res_map (\<lambda>algo. case algo of None \<Rightarrow> Inl 1 | Some a \<Rightarrow> Inr (g, a, algo_name, pre_ingest))
                (large_make_algo vm algo_name))))))))"

text \<open>The output file is a string next to the graph.\<close>

definition with_output :: "'g graph_ops \<Rightarrow> ('g \<times> string) graph_ops" where
  "with_output ops = \<lparr>g_size = (\<lambda>(g, out). g_size ops g), g_out_degree = (\<lambda>(g, out). g_out_degree ops g),
     g_ingest = (\<lambda>rt es (g, out). res_map (\<lambda>g'. (g', out)) (g_ingest ops rt es g)),
     g_post_ingest = (\<lambda>rt (g, out). res_map (\<lambda>g'. (g', out)) (g_post_ingest ops rt g)),
     g_for_each_edge = (\<lambda>(g, out). g_for_each_edge ops g),
     g_sort_edges = (\<lambda>u (g, out). res_map (\<lambda>g'. (g', out)) (g_sort_edges ops u g)),
     g_find_edge_sorted = (\<lambda>(g, out). g_find_edge_sorted ops g)\<rparr>"

definition round_header :: "string \<Rightarrow> nat \<Rightarrow> string" where
  "round_header algo_name batch_number =
     ''==== running '' @ algo_name @ '' after batch '' @ show_u64 batch_number @ '' ==== '' @ [newline]"

definition large_algo :: "algo \<Rightarrow> string \<Rightarrow> bool \<Rightarrow> 'g graph_ops \<Rightarrow> galois_rt \<Rightarrow>
    (nat \<Rightarrow> nat list \<Rightarrow> nat list) \<Rightarrow> nat \<Rightarrow> 'g \<times> string \<Rightarrow> ('g \<times> string) res" where
  "large_algo a algo_name is_open ops rt shuffle batch_number st = (case st of (g, out) \<Rightarrow>
     if is_open
     then res_map (\<lambda>(g', text). (g', out @ round_header algo_name batch_number @ text))
            (run_algo_output a ops rt shuffle g)
     else res_map (\<lambda>g'. (g', out)) (run_algo a ops rt shuffle g))"

text \<open>
  \<open>parsed\<close> is \<open>None\<close> if Boost rejects the command line. A file that cannot be mapped makes Boost
  throw. The result is the exit code, with the graph and the output if the loop was run.
\<close>

definition large_suite :: "('r, 'e, 's, 'm, 'n, 'f) galois_graphs \<Rightarrow> galois_rt \<Rightarrow> (batch \<Rightarrow> batch) \<Rightarrow>
    (nat \<Rightarrow> nat list \<Rightarrow> nat list) \<Rightarrow> (rat \<Rightarrow> rat) \<Rightarrow> (string \<Rightarrow> nat list option) \<Rightarrow> (string \<Rightarrow> bool) \<Rightarrow>
    variables option \<Rightarrow> (nat \<times> (('r, 's, 'm, 'n) any_graph \<times> string) option) res" where
  "large_suite libs rt h shuffle fround files can_write parsed = (case parsed of None \<Rightarrow> Inr (1, None)
     | Some vm \<Rightarrow> res_bind (large_setup libs vm) (\<lambda>s. case s of Inl code \<Rightarrow> Inr (code, None)
       | Inr (g, a, algo_name, pre_ingest) \<Rightarrow>
         res_bind (as_text vm ''file'') (\<lambda>input_file. case files input_file of None \<Rightarrow> Inl CannotMap
           | Some bytes \<Rightarrow> res_bind (count_file_edges bytes) (\<lambda>num_edges.
         res_bind (case vm ''algo-output-file'' of None \<Rightarrow> Inr False
             | Some _ \<Rightarrow> res_map can_write (as_text vm ''algo-output-file'')) (\<lambda>is_open.
         res_bind (as_num vm ''num-batches'') (\<lambda>num_batches.
         res_map (\<lambda>st. (0, Some st))
           (large_main (with_output (any_ops libs)) (large_algo a algo_name is_open (any_ops libs) rt shuffle)
              rt h (decode_edges bytes) (edges_to_pre_ingest fround num_edges pre_ingest) num_batches
              (g, []))))))))"

end
