(* ===== verification/BenchRun.thy ===== *)
theory BenchRun
  imports BenchMain
begin

text \<open>
  What a run of the driver for large graphs writes: virtual calls keep the contract of the
  class they go to, an output file next to the graph keeps it too, and triangles are counted
  over the edges that have been loaded.
\<close>

section \<open>Virtual calls\<close>

text \<open>\<open>C\<close> makes an object of the class \<open>ops\<close> one of the hierarchy \<open>ops'\<close>, \<open>D\<close> takes it back.\<close>

definition dispatches :: "'g graph_ops \<Rightarrow> 'h graph_ops \<Rightarrow> ('g \<Rightarrow> 'h) \<Rightarrow> ('h \<Rightarrow> 'g) \<Rightarrow> bool" where
  "dispatches ops ops' C D \<longleftrightarrow> (\<forall>x. D (C x) = x \<and> g_size ops' (C x) = g_size ops x \<and>
     g_out_degree ops' (C x) = g_out_degree ops x \<and> g_for_each_edge ops' (C x) = g_for_each_edge ops x \<and>
     g_find_edge_sorted ops' (C x) = g_find_edge_sorted ops x \<and>
     (\<forall>rt es. g_ingest ops' rt es (C x) = res_map C (g_ingest ops rt es x)) \<and>
     (\<forall>rt. g_post_ingest ops' rt (C x) = res_map C (g_post_ingest ops rt x)) \<and>
     (\<forall>u. g_sort_edges ops' u (C x) = res_map C (g_sort_edges ops u x)))"

definition made_by :: "('g \<Rightarrow> 'h) \<Rightarrow> ('h \<Rightarrow> 'g) \<Rightarrow> ('g \<Rightarrow> bool) \<Rightarrow> 'h \<Rightarrow> bool" where
  "made_by C D ginv h \<longleftrightarrow> h = C (D h) \<and> ginv (D h)"

lemma made_byE: "made_by C D ginv h \<Longrightarrow> (\<And>x. h = C x \<Longrightarrow> ginv x \<Longrightarrow> thesis) \<Longrightarrow> thesis"
  by (auto simp: made_by_def)

lemma made_byI: "dispatches ops ops' C D \<Longrightarrow> ginv x \<Longrightarrow> made_by C D ginv (C x)"
  by (simp add: made_by_def dispatches_def)

context graph_reading
begin

lemma dispatched_reading:
  assumes d: "dispatches ops ops' C D"
  shows "graph_reading ops' (made_by C D ginv) (\<lambda>h. succs (D h))"
  by unfold_locales
    (use d size_law degree_law edges_law closed_law in \<open>auto simp: dispatches_def elim!: made_byE\<close>)

end

context graph_updating
begin

lemma dispatched_updating:
  assumes d: "dispatches ops ops' C D"
  shows "graph_updating ops' (made_by C D ginv) (\<lambda>h. succs (D h))"
proof (intro graph_updating.intro graph_updating_axioms.intro dispatched_reading [OF d])
  fix rt h es
  assume rt: "galois_ok rt" and h: "made_by C D ginv h" and es: "batch_ok es"
    and fits: "edge_total (apply_batch es (succs (D h))) \<le> u64_max"
  obtain x where x: "h = C x" "ginv x" using h by (rule made_byE)
  have D: "D (C y) = y" for y using d by (simp add: dispatches_def)
  obtain g' g'' where run: "g_ingest ops rt es x = Inr g'" "g_post_ingest ops rt g' = Inr g''"
    "ginv g''" "succs g'' = apply_batch es (succs x)"
    using batch_law [OF rt x(2) es] fits by (auto simp: x(1) D)
  then have "g_ingest ops' rt es h = Inr (C g')" "g_post_ingest ops' rt (C g') = Inr (C g'')"
    using d by (simp_all add: dispatches_def x(1))
  with run show "\<exists>g' g''. g_ingest ops' rt es h = Inr g' \<and> g_post_ingest ops' rt g' = Inr g'' \<and>
      made_by C D ginv g'' \<and> succs (D g'') = apply_batch es (succs (D h))"
    by (auto simp: x(1) D made_by_def)
qed

end

context graph_sorting
begin

lemma dispatched_sorting:
  assumes d: "dispatches ops ops' C D"
  shows "graph_sorting ops' (made_by C D ginv) (\<lambda>h. succs (D h))"
proof (intro graph_sorting.intro graph_sorting_axioms.intro dispatched_reading [OF d])
  have D: "D (C y) = y" for y using d by (simp add: dispatches_def)
  fix h u k
  assume h: "made_by C D ginv h" and u: "u < length (succs (D h))"
  obtain x where x: "h = C x" "ginv x" using h by (rule made_byE)
  obtain g' where "g_sort_edges ops u x = Inr g'" "ginv g'" "succs g' = (succs x)[u := sort (succs x ! u)]"
    using sort_law [OF x(2)] u by (auto simp: x(1) D)
  then show "\<exists>g'. g_sort_edges ops' u h = Inr g' \<and> made_by C D ginv g' \<and>
      succs (D g') = (succs (D h))[u := sort (succs (D h) ! u)]"
    using d by (auto simp: dispatches_def x(1) made_by_def)
  show "sorted (succs (D h) ! u) \<Longrightarrow> g_find_edge_sorted ops' h u k = Inr (k \<in> set (succs (D h) ! u))"
    using find_law [OF x(2)] u d by (simp add: dispatches_def x(1))
qed

end

section \<open>An output file\<close>

context graph_updating
begin

lemma output_updating: "graph_updating (with_output ops) (\<lambda>st. ginv (fst st)) (\<lambda>st. succs (fst st))"
proof
  fix rt es and st :: "'a \<times> string"
  assume "galois_ok rt" "ginv (fst st)" "batch_ok es" "edge_total (apply_batch es (succs (fst st))) \<le> u64_max"
  from batch_law [OF this] show "\<exists>g' g''. g_ingest (with_output ops) rt es st = Inr g' \<and>
      g_post_ingest (with_output ops) rt g' = Inr g'' \<and> ginv (fst g'') \<and>
      succs (fst g'') = apply_batch es (succs (fst st))"
    by (cases st) (auto simp: with_output_def)
qed (auto simp: with_output_def size_law degree_law edges_law closed_law)

end

lemma output_kept:
  "load_batch (with_output ops) rt es st = Inr st' \<Longrightarrow> snd st' = snd st"
  by (cases st) (auto simp: load_batch_def with_output_def res_bind_Inr_iff res_map_Inr_iff)

section \<open>Triangles over edges\<close>

text \<open>
  Pairs of an edge from a to b and one from b to c, a < b < c, with an edge from a to c: each
  pair counts, so parallel edges count as often as they occur.
\<close>

definition edge_triangles :: "edge multiset \<Rightarrow> nat" where
  "edge_triangles M = (\<Sum>(a, b)\<in>#M. if a < b
     then size (filter_mset (\<lambda>(c, d). c = b \<and> b < d \<and> (a, d) \<in># M) M) else 0)"

lemma edge_list_in: "(a, d) \<in> set (edge_list ss) \<longleftrightarrow> a < length ss \<and> d \<in> set (ss ! a)"
  by (auto simp: edge_list_def)

lemma edge_list_from:
  assumes "b < length ss"
  shows "length (filter (\<lambda>(c, d). c = b \<and> P d) (edge_list ss)) = length (filter P (ss ! b))"
proof -
  have row: "length (filter (\<lambda>(c, d). c = b \<and> P d) (map (Pair u) ds)) =
      (if u = b then length (filter P ds) else 0)" for u ds
    by (induction ds) auto
  have "length (filter (\<lambda>(c, d). c = b \<and> P d) (edge_list ss)) =
      (\<Sum>u\<leftarrow>[0..<length ss]. if u = b then length (filter P (ss ! u)) else 0)"
    by (simp only: edge_list_def filter_concat length_concat map_map comp_def row)
  also have "\<dots> = (\<Sum>u\<in>{0..<length ss}. if u = b then length (filter P (ss ! u)) else 0)"
    by (simp add: interv_sum_list_conv_sum_set_nat)
  also have "\<dots> = length (filter P (ss ! b))" using assms by simp
  finally show ?thesis .
qed

lemma sum_list_concat_rows: "sum_list (concat rows) = sum_list (map sum_list rows)"
  by (induction rows) simp_all

lemma tri_total_edges:
  assumes closed: "closed_graph ss"
  shows "tri_total ss = edge_triangles (mset (edge_list ss))"
proof -
  let ?t = "\<lambda>(a, b). if a < b then length (filter (\<lambda>(c, d). c = b \<and> b < d \<and> (a, d) \<in> set (edge_list ss))
      (edge_list ss)) else 0"
  have edge: "tri_edge ss a b = ?t (a, b)" if "a < length ss" "b \<in> set (ss ! a)" for a b
    using that closed_graphD [OF closed that]
    by (simp add: tri_edge_def edge_list_in edge_list_from [of b ss "\<lambda>d. b < d \<and> d \<in> set (ss ! a)"])
  have "tri_total ss = (\<Sum>a\<leftarrow>[0..<length ss]. \<Sum>b\<leftarrow>ss ! a. ?t (a, b))"
    unfolding tri_total_def tri_vertex_def
    by (intro arg_cong [of _ _ sum_list] map_cong refl edge) auto
  also have "\<dots> = sum_list (map ?t (edge_list ss))"
    by (simp add: edge_list_def map_concat comp_def sum_list_concat_rows)
  also have "\<dots> = edge_triangles (mset (edge_list ss))"
    unfolding edge_triangles_def sum_mset_sum_list [symmetric] mset_map mset_filter [symmetric] size_mset set_mset_mset ..
  finally show ?thesis .
qed

lemma edges_map_sort: "mset (edge_list (map sort ss)) = mset (edge_list ss)"
proof -
  have "(\<Sum>u<length ss. mset (map (Pair u) (map sort ss ! u))) = (\<Sum>u<length ss. mset (map (Pair u) (ss ! u)))"
    by (intro sum.cong refl) simp
  then show ?thesis by (simp only: edge_list_def mset_concat_upt length_map)
qed

section \<open>Triangle counting with an output file\<close>

definition as_adj :: "('r, 's, 'm, 'n) any_graph \<Rightarrow> adj_graph" where
  "as_adj g = (case g of Adj x \<Rightarrow> x | _ \<Rightarrow> empty_adj)"

lemma dispatches_adj: "dispatches adj_ops (any_ops libs) Adj as_adj"
  by (simp add: dispatches_def any_ops_def as_adj_def fun_eq_iff)

definition any_adj_inv :: "('r, 's, 'm, 'n) any_graph \<Rightarrow> bool" where
  "any_adj_inv = made_by Adj as_adj adj_inv"

lemmas any_adj_updating = adjr.dispatched_updating [OF dispatches_adj, folded any_adj_inv_def]
  and any_adj_sorting = adjs.dispatched_sorting [OF dispatches_adj, folded any_adj_inv_def]

definition triangle_report :: "nat \<Rightarrow> edge multiset \<Rightarrow> string" where
  "triangle_report i M = round_header ''tc'' i @ ''Number of triangles: '' @
     show_u64 (edge_triangles M mod 2 ^ 64) @ [newline]"

lemma tc_reports:
  assumes rt: "galois_ok rt" and g: "any_adj_inv (fst st)"
  shows "\<exists>st'. large_algo TriangleCounting ''tc'' True (any_ops libs) rt shuffle i st = Inr st' \<and>
    any_adj_inv (fst st') \<and> mset (edge_list (m_edges (as_adj (fst st')))) = mset (edge_list (m_edges (as_adj (fst st)))) \<and>
    snd st' = snd st @ triangle_report i (mset (edge_list (m_edges (as_adj (fst st)))))"
proof -
  obtain g' where tc: "tc_compute (any_ops libs) rt (fst st) = Inr (g', tri_total (m_edges (as_adj (fst st))) mod 2 ^ 64)"
    "any_adj_inv g'" "m_edges (as_adj g') = map sort (m_edges (as_adj (fst st)))"
    using graph_sorting.tc_compute_total [OF any_adj_sorting rt g] by blast
  have "closed_graph (m_edges (as_adj (fst st)))"
    using graph_reading.closed_law [OF graph_sorting.axioms(1) [OF any_adj_sorting] g] .
  note triangles = tri_total_edges [OF this]
  show ?thesis
    by (cases st) (use tc triangles edges_map_sort in
        \<open>auto simp: large_algo_def run_algo_output_def triangle_report_def\<close>)
qed

section \<open>The startup load\<close>

text \<open>What IEEE 754 says of the rounding of a product: it is monotone and keeps what a float can hold.\<close>

definition float_rounding_ok :: "(rat \<Rightarrow> rat) \<Rightarrow> bool" where
  "float_rounding_ok fround \<longleftrightarrow> (\<forall>x y. x \<le> y \<longrightarrow> fround x \<le> fround y) \<and>
     (\<forall>n. fround (of_nat (float_of_u64 n)) = of_nat (float_of_u64 n))"

lemma float_of_small: "n < 2 ^ 24 \<Longrightarrow> float_of_u64 n = n"
proof -
  assume "n < 2 ^ 24"
  then have "floorlog 2 n - 24 = 0" by (simp add: floorlog_le_iff)
  then show ?thesis by (simp add: float_of_u64_def round_off_def Let_def)
qed

lemma pre_ingest_whole:
  "float_rounding_ok fround \<Longrightarrow> edges_to_pre_ingest fround n 1 = float_of_u64 n"
  by (simp add: edges_to_pre_ingest_def float_rounding_ok_def)

lemma pre_ingest_le:
  assumes "float_rounding_ok fround" "n < 2 ^ 24" "s \<le> 1"
  shows "edges_to_pre_ingest fround n s \<le> n"
proof -
  have "of_nat (float_of_u64 n) * s \<le> of_nat (float_of_u64 n)" using assms(3) by (simp add: mult_left_le)
  then have "fround (of_nat (float_of_u64 n) * s) \<le> of_nat (float_of_u64 n)"
    using assms(1) unfolding float_rounding_ok_def by metis
  then show ?thesis
    using float_of_small [OF assms(2)] by (simp add: edges_to_pre_ingest_def) linarith
qed

lemma length_decode_edges: "length (decode_edges bs) = length bs div 16"
proof (induction bs rule: decode_edges.induct)
  case (1 bs)
  show ?case
  proof (cases "length bs < 16")
    case False
    then have "length (decode_edges bs) = Suc ((length bs - 16) div 16)"
      using 1 by (subst decode_edges.simps) simp
    then show ?thesis using False by (simp add: le_div_geq not_less)
  qed (subst decode_edges.simps, simp)
qed

end
