(* ===== verification/BenchProperties.thy ===== *)
theory BenchProperties
  imports BenchRun GraphProperties
begin

text \<open>
  The properties of the benchmark programs as a whole: the five representations hold the same
  graph, what a run with triangle counting writes, and where the startup load goes wrong.
\<close>

section \<open>The five representations\<close>


definition parallel_batches :: "batch list" where
  "parallel_batches = [[(0, [1, 1])], [(2, [0]), (0, [1])]]"


section \<open>A run with triangle counting\<close>

definition triangle_options :: "string \<Rightarrow> rat \<Rightarrow> nat \<Rightarrow> string \<Rightarrow> variables" where
  "triangle_options name startup num_batches out_file = large_defaults(''file'' \<mapsto> OptText name,
     ''graph'' \<mapsto> OptText ''adj'', ''algo'' \<mapsto> OptText ''tc'', ''startup'' \<mapsto> OptFloat startup,
     ''num-batches'' \<mapsto> OptNum num_batches, ''algo-output-file'' \<mapsto> OptText out_file)"

lemma triangle_setup:
  assumes "0 \<le> startup" "startup \<le> 1"
  shows "large_setup libs (triangle_options name startup nb output) =
    Inr (Inr (Adj empty_adj, TriangleCounting, ''tc'', startup))"
  using assms by (simp add: large_setup_def triangle_options_def large_defaults_def as_num_def as_text_def
      as_float_def make_graph_def large_make_algo_def)

text \<open>
  C15: With triangle counting on \<open>AdjGraph\<close> and an output file, the driver for large graphs
  exits with 0 and its output file holds, for every batch in order, the header of the round
  and the number of triangles of the edges loaded up to then: of the startup load and the
  batches so far, whatever the order of the parallel loops and of the hash maps. (For files of fewer
  than 2^24 edges, where the single precision product of the startup load cannot be off.)
\<close>

theorem suite_reports_triangles:
  fixes libs :: "('r, 'e, 's, 'm, 'n, 'f) galois_graphs"
  assumes rt: "galois_ok rt" and h: "map_order_ok h" and fround: "float_rounding_ok fround"
    and input: "files name = Some bytes" "length bytes = 16 * n" "n < 2 ^ 24" "ids_ok (decode_edges bytes)"
    and opts: "0 \<le> startup" "startup \<le> 1" "0 < num_batches" "n + num_batches \<le> u64_max" "can_write out_file"
  shows "\<exists>g. large_suite libs rt h shuffle fround files can_write
      (Some (triangle_options name startup num_batches out_file)) = Inr (0, Some (g,
        concat (map (\<lambda>i. round_header ''tc'' i @ ''Number of triangles: '' @ show_u64 (edge_triangles (mset
            (loaded_by (decode_edges bytes) (edges_to_pre_ingest fround n startup) num_batches (Suc i)))
            mod 2 ^ 64) @ [newline]) [0..<num_batches])))"
proof -
  let ?edges = "decode_edges bytes" and ?pre = "edges_to_pre_ingest fround n startup"
  let ?inv = "\<lambda>st :: ('r, 's, 'm, 'n) any_graph \<times> string. any_adj_inv (fst st)"
  let ?succs = "\<lambda>st :: ('r, 's, 'm, 'n) any_graph \<times> string. m_edges (as_adj (fst st))"
  let ?algo = "large_algo TriangleCounting ''tc'' True (any_ops libs) rt shuffle"
  have len: "length ?edges = n" "count_file_edges bytes = Inr n"
    using input(2) by (simp_all add: length_decode_edges count_file_edges_def)
  have start: "?inv (Adj empty_adj, [])" "edge_list (?succs (Adj empty_adj, [])) = []"
    by (simp_all add: any_adj_inv_def made_by_def as_adj_def empty_adj_def adj_inv_def closed_graph_def edge_list_def)
  have upd: "graph_updating (with_output (any_ops libs)) ?inv ?succs"
    by (rule graph_updating.output_updating [OF any_adj_updating])
  have "?pre \<le> length ?edges" unfolding len by (rule pre_ingest_le [OF fround input(3) opts(2)])
  from graph_updating.large_main_logs [where log = snd and msg = triangle_report, OF upd rt h start(1) input(4) this opts(3)
      _ _ output_kept tc_reports [OF rt]] opts(4) start(2)
  obtain g where "large_main (with_output (any_ops libs)) ?algo rt h ?edges ?pre num_batches (Adj empty_adj, []) =
      Inr (g, concat (map (\<lambda>i. triangle_report i (mset (loaded_by ?edges ?pre num_batches (Suc i)))) [0..<num_batches]))"
    by (fastforce simp: len)
  moreover have "as_text (triangle_options name startup num_batches out_file) ''file'' = Inr name"
    "as_num (triangle_options name startup num_batches out_file) ''num-batches'' = Inr num_batches"
    "triangle_options name startup num_batches out_file ''algo-output-file'' = Some (OptText out_file)"
    "as_text (triangle_options name startup num_batches out_file) ''algo-output-file'' = Inr out_file"
    by (simp_all add: triangle_options_def as_text_def as_num_def)
  ultimately show ?thesis
    using input(1) len(2) opts(5)
    by (simp add: large_suite_def triangle_setup [OF opts(1,2)] triangle_report_def)
qed

definition edge_bytes :: "nat \<Rightarrow> nat \<Rightarrow> nat list" where
  "edge_bytes a b = a # replicate 7 0 @ b # replicate 7 0"

definition triangle_bytes :: "nat list" where
  "triangle_bytes = edge_bytes 0 1 @ edge_bytes 1 2 @ edge_bytes 0 2"

definition row_graphs ::
  "(nat list list, nat \<times> nat, nat list list \<times> nat, (nat \<Rightarrow> nat) \<times> nat list \<times> (nat \<Rightarrow> nat list), nat,
    nat option) galois_graphs" where
  "row_graphs = \<lparr>lc_lib = row_graph, ls_lib = logged_graph, mo_lib = node_graph\<rparr>"

lemma float_rounding_exact: "float_rounding_ok (\<lambda>x. x)"
  by (simp add: float_rounding_ok_def)

theorem suite_reports_triangles_witness:
  "\<exists>g. large_suite row_graphs backward_rt rev (\<lambda>_ xs. xs) (\<lambda>x. x) [''g.bel'' \<mapsto> triangle_bytes] (\<lambda>_. True)
      (Some (triangle_options ''g.bel'' 0 2 ''out'')) = Inr (0, Some (g,
        ''==== running tc after batch 0 ==== '' @ [newline] @ ''Number of triangles: 0'' @ [newline] @
        ''==== running tc after batch 1 ==== '' @ [newline] @ ''Number of triangles: 1'' @ [newline]))"
proof -
  have bytes: "decode_edges triangle_bytes = [(0, 1), (1, 2), (0, 2)]" by code_simp
  then have ids: "ids_ok (decode_edges triangle_bytes)" by (simp add: ids_ok_def u64_max_def)
  have input: "[''g.bel'' \<mapsto> triangle_bytes] ''g.bel'' = Some triangle_bytes" "length triangle_bytes = 16 * 3"
    "(3 :: nat) < 2 ^ 24" by (simp_all add: triangle_bytes_def edge_bytes_def)
  have opts: "0 \<le> (0 :: rat)" "(0 :: rat) \<le> 1" "(0 :: nat) < 2" "3 + 2 \<le> u64_max" "True"
    by (simp_all add: u64_max_def)
  have pre: "edges_to_pre_ingest (\<lambda>x. x) 3 0 = 0" by (simp add: edges_to_pre_ingest_def)
  have loaded: "loaded_by [(0, 1), (1, 2), (0, 2)] 0 2 (Suc 0) = [(0, 1), (1, 2)]"
    "loaded_by [(0, 1), (1, 2), (0, 2)] 0 2 (Suc (Suc 0)) = [(0, 1), (1, 2), (0, 2)]"
    by (simp_all add: loaded_by_def split_at_def)
  have triangles: "edge_triangles (mset [(0, 1), (1, 2)]) = 0" "edge_triangles (mset [(0, 1), (1, 2), (0, 2)]) = 1"
    by (simp_all add: edge_triangles_def)
  have shown: "show_u64 0 = ''0''" "show_u64 1 = ''1''" by code_simp+
  have two: "[0..<2] = [0, Suc 0]" by (simp add: upt_rec)
  let ?t = "\<lambda>i. edge_triangles (mset (loaded_by (decode_edges triangle_bytes)
      (edges_to_pre_ingest (\<lambda>x. x) 3 0) 2 (Suc i))) mod 2 ^ 64"
  have counts: "?t 0 = 0" "?t (Suc 0) = 1"
    unfolding bytes pre loaded triangles by simp_all
  have report: "concat (map (\<lambda>i. round_header ''tc'' i @ ''Number of triangles: '' @ show_u64 (?t i) @ [newline])
      [0..<2]) = round_header ''tc'' 0 @ ''Number of triangles: '' @ ''0'' @ [newline] @
      round_header ''tc'' 1 @ ''Number of triangles: '' @ ''1'' @ [newline]"
    unfolding two list.map counts shown concat.simps by simp
  have header: "round_header ''tc'' 0 = ''==== running tc after batch 0 ==== '' @ [newline]"
    "round_header ''tc'' 1 = ''==== running tc after batch 1 ==== '' @ [newline]"
    unfolding round_header_def shown by simp_all
  from suite_reports_triangles [where libs = row_graphs and shuffle = "\<lambda>_ xs. xs" and can_write = "\<lambda>_. True"
      and out_file = "''out''" and files = "[''g.bel'' \<mapsto> triangle_bytes]" and name = "''g.bel''",
      OF galois_ok_backward map_order_ok_id(2) float_rounding_exact input ids opts]
  show ?thesis unfolding report header by simp
qed

section \<open>The startup load\<close>

text \<open>
  C36: With the whole file as startup load, a file whose number of edges is rounded up in
  single precision is read past its end: for 2^24 + 3 edges the product is one edge more
  than there are. (edit\_scalability\_large.cpp multiplies the count by a float.)
\<close>

theorem startup_reads_past_end:
  fixes libs :: "('r, 'e, 's, 'm, 'n, 'f) galois_graphs"
  assumes "float_rounding_ok fround" and "files name = Some bytes" "length bytes = 16 * n"
    and "n < float_of_u64 n"
  shows "large_suite libs rt h shuffle fround files can_write
      (Some (large_defaults(''file'' \<mapsto> OptText name, ''startup'' \<mapsto> OptFloat 1))) = Inl OutOfRange"
proof -
  let ?vm = "large_defaults(''file'' \<mapsto> OptText name, ''startup'' \<mapsto> OptFloat 1)"
  have vm: "as_text ?vm ''file'' = Inr name" "as_num ?vm ''num-batches'' = Inr 10" "large_defaults ''algo-output-file'' = None"
    "large_setup libs ?vm = Inr (Inr (LsCsr (new_ls_csr (ls_lib libs) (1 / 2)), Nop, ''nop'', 1))"
    by (simp_all add: large_setup_def large_defaults_def as_num_def as_text_def as_float_def make_graph_def
        large_make_algo_def)
  have edges: "count_file_edges bytes = Inr n" "length (decode_edges bytes) = n"
    using assms(3) by (simp_all add: count_file_edges_def length_decode_edges)
  have pre: "edges_to_pre_ingest fround n 1 = float_of_u64 n" by (rule pre_ingest_whole [OF assms(1)])
  have past: "prepare_batch rt h (decode_edges bytes) 0 (float_of_u64 n) = Inl OutOfRange"
    using assms(4) by (simp add: prepare_batch_def edges)
  show ?thesis
    using assms(4) by (simp add: large_suite_def vm assms(2) edges(1) pre large_main_def past)
qed

theorem startup_reads_past_end_witness:
  "large_suite row_graphs serial_rt rev (\<lambda>_ xs. xs) (\<lambda>x. x)
      [''g.bel'' \<mapsto> replicate 268435504 0] (\<lambda>_. True)
      (Some (large_defaults(''file'' \<mapsto> OptText ''g.bel'', ''startup'' \<mapsto> OptFloat 1))) = Inl OutOfRange"
proof (rule startup_reads_past_end [OF float_rounding_exact])
  show "[''g.bel'' \<mapsto> replicate 268435504 0] ''g.bel'' = Some (replicate 268435504 0)" by simp
  show "length (replicate 268435504 0) = 16 * 16777219" by simp
  show "16777219 < float_of_u64 16777219" by code_simp
qed

end
