(* ===== verification/Wf4Import.thy ===== *)
theory Wf4Import
  imports Complex_Main TextStream
begin

text \<open>
  The data of the fourth workflow and its import: the classes of
  wf4/include/wf4/full\_graph.hpp and graph.hpp, the parsers of wf4/src/import.cpp, and the
  projection of the full graph to the trading network. Amounts and weights (doubles in the
  code) are elements of any linearly ordered field, so rounding is left out. Members that a
  constructor leaves uninitialised are options, \<open>None\<close> being the indeterminate value.

  \<open>SplitLine\<close>, \<open>encode\<close> and the file parser base class belong to Galois and SHAD: a parser is
  modelled from the tokens of its line on, and \<open>encode\<close> is a parameter. Of the enumeration
  \<open>TYPES\<close> of the workflow schema only the members the code names are used.
\<close>

datatype types = PERSON | DEVICE | SALE | PURCHASE | USES | FRIEND | COMMUNICATION

section \<open>Numbers from text\<close>

text \<open>
  \<open>std::stoull\<close> throws when there is no number or it does not fit; \<open>strtoull\<close> returns zero
  or the largest value instead. A minus sign negates modulo the width.
\<close>

definition scan_u64 :: "string \<Rightarrow> (string \<times> bool)" where
  "scan_u64 s =
     (let r = dropWhile is_space s; r1 = (if r \<noteq> [] \<and> hd r \<in> {CHR ''+'', CHR ''-''} then tl r else r)
      in (takeWhile is_digit r1, r \<noteq> [] \<and> hd r = CHR ''-''))"

definition stoull :: "string \<Rightarrow> nat res" where
  "stoull s = (case scan_u64 s of (ds, neg) \<Rightarrow>
     if ds = [] then Inl InvalidArgument
     else if read_digits ds > u64_max then Inl OutOfRangeArg
     else Inr (if neg then u64_sub 0 (read_digits ds) else read_digits ds))"

definition strtoull :: "string \<Rightarrow> nat" where
  "strtoull s = (case stoull s of Inr n \<Rightarrow> n
     | Inl e \<Rightarrow> if e = OutOfRangeArg then u64_max else 0)"

lemma scan_shown: "scan_u64 (show_u64 n) = (show_u64 n, False)"
proof -
  obtain c cs where c: "show_u64 n = c # cs" by (cases "show_u64 n") auto
  then have "is_digit c" using show_u64_digits [of c n] by simp
  moreover have "takeWhile is_digit (show_u64 n) = show_u64 n"
    using show_u64_digits by (intro takeWhile_eq_all_conv [THEN iffD2]) blast
  ultimately show ?thesis
    using digit_not_space [of c] digit_not_sign [of c] by (auto simp: scan_u64_def c Let_def)
qed

lemma stoull_shown [simp]: "n \<le> u64_max \<Longrightarrow> stoull (show_u64 n) = Inr n"
  by (simp add: stoull_def scan_shown read_show)

lemma stoull_bound: "stoull s = Inr n \<Longrightarrow> n \<le> u64_max"
  by (auto simp: stoull_def u64_sub_def u64_max_def split: prod.splits if_splits)

definition stoull_at :: "string list \<Rightarrow> nat \<Rightarrow> nat res" where
  "stoull_at tokens i = res_bind (vec_get tokens i) stoull"

section \<open>Edges and nodes of the full graph\<close>

record 'd full_edge =
  fe_date :: "nat option"
  fe_amount :: "'d option"
  fe_weight :: "'d option"
  fe_type :: types
  fe_src_type :: types
  fe_dst_type :: types
  fe_src :: nat
  fe_dst :: nat
  fe_src_glbid :: nat
  fe_dst_glbid :: nat
  fe_topic :: nat
  fe_comm :: "nat list option"

text \<open>
  \<open>fe_comm\<close> holds the nine members from \<open>epoch_time\<close> to \<open>dst_bytes\<close>, which only one
  constructor sets. The members with a default initialiser:
\<close>

definition full_edge_init :: "nat \<Rightarrow> nat \<Rightarrow> 'd full_edge" where
  "full_edge_init s d = \<lparr>fe_date = None, fe_amount = None, fe_weight = None, fe_type = SALE,
     fe_src_type = PERSON, fe_dst_type = PERSON, fe_src = s, fe_dst = d,
     fe_src_glbid = u64_max, fe_dst_glbid = u64_max, fe_topic = 0, fe_comm = None\<rparr>"

text \<open>The constructor from explicit values.\<close>

definition full_edge_values ::
  "nat \<Rightarrow> nat \<Rightarrow> types \<Rightarrow> types \<Rightarrow> types \<Rightarrow> 'd \<Rightarrow> nat \<Rightarrow> 'd full_edge" where
  "full_edge_values s d ty sty dty amount topic =
     (full_edge_init s d)\<lparr>fe_amount := Some amount, fe_type := ty, fe_src_type := sty,
       fe_dst_type := dty, fe_src_glbid := s, fe_dst_glbid := d, fe_topic := topic\<rparr>"

text \<open>
  The constructor from the tokens of a commercial line. \<open>stod\<close> is the standard library's
  conversion. The date is indeterminate: \<open>tm\<close> is never initialised, and the format
  \<open>%MM:%DD:%YYYY\<close> leaves its hours and seconds unset whatever the token is.
\<close>

definition full_edge_commercial ::
  "(string \<Rightarrow> 'd::zero res) \<Rightarrow> string list \<Rightarrow> 'd full_edge res" where
  "full_edge_commercial stod tokens =
     res_bind (vec_get tokens 7) (\<lambda>t7.
     res_bind (if length t7 > 0 then stod t7 else Inr 0) (\<lambda>amount_sold.
     res_bind (vec_get tokens 4) (\<lambda>t4.
     res_bind (stoull_at tokens 1) (\<lambda>s.
     res_bind (stoull_at tokens 2) (\<lambda>d.
     res_bind (vec_get tokens 3) (\<lambda>t3.
     res_bind (if length t3 > 0 then stoull t3 else Inr 0) (\<lambda>topic.
       Inr ((full_edge_init s d)\<lparr>fe_amount := Some amount_sold, fe_weight := Some 0,
         fe_topic := topic\<rparr>))))))))"

text \<open>
  The constructor from a type and tokens, for the three other edge files. Device identifiers
  are moved to the upper half of the 64-bit range.
\<close>

definition half_max :: nat where
  "half_max = u64_max div 2"

definition device_id :: "nat \<Rightarrow> nat" where
  "device_id n = half_max + n mod half_max"

fun stoull_all :: "string list \<Rightarrow> nat list \<Rightarrow> nat list res" where
  "stoull_all tokens [] = Inr []"
| "stoull_all tokens (i # is) =
     res_bind (stoull_at tokens i) (\<lambda>n. res_map ((#) n) (stoull_all tokens is))"

definition full_edge_typed :: "types \<Rightarrow> string list \<Rightarrow> 'd full_edge res" where
  "full_edge_typed ty tokens =
     res_bind (stoull_at tokens 0) (\<lambda>s.
     res_bind (stoull_at tokens 1) (\<lambda>d.
       let e = (full_edge_init s d)\<lparr>fe_type := ty\<rparr> in
       if ty = USES then
         Inr (e\<lparr>fe_src_type := PERSON, fe_dst_type := DEVICE, fe_dst := device_id d\<rparr>)
       else if ty = FRIEND then Inr (e\<lparr>fe_src_type := PERSON, fe_dst_type := PERSON\<rparr>)
       else if ty = COMMUNICATION then
         res_map (\<lambda>c. e\<lparr>fe_src_type := DEVICE, fe_dst_type := DEVICE, fe_src := device_id s,
             fe_dst := device_id d, fe_comm := Some c\<rparr>)
           (stoull_all tokens [2, 3, 4, 5, 6, 7, 8, 9, 10])
       else Inr e))"

record 'd full_node =
  fn_id :: nat
  fn_glbid :: nat
  fn_frequency :: nat
  fn_sold :: 'd
  fn_bought :: 'd
  fn_desired :: 'd
  fn_type :: "types option"

text \<open>
  The constructor used by the node parser. It leaves \<open>frequency_\<close> to the default constructor
  of Galois' atomic wrapper, whose value is the parameter \<open>f0\<close>.
\<close>

definition full_node_new :: "nat \<Rightarrow> nat \<Rightarrow> types \<Rightarrow> 'd::zero full_node" where
  "full_node_new f0 n ty = \<lparr>fn_id = n, fn_glbid = n, fn_frequency = f0, fn_sold = 0, fn_bought = 0,
     fn_desired = 0, fn_type = Some ty\<rparr>"

section \<open>The parsers\<close>

text \<open>A parsed line is a node or the edges of a node.\<close>

datatype 'd parsed = ParsedNode "'d full_node" | ParsedEdges "'d full_edge list"

definition cyber_parse_line :: "string list \<Rightarrow> 'd parsed res" where
  "cyber_parse_line tokens = res_map (\<lambda>e. ParsedEdges [e]) (full_edge_typed COMMUNICATION tokens)"

definition social_parse_line :: "string list \<Rightarrow> 'd parsed res" where
  "social_parse_line tokens = res_map (\<lambda>e. ParsedEdges [e]) (full_edge_typed FRIEND tokens)"

definition uses_parse_line :: "string list \<Rightarrow> 'd parsed res" where
  "uses_parse_line tokens = res_map (\<lambda>e. ParsedEdges [e]) (full_edge_typed USES tokens)"

definition node_parse_line :: "nat \<Rightarrow> (string \<Rightarrow> nat) \<Rightarrow> string list \<Rightarrow> 'd::zero parsed res" where
  "node_parse_line f0 encode tokens =
     res_bind (vec_get tokens 1) (\<lambda>t1.
     res_bind (vec_get tokens 0) (\<lambda>t0.
       if t0 = ''Device'' then Inr (ParsedNode (full_node_new f0 (device_id (encode t1)) DEVICE))
       else Inr (ParsedNode (full_node_new f0 (encode t1) PERSON))))"

text \<open>All four parsers throw from \<open>GetDstData\<close>.\<close>

definition get_dst_data :: "'d full_edge list \<Rightarrow> 'd full_node list res" where
  "get_dst_data edges = Inl NotImplemented"

text \<open>The input files of a run, in the order of the five classes of files.\<close>

record input_files =
  commercial_files :: "string list"
  cyber_files :: "string list"
  social_files :: "string list"
  uses_files :: "string list"
  nodes_files :: "string list"

definition add_file :: "string \<Rightarrow> string list" where
  "add_file f = (if length f > 0 then [f] else [])"

definition input_files_of ::
  "string \<Rightarrow> string \<Rightarrow> string \<Rightarrow> string \<Rightarrow> string \<Rightarrow> string \<Rightarrow> input_files" where
  "input_files_of dir commercial cyber social uses nodes =
     (let base = (\<lambda>f. if length dir > 0 then [dir @ f] else []) in
      \<lparr>commercial_files = base ''/commercial.csv'' @ add_file commercial,
       cyber_files = base ''/cyber.csv'' @ add_file cyber,
       social_files = base ''/social.csv'' @ add_file social,
       uses_files = base ''/uses.csv'' @ add_file uses,
       nodes_files = base ''/nodes.csv'' @ add_file nodes\<rparr>)"

section \<open>The projection\<close>

record 'd network_edge =
  ne_date :: "nat option"
  ne_amount :: "'d option"
  ne_weight :: "'d option"
  ne_type :: types
  ne_src_type :: types
  ne_dst_type :: types
  ne_src :: nat
  ne_dst :: nat
  ne_src_glbid :: nat
  ne_dst_glbid :: nat

record 'd network_node =
  nn_id :: nat
  nn_frequency :: nat
  nn_sold :: 'd
  nn_bought :: 'd
  nn_desired :: 'd

definition keep_node :: "'d full_node \<Rightarrow> bool res" where
  "keep_node node = (case fn_type node of None \<Rightarrow> Inl Indeterminate | Some ty \<Rightarrow> Inr (ty = PERSON))"

text \<open>\<open>&&\<close> reads the amount only of trading edges about the topic.\<close>

definition keep_edge :: "'d::linordered_field full_node \<Rightarrow> 'd full_edge \<Rightarrow> bool res" where
  "keep_edge dst edge =
     (if (fe_type edge = PURCHASE \<or> fe_type edge = SALE) \<and> fe_topic edge = 8486
      then case fe_amount edge of
          None \<Rightarrow> Inl Indeterminate
        | Some a \<Rightarrow> if a > 0 then keep_node dst else Inr False
      else Inr False)"

definition project_node :: "'d full_node \<Rightarrow> 'd network_node" where
  "project_node n = \<lparr>nn_id = fn_id n, nn_frequency = fn_frequency n, nn_sold = fn_sold n,
     nn_bought = fn_bought n, nn_desired = fn_desired n\<rparr>"

definition project_edge :: "'d full_edge \<Rightarrow> 'd network_edge" where
  "project_edge e = \<lparr>ne_date = fe_date e, ne_amount = fe_amount e, ne_weight = fe_weight e,
     ne_type = fe_type e, ne_src_type = fe_src_type e, ne_dst_type = fe_dst_type e,
     ne_src = fe_src e, ne_dst = fe_dst e, ne_src_glbid = fe_src_glbid e,
     ne_dst_glbid = fe_dst_glbid e\<rparr>"

text \<open>
  The other constructors of edges and nodes. The one from tokens reads a commercial line as
  \<open>full_edge_commercial\<close> does, but has no topic to read.
\<close>

definition network_edge_init :: "nat \<Rightarrow> nat \<Rightarrow> 'd network_edge" where
  "network_edge_init s d = \<lparr>ne_date = None, ne_amount = None, ne_weight = None, ne_type = SALE,
     ne_src_type = PERSON, ne_dst_type = PERSON, ne_src = s, ne_dst = d,
     ne_src_glbid = u64_max, ne_dst_glbid = u64_max\<rparr>"

definition network_edge_values :: "nat \<Rightarrow> nat \<Rightarrow> 'd::zero \<Rightarrow> types \<Rightarrow> 'd network_edge" where
  "network_edge_values s d amount ty = (network_edge_init s d)\<lparr>ne_amount := Some amount,
     ne_weight := Some 0, ne_type := ty, ne_src_glbid := s, ne_dst_glbid := d\<rparr>"

definition network_edge_commercial ::
  "(string \<Rightarrow> 'd::zero res) \<Rightarrow> string list \<Rightarrow> 'd network_edge res" where
  "network_edge_commercial stod tokens =
     res_bind (vec_get tokens 7) (\<lambda>t7.
     res_bind (if length t7 > 0 then stod t7 else Inr 0) (\<lambda>amount_sold.
     res_bind (vec_get tokens 4) (\<lambda>t4.
     res_bind (stoull_at tokens 1) (\<lambda>s.
     res_bind (stoull_at tokens 2) (\<lambda>d.
       Inr ((network_edge_init s d)\<lparr>ne_amount := Some amount_sold, ne_weight := Some 0\<rparr>))))))"

definition node_data :: "nat \<Rightarrow> nat \<Rightarrow> 'd::zero network_node" where
  "node_data f0 n = \<lparr>nn_id = n, nn_frequency = f0, nn_sold = 0, nn_bought = 0, nn_desired = 0\<rparr>"

text \<open>Only the identifier of a node travels; the receiver keeps what else its object held.\<close>

definition serialize_node :: "'d network_node \<Rightarrow> nat list" where
  "serialize_node n = [nn_id n]"

definition deserialize_node :: "'d network_node \<Rightarrow> nat list \<Rightarrow> ('d network_node \<times> nat list) res" where
  "deserialize_node n buf = (case buf of [] \<Rightarrow> Inl OutOfRange | x # buf' \<Rightarrow> Inr (n\<lparr>nn_id := x\<rparr>, buf'))"

section \<open>Properties of the import\<close>

lemma half_max_value: "half_max = 2 ^ 63 - 1" "2 * half_max \<le> u64_max"
  by (simp_all add: half_max_def u64_max_def)

lemma device_id_range: "half_max \<le> device_id n \<and> device_id n < 2 * half_max"
  by (simp add: device_id_def half_max_value)

text \<open>What the constructors establish, collected for the properties.\<close>

lemma full_edge_typed_cases:
  assumes "full_edge_typed ty tokens = Inr e"
  shows "fe_type e = ty" "fe_amount e = None" "fe_topic e = 0"
    "ty = USES \<Longrightarrow> \<exists>d. stoull_at tokens 1 = Inr d \<and> fe_dst e = device_id d \<and>
      stoull_at tokens 0 = Inr (fe_src e)"
    "ty = COMMUNICATION \<Longrightarrow> \<exists>s d. stoull_at tokens 0 = Inr s \<and> stoull_at tokens 1 = Inr d \<and>
      fe_src e = device_id s \<and> fe_dst e = device_id d"
  using assms
  by (auto simp: full_edge_typed_def res_bind_Inr_iff full_edge_init_def res_map_Inr_iff Let_def
      simp del: stoull_all.simps split: if_splits)

lemma node_parse_line_cases:
  assumes "t0 = ''Device'' \<or> t0 = ''Person''"
  shows "node_parse_line f0 encode (t0 # t1 # ts) = Inr (ParsedNode (if t0 = ''Device''
    then full_node_new f0 (device_id (encode t1)) DEVICE else full_node_new f0 (encode t1) PERSON))"
  using assms by (auto simp: node_parse_line_def vec_get_def)

text \<open>Reading a commercial line directly gives the projection of the full edge.\<close>

lemma commercial_projects:
  assumes "full_edge_commercial stod tokens = Inr e"
  shows "network_edge_commercial stod tokens = Inr (project_edge e)"
proof -
  obtain t7 a t4 s d topic where "vec_get tokens 7 = Inr t7" "(if length t7 > 0 then stod t7 else Inr 0) = Inr a"
    "vec_get tokens 4 = Inr t4" "stoull_at tokens 1 = Inr s" "stoull_at tokens 2 = Inr d"
    "e = (full_edge_init s d)\<lparr>fe_amount := Some a, fe_weight := Some 0, fe_topic := topic\<rparr>"
    using assms unfolding full_edge_commercial_def res_bind_Inr_iff by blast
  then show ?thesis
    by (simp add: network_edge_commercial_def project_edge_def full_edge_init_def network_edge_init_def)
qed

text \<open>A fresh node survives the wire when it is received into a fresh node.\<close>

lemma fresh_node_received:
  "deserialize_node (node_data f0 m) (serialize_node (node_data f0 n) @ buf) = Inr (node_data f0 n, buf)"
  by (simp add: serialize_node_def deserialize_node_def node_data_def)

end
