(* ===== verification/Wf4Edges.thy ===== *)
theory Wf4Edges
  imports Wf4Import
begin

text \<open>
  Edge probabilities (\<open>CalculateEdgeProbabilities\<close> and its two loop bodies in
  wf4/src/influence\_maximization.cpp). A host holds node data for its masters and mirrors
  and the edges of its masters; nodes are named by their global identifier, so that the
  conversions \<open>getLID\<close> and \<open>getGID\<close> of the partitioned graph, which are inverse to each
  other, do not appear. The synchronisation of mirrors is Gluon's and a parameter.
\<close>

record 'd trade_edge =
  te_type :: types
  te_amount :: 'd
  te_weight :: 'd
  te_src :: nat
  te_dst :: nat

text \<open>The members the analyses read, of an edge that has them all.\<close>

definition trade_of :: "'d network_edge \<Rightarrow> 'd trade_edge option" where
  "trade_of e = (case (ne_amount e, ne_weight e) of
     (Some a, Some w) \<Rightarrow> Some \<lparr>te_type = ne_type e, te_amount = a, te_weight = w,
       te_src = ne_src e, te_dst = ne_dst e\<rparr>
   | _ \<Rightarrow> None)"

record 'd host =
  h_node :: "nat \<Rightarrow> 'd network_node"
  h_masters :: "nat list"
  h_edges :: "nat \<Rightarrow> (nat \<times> 'd trade_edge) list"
  h_sold_bits :: "nat set"
  h_bought_bits :: "nat set"

definition upd_node :: "nat \<Rightarrow> ('d network_node \<Rightarrow> 'd network_node) \<Rightarrow> 'd host \<Rightarrow> 'd host" where
  "upd_node u f H = H\<lparr>h_node := (h_node H)(u := f (h_node H u))\<rparr>"

definition atomic_add_sold :: "nat \<Rightarrow> 'd::plus \<Rightarrow> 'd host \<Rightarrow> 'd host" where
  "atomic_add_sold u a = upd_node u (\<lambda>n. n\<lparr>nn_sold := nn_sold n + a\<rparr>)"

definition atomic_add_bought :: "nat \<Rightarrow> 'd::plus \<Rightarrow> 'd host \<Rightarrow> 'd host" where
  "atomic_add_bought u a = upd_node u (\<lambda>n. n\<lparr>nn_bought := nn_bought n + a\<rparr>)"

section \<open>FillNodeValues\<close>

definition fill_edge :: "nat \<Rightarrow> nat \<times> 'd::linordered_field trade_edge \<Rightarrow> 'd host \<Rightarrow> 'd host" where
  "fill_edge node p H = (case p of (dst, edge) \<Rightarrow>
     let H1 = upd_node dst (\<lambda>n. n\<lparr>nn_id := te_dst edge\<rparr>)
                (upd_node node (\<lambda>n. n\<lparr>nn_id := te_src edge\<rparr>) H)
     in if te_type edge = SALE then atomic_add_sold node (te_amount edge) H1
        else if te_type edge = PURCHASE
        then upd_node node (\<lambda>n. n\<lparr>nn_desired := nn_desired n + te_amount edge\<rparr>)
               (atomic_add_bought node (te_amount edge) H1)
        else H1)"

definition fill_node_values :: "nat \<Rightarrow> 'd::linordered_field host \<Rightarrow> 'd host res" where
  "fill_node_values node H =
     (let H' = fold (fill_edge node) (h_edges H node) H
      in Inr (if nn_sold (h_node H' node) > 0
              then H'\<lparr>h_sold_bits := insert node (h_sold_bits H')\<rparr> else H'))"

section \<open>CalculateEdgeProbability\<close>

text \<open>\<open>amount_sold\<close> is read once, before the loop over the edges.\<close>

definition calc_weight ::
  "(nat \<Rightarrow> 'd::linordered_field network_node) \<Rightarrow> 'd \<Rightarrow> nat \<times> 'd trade_edge \<Rightarrow> nat \<times> 'd trade_edge" where
  "calc_weight nodes amount_sold p = (case p of (dst, edge) \<Rightarrow>
     if te_type edge = SALE \<and> amount_sold > 0
     then (dst, edge\<lparr>te_weight := te_amount edge / amount_sold\<rparr>)
     else if te_type edge = PURCHASE \<and> nn_sold (nodes dst) > 0
     then (dst, edge\<lparr>te_weight := te_amount edge / nn_sold (nodes dst)\<rparr>)
     else (dst, edge))"

text \<open>The two accumulators: \<open>total_sales\<close> adds the amount of every edge, whatever its type.\<close>

record 'd totals =
  total_edge_weights :: 'd
  total_sales :: 'd

definition weighed ::
  "(nat \<Rightarrow> 'd::linordered_field network_node) \<Rightarrow> 'd \<Rightarrow> nat \<times> 'd trade_edge \<Rightarrow> bool" where
  "weighed nodes amount_sold p \<longleftrightarrow> te_type (snd p) = SALE \<and> amount_sold > 0 \<or>
     te_type (snd p) = PURCHASE \<and> nn_sold (nodes (fst p)) > 0"

definition add_totals ::
  "(nat \<Rightarrow> 'd::linordered_field network_node) \<Rightarrow> 'd \<Rightarrow> nat \<times> 'd trade_edge \<Rightarrow> 'd totals \<Rightarrow> 'd totals" where
  "add_totals nodes amount_sold p T =
     (let T1 = T\<lparr>total_sales := total_sales T + te_amount (snd p)\<rparr>
      in if weighed nodes amount_sold p
         then T1\<lparr>total_edge_weights := total_edge_weights T1 + te_weight (snd (calc_weight nodes amount_sold p))\<rparr>
         else T1)"

definition calculate_edge_probability ::
  "nat \<Rightarrow> 'd::linordered_field host \<times> 'd totals \<Rightarrow> ('d host \<times> 'd totals) res" where
  "calculate_edge_probability node st = (case st of (H, T) \<Rightarrow>
     let amount_sold = nn_sold (h_node H node) in
     Inr (H\<lparr>h_edges := (h_edges H)(node := map (calc_weight (h_node H) amount_sold) (h_edges H node))\<rparr>,
       fold (add_totals (h_node H) amount_sold) (h_edges H node) T))"

text \<open>The two parallel loops of every host, with the synchronisation between them.\<close>

definition fill_host :: "galois_rt \<Rightarrow> 'd::linordered_field host \<Rightarrow> 'd host res" where
  "fill_host rt H =
     do_all rt 0 fill_node_values (h_masters H) (H\<lparr>h_sold_bits := {}\<rparr>)"

definition weigh_host :: "galois_rt \<Rightarrow> 'd::linordered_field host \<Rightarrow> ('d host \<times> 'd totals) res" where
  "weigh_host rt H = do_all rt 1 calculate_edge_probability (h_masters H)
     (H, \<lparr>total_edge_weights = 0, total_sales = 0\<rparr>)"

definition reduce_totals :: "'d::linordered_field totals list \<Rightarrow> 'd totals" where
  "reduce_totals Ts = \<lparr>total_edge_weights = sum_list (map total_edge_weights Ts),
     total_sales = sum_list (map total_sales Ts)\<rparr>"

fun map_res :: "('a \<Rightarrow> 'b res) \<Rightarrow> 'a list \<Rightarrow> 'b list res" where
  "map_res f [] = Inr []"
| "map_res f (x # xs) = res_bind (f x) (\<lambda>y. res_map ((#) y) (map_res f xs))"

text \<open>The result, and the two numbers that host 0 prints.\<close>

definition calculate_with_totals ::
  "galois_rt \<Rightarrow> ('d::linordered_field host list \<Rightarrow> 'd host list) \<Rightarrow> 'd host list \<Rightarrow> ('d host list \<times> 'd totals) res" where
  "calculate_with_totals rt sync hosts =
     res_bind (map_res (fill_host rt) hosts) (\<lambda>filled.
     res_map (\<lambda>rs. (map fst rs, reduce_totals (map snd rs))) (map_res (weigh_host rt) (sync filled)))"

definition calculate_edge_probabilities ::
  "galois_rt \<Rightarrow> ('d::linordered_field host list \<Rightarrow> 'd host list) \<Rightarrow> 'd host list \<Rightarrow> 'd host list res" where
  "calculate_edge_probabilities rt sync hosts = res_map fst (calculate_with_totals rt sync hosts)"

section \<open>Specification\<close>

definition type_total :: "types \<Rightarrow> (nat \<times> 'd::linordered_field trade_edge) list \<Rightarrow> 'd" where
  "type_total ty es = sum_list (map (\<lambda>p. if te_type (snd p) = ty then te_amount (snd p) else 0) es)"

text \<open>
  What Gluon documents of the synchronisation used here (set on the mirrors, from writers of
  source data to readers of destination data): afterwards every copy of a node whose master
  has its bit set shows the master's \<open>sold_\<close>; other copies and everything else are as before.
  \<open>owner\<close> gives the index of the host of a node.
\<close>

definition sync_sold_ok ::
  "(nat \<Rightarrow> nat) \<Rightarrow> ('d host list \<Rightarrow> 'd host list) \<Rightarrow> bool" where
  "sync_sold_ok owner sync \<longleftrightarrow> (\<forall>hs. length (sync hs) = length hs \<and> (\<forall>i<length hs.
     h_edges (sync hs ! i) = h_edges (hs ! i) \<and> h_masters (sync hs ! i) = h_masters (hs ! i) \<and>
     (\<forall>v. nn_sold (h_node (sync hs ! i) v) =
        (if owner v < length hs \<and> v \<in> h_sold_bits (hs ! owner v)
         then nn_sold (h_node (hs ! owner v) v) else nn_sold (h_node (hs ! i) v)))))"

definition sync_sold :: "(nat \<Rightarrow> nat) \<Rightarrow> 'd host list \<Rightarrow> 'd host list" where
  "sync_sold owner hs = map (\<lambda>H. H\<lparr>h_node := (\<lambda>v. (h_node H v)\<lparr>nn_sold :=
     if owner v < length hs \<and> v \<in> h_sold_bits (hs ! owner v)
     then nn_sold (h_node (hs ! owner v) v) else nn_sold (h_node H v)\<rparr>)\<rparr>) hs"

lemma sync_sold_ok_witness: "sync_sold_ok owner (sync_sold owner)"
  by (simp add: sync_sold_ok_def sync_sold_def)

text \<open>The state the import leaves: fresh nodes, positive amounts, each node on one host.\<close>

definition fresh_hosts :: "(nat \<Rightarrow> nat) \<Rightarrow> 'd::linordered_field host list \<Rightarrow> bool" where
  "fresh_hosts owner hs \<longleftrightarrow> (\<forall>i<length hs. distinct (h_masters (hs ! i)) \<and>
     (\<forall>v. nn_sold (h_node (hs ! i) v) = 0) \<and>
     (\<forall>u\<in>set (h_masters (hs ! i)). owner u = i \<and>
        (\<forall>p\<in>set (h_edges (hs ! i) u). te_amount (snd p) > 0 \<and>
           owner (fst p) < length hs \<and> fst p \<in> set (h_masters (hs ! owner (fst p))))))"

definition edges_of :: "(nat \<Rightarrow> nat) \<Rightarrow> 'd host list \<Rightarrow> nat \<Rightarrow> (nat \<times> 'd trade_edge) list" where
  "edges_of owner hs u = h_edges (hs ! owner u) u"

text \<open>The probability every edge should get.\<close>

definition edge_probability ::
  "(nat \<Rightarrow> nat) \<Rightarrow> 'd::linordered_field host list \<Rightarrow> nat \<Rightarrow> nat \<times> 'd trade_edge \<Rightarrow> 'd" where
  "edge_probability owner hs u p =
     (if te_type (snd p) = SALE then te_amount (snd p) / type_total SALE (edges_of owner hs u)
      else if te_type (snd p) = PURCHASE \<and> type_total SALE (edges_of owner hs (fst p)) > 0
      then te_amount (snd p) / type_total SALE (edges_of owner hs (fst p))
      else te_weight (snd p))"

text \<open>An edge gets a probability if its seller has sold something.\<close>

definition gets_weight :: "(nat \<Rightarrow> nat) \<Rightarrow> 'd::linordered_field host list \<Rightarrow> nat \<times> 'd trade_edge \<Rightarrow> bool" where
  "gets_weight owner hs p \<longleftrightarrow> te_type (snd p) = SALE \<or>
     te_type (snd p) = PURCHASE \<and> type_total SALE (edges_of owner hs (fst p)) > 0"

definition sum_edges :: "('d host \<Rightarrow> nat \<Rightarrow> nat \<times> 'd trade_edge \<Rightarrow> 'd::comm_monoid_add) \<Rightarrow> 'd host \<Rightarrow> 'd" where
  "sum_edges f H = sum_list (map (\<lambda>u. sum_list (map (f H u) (h_edges H u))) (h_masters H))"

definition edge_totals :: "(nat \<Rightarrow> nat) \<Rightarrow> 'd::linordered_field host list \<Rightarrow> 'd totals" where
  "edge_totals owner hs = \<lparr>total_edge_weights = sum_list (map (sum_edges (\<lambda>_ u p.
       if gets_weight owner hs p then edge_probability owner hs u p else 0)) hs),
     total_sales = sum_list (map (sum_edges (\<lambda>_ u p. te_amount (snd p))) hs)\<rparr>"

section \<open>The loops\<close>

lemma fill_edge_facts:
  "nn_sold (h_node (fill_edge u p H) v) = nn_sold (h_node H v) +
    (if v = u \<and> te_type (snd p) = SALE then te_amount (snd p) else 0)"
  "h_edges (fill_edge u p H) = h_edges H" "h_masters (fill_edge u p H) = h_masters H"
  "h_sold_bits (fill_edge u p H) = h_sold_bits H"
  by (auto simp: fill_edge_def upd_node_def atomic_add_sold_def atomic_add_bought_def Let_def
      split: prod.splits)

lemma fill_edges_facts:
  "nn_sold (h_node (fold (fill_edge u) es H) v) =
    nn_sold (h_node H v) + (if v = u then type_total SALE es else 0)"
  "h_edges (fold (fill_edge u) es H) = h_edges H"
  "h_masters (fold (fill_edge u) es H) = h_masters H"
  "h_sold_bits (fold (fill_edge u) es H) = h_sold_bits H"
  by (induction es arbitrary: H) (auto simp: fill_edge_facts type_total_def)

lemma fill_host_ok:
  fixes H :: "'d::linordered_field host"
  assumes "galois_ok rt" "distinct (h_masters H)" "\<And>v. nn_sold (h_node H v) = 0"
  shows "\<exists>H'. fill_host rt H = Inr H' \<and> h_edges H' = h_edges H \<and> h_masters H' = h_masters H \<and>
    (\<forall>v. nn_sold (h_node H' v) =
       (if v \<in> set (h_masters H) then type_total SALE (h_edges H v) else 0)) \<and>
    h_sold_bits H' = {v \<in> set (h_masters H). type_total SALE (h_edges H v) > 0}"
proof -
  let ?P = "\<lambda>ys (G :: 'd host). h_edges G = h_edges H \<and> h_masters G = h_masters H \<and>
    (\<forall>v. nn_sold (h_node G v) = (if v \<in> set ys then type_total SALE (h_edges H v) else 0)) \<and>
    h_sold_bits G = {v \<in> set ys. type_total SALE (h_edges H v) > 0}"
  have "\<exists>ys G. mset ys = mset (h_masters H) \<and> fill_host rt H = Inr G \<and> ?P ys G"
    unfolding fill_host_def
  proof (rule do_all_rule [OF assms(1)])
    fix ys x and G :: "'d host"
    assume sub: "mset (ys @ [x]) \<subseteq># mset (h_masters H)" and P: "?P ys G"
    have x: "x \<notin> set ys" by (rule do_all_fresh [OF sub assms(2)])
    let ?G = "fold (fill_edge x) (h_edges G x) G"
    have sold: "nn_sold (h_node ?G x) = type_total SALE (h_edges H x)"
      using P x by (simp add: fill_edges_facts)
    have "?P (ys @ [x]) (if nn_sold (h_node ?G x) > 0
        then ?G\<lparr>h_sold_bits := insert x (h_sold_bits ?G)\<rparr> else ?G)"
      unfolding sold using P x by (auto simp: fill_edges_facts)
    then show "\<exists>G'. fill_node_values x G = Inr G' \<and> ?P (ys @ [x]) G'"
      by (simp only: fill_node_values_def Let_def sum.inject) blast
  qed (simp add: assms(3))
  then obtain ys G where ys: "mset ys = mset (h_masters H)" "fill_host rt H = Inr G" "?P ys G"
    by blast
  have "set ys = set (h_masters H)" using mset_eq_setD [OF ys(1)] .
  with ys(2,3) show ?thesis by auto
qed

definition weight_given :: "(nat \<Rightarrow> 'd::linordered_field network_node) \<Rightarrow> 'd \<Rightarrow> nat \<times> 'd trade_edge \<Rightarrow> 'd" where
  "weight_given nodes a p = (if weighed nodes a p then te_weight (snd (calc_weight nodes a p)) else 0)"

lemma add_totals_loop:
  "fold (add_totals nodes a) es T =
    \<lparr>total_edge_weights = total_edge_weights T + sum_list (map (weight_given nodes a) es),
     total_sales = total_sales T + sum_list (map (\<lambda>p. te_amount (snd p)) es)\<rparr>"
  by (induction es arbitrary: T) (simp_all add: add_totals_def weight_given_def Let_def add.assoc)

lemma weigh_host_ok:
  fixes H :: "'d::linordered_field host"
  assumes "galois_ok rt" "distinct (h_masters H)"
  shows "\<exists>H'. weigh_host rt H = Inr (H', \<lparr>total_edge_weights = sum_edges (\<lambda>H u. weight_given (h_node H) (nn_sold (h_node H u))) H,
      total_sales = sum_edges (\<lambda>H u p. te_amount (snd p)) H\<rparr>) \<and>
    h_node H' = h_node H \<and> h_masters H' = h_masters H \<and>
    (\<forall>u\<in>set (h_masters H). h_edges H' u =
       map (calc_weight (h_node H) (nn_sold (h_node H u))) (h_edges H u))"
proof -
  let ?f = "\<lambda>u. map (calc_weight (h_node H) (nn_sold (h_node H u))) (h_edges H u)"
  let ?w = "\<lambda>u. sum_list (map (weight_given (h_node H) (nn_sold (h_node H u))) (h_edges H u))"
  let ?s = "\<lambda>u. sum_list (map (\<lambda>p. te_amount (snd p)) (h_edges H u))"
  let ?T = "\<lambda>ys. \<lparr>total_edge_weights = sum_list (map ?w ys), total_sales = sum_list (map ?s ys)\<rparr>"
  let ?P = "\<lambda>ys st. h_node (fst st) = h_node H \<and> h_masters (fst st) = h_masters H \<and>
    (\<forall>u. h_edges (fst st) u = (if u \<in> set ys then ?f u else h_edges H u)) \<and> snd st = ?T ys"
  have "\<exists>ys st. mset ys = mset (h_masters H) \<and> weigh_host rt H = Inr st \<and> ?P ys st"
    unfolding weigh_host_def
  proof (rule do_all_rule [OF assms(1)])
    fix ys x and st :: "'d host \<times> 'd totals"
    assume sub: "mset (ys @ [x]) \<subseteq># mset (h_masters H)" and P: "?P ys st"
    have "x \<notin> set ys" by (rule do_all_fresh [OF sub assms(2)])
    with P show "\<exists>st'. calculate_edge_probability x st = Inr st' \<and> ?P (ys @ [x]) st'"
      by (cases st) (simp add: calculate_edge_probability_def add_totals_loop Let_def)
  qed simp
  then obtain ys st where ys: "mset ys = mset (h_masters H)" "weigh_host rt H = Inr st" "?P ys st"
    by blast
  have "set ys = set (h_masters H)" using mset_eq_setD [OF ys(1)] .
  moreover have "sum_list (map g ys) = sum_list (map g (h_masters H))" for g :: "nat \<Rightarrow> 'd"
    using ys(1) by (metis mset_map sum_mset_sum_list)
  ultimately show ?thesis using ys(2,3) by (cases st) (auto simp: sum_edges_def)
qed

lemma map_res_ok:
  assumes "\<And>x. x \<in> set xs \<Longrightarrow> \<exists>y. f x = Inr y \<and> Q x y"
  shows "\<exists>ys. map_res f xs = Inr ys \<and> length ys = length xs \<and> (\<forall>i<length xs. Q (xs ! i) (ys ! i))"
  using assms
proof (induction xs)
  case (Cons x xs)
  obtain y where y: "f x = Inr y" "Q x y" using Cons.prems by auto
  obtain ys where "map_res f xs = Inr ys" "length ys = length xs" "\<forall>i<length xs. Q (xs ! i) (ys ! i)"
    using Cons by auto
  with y show ?case by (auto simp: nth_Cons split: nat.splits)
qed simp

lemma type_total_nonneg:
  "\<forall>p\<in>set es. te_amount (snd p) > 0 \<Longrightarrow> type_total ty es \<ge> 0"
  by (induction es) (auto simp: type_total_def)

lemma type_total_pos:
  assumes "\<forall>p\<in>set es. te_amount (snd p) > 0" "p \<in> set es" "te_type (snd p) = ty"
  shows "type_total ty es > 0"
  using assms
proof (induction es)
  case (Cons q es)
  then show ?case
    using type_total_nonneg [of es ty] by (auto simp: type_total_def intro: add_pos_nonneg add_nonneg_pos)
qed simp

lemma edge_totals_ok:
  fixes hs :: "'d::linordered_field host list"
  assumes rt: "galois_ok rt" and sync: "sync_sold_ok owner sync" and fresh: "fresh_hosts owner hs"
  shows "\<exists>hs'. calculate_with_totals rt sync hs = Inr (hs', edge_totals owner hs) \<and> length hs' = length hs \<and>
    (\<forall>i<length hs. \<forall>u\<in>set (h_masters (hs ! i)). h_edges (hs' ! i) u =
      map (\<lambda>p. (fst p, (snd p)\<lparr>te_weight := edge_probability owner hs u p\<rparr>)) (h_edges (hs ! i) u))"
proof -
  let ?tot = "\<lambda>i v. type_total SALE (h_edges (hs ! i) v)"
  let ?Q = "\<lambda>H H'. h_edges H' = h_edges H \<and> h_masters H' = h_masters H \<and>
    (\<forall>v. nn_sold (h_node H' v) =
       (if v \<in> set (h_masters H) then type_total SALE (h_edges H v) else 0)) \<and>
    h_sold_bits H' = {v \<in> set (h_masters H). type_total SALE (h_edges H v) > 0}"
  have "\<exists>H'. fill_host rt H = Inr H' \<and> ?Q H H'" if "H \<in> set hs" for H
  proof -
    have "distinct (h_masters H)" "\<And>v. nn_sold (h_node H v) = 0"
      using fresh that by (auto simp: fresh_hosts_def in_set_conv_nth)
    then show ?thesis by (rule fill_host_ok [OF rt])
  qed
  from map_res_ok [of hs "fill_host rt" ?Q, OF this] obtain fs where
    fs: "map_res (fill_host rt) hs = Inr fs" "length fs = length hs"
      "\<And>i. i < length hs \<Longrightarrow> ?Q (hs ! i) (fs ! i)" by blast
  let ?S = "sync fs"
  have S: "length ?S = length hs" "\<And>i. i < length hs \<Longrightarrow> h_edges (?S ! i) = h_edges (hs ! i) \<and>
      h_masters (?S ! i) = h_masters (hs ! i)"
    "\<And>i v. i < length hs \<Longrightarrow> nn_sold (h_node (?S ! i) v) =
        (if owner v < length hs \<and> v \<in> h_sold_bits (fs ! owner v)
         then nn_sold (h_node (fs ! owner v) v) else nn_sold (h_node (fs ! i) v))"
    using sync fs(2,3) by (auto simp: sync_sold_ok_def)
  let ?R = "\<lambda>H r. snd r = \<lparr>total_edge_weights = sum_edges (\<lambda>H u. weight_given (h_node H) (nn_sold (h_node H u))) H,
      total_sales = sum_edges (\<lambda>H u p. te_amount (snd p)) H\<rparr> \<and>
    (\<forall>u\<in>set (h_masters H). h_edges (fst r) u =
       map (calc_weight (h_node H) (nn_sold (h_node H u))) (h_edges H u))"
  have "\<exists>r. weigh_host rt H = Inr r \<and> ?R H r" if "H \<in> set ?S" for H
  proof -
    have "distinct (h_masters H)"
      using fresh that S by (auto simp: fresh_hosts_def in_set_conv_nth)
    then show ?thesis using weigh_host_ok [OF rt] by fastforce
  qed
  from map_res_ok [of ?S "weigh_host rt" ?R, OF this] obtain ws where
    ws: "map_res (weigh_host rt) ?S = Inr ws" "length ws = length hs"
      "\<And>i. i < length hs \<Longrightarrow> ?R (?S ! i) (ws ! i)" using S(1) by auto
  have weigh: "calc_weight (h_node (?S ! i)) (nn_sold (h_node (?S ! i) u)) p =
      (fst p, (snd p)\<lparr>te_weight := edge_probability owner hs u p\<rparr>) \<and>
      weight_given (h_node (?S ! i)) (nn_sold (h_node (?S ! i) u)) p =
      (if gets_weight owner hs p then edge_probability owner hs u p else 0)"
    if i: "i < length hs" and u: "u \<in> set (h_masters (hs ! i))" and p: "p \<in> set (h_edges (hs ! i) u)" for i u p
  proof -
    have own: "owner u = i" and pos: "\<forall>p\<in>set (h_edges (hs ! i) u). te_amount (snd p) > 0"
      and dst: "\<forall>p\<in>set (h_edges (hs ! i) u). owner (fst p) < length hs \<and>
        fst p \<in> set (h_masters (hs ! owner (fst p)))"
      using fresh i u by (auto simp: fresh_hosts_def)
    have sold_u: "nn_sold (h_node (?S ! i) u) = ?tot i u"
      using S(3) [OF i, of u] fs(3) [OF i] own i u by simp
    have sold_dst: "nn_sold (h_node (?S ! i) v) > 0 \<longleftrightarrow> ?tot (owner v) v > 0"
      "?tot (owner v) v > 0 \<Longrightarrow> nn_sold (h_node (?S ! i) v) = ?tot (owner v) v"
      if "owner v < length hs" "v \<in> set (h_masters (hs ! owner v))" for v
    proof -
      have eq: "nn_sold (h_node (?S ! i) v) = (if ?tot (owner v) v > 0 then ?tot (owner v) v
          else if v \<in> set (h_masters (hs ! i)) then ?tot i v else 0)"
        using S(3) [OF i, of v] fs(3) [OF i] fs(3) [OF that(1)] that by simp
      moreover have "owner v = i" if "v \<in> set (h_masters (hs ! i))"
        using fresh i that by (auto simp: fresh_hosts_def)
      ultimately show "nn_sold (h_node (?S ! i) v) > 0 \<longleftrightarrow> ?tot (owner v) v > 0" by auto
      show "?tot (owner v) v > 0 \<Longrightarrow> nn_sold (h_node (?S ! i) v) = ?tot (owner v) v" by (simp add: eq)
    qed
    show ?thesis
    proof (cases "te_type (snd p) = SALE")
      case True
      have "?tot i u > 0" using type_total_pos [OF pos p True] .
      with True show ?thesis
        by (cases p) (simp add: weight_given_def weighed_def gets_weight_def calc_weight_def edge_probability_def
            edges_of_def own sold_u)
    next
      case False
      obtain v e where ve: "p = (v, e)" by (cases p)
      have v: "owner v < length hs" "v \<in> set (h_masters (hs ! owner v))" using dst p ve by auto
      show ?thesis
        using False sold_dst [OF v] ve
        by (auto simp: weight_given_def weighed_def gets_weight_def calc_weight_def edge_probability_def edges_of_def)
    qed
  qed
  have totals: "snd (ws ! i) = \<lparr>total_edge_weights = sum_edges (\<lambda>_ u p. if gets_weight owner hs p
        then edge_probability owner hs u p else 0) (hs ! i),
      total_sales = sum_edges (\<lambda>_ u p. te_amount (snd p)) (hs ! i)\<rparr>" if i: "i < length hs" for i
    using ws(3) [OF i] S(2) [OF i] weigh [OF i]
    by (auto simp: sum_edges_def intro!: arg_cong [where f = sum_list] map_cong)
  have "map snd ws = map (\<lambda>H. \<lparr>total_edge_weights = sum_edges (\<lambda>_ u p. if gets_weight owner hs p
        then edge_probability owner hs u p else 0) H,
      total_sales = sum_edges (\<lambda>_ u p. te_amount (snd p)) H\<rparr>) hs"
    using totals ws(2) by (intro nth_equalityI) simp_all
  then have "reduce_totals (map snd ws) = edge_totals owner hs"
    by (simp add: reduce_totals_def edge_totals_def comp_def)
  moreover have "\<forall>i<length hs. \<forall>u\<in>set (h_masters (hs ! i)). h_edges (map fst ws ! i) u =
      map (\<lambda>p. (fst p, (snd p)\<lparr>te_weight := edge_probability owner hs u p\<rparr>)) (h_edges (hs ! i) u)"
    using weigh ws(2,3) S(2) by simp
  ultimately show ?thesis using fs(1) ws(1,2)
    by (intro exI [of _ "map fst ws"]) (simp add: calculate_with_totals_def)
qed

text \<open>The stage on its own, without what it prints.\<close>

lemma edge_probabilities_ok:
  fixes hs :: "'d::linordered_field host list"
  assumes "galois_ok rt" "sync_sold_ok owner sync" "fresh_hosts owner hs"
  shows "\<exists>hs'. calculate_edge_probabilities rt sync hs = Inr hs' \<and> length hs' = length hs \<and>
    (\<forall>i<length hs. \<forall>u\<in>set (h_masters (hs ! i)). h_edges (hs' ! i) u =
      map (\<lambda>p. (fst p, (snd p)\<lparr>te_weight := edge_probability owner hs u p\<rparr>)) (h_edges (hs ! i) u))"
  using edge_totals_ok [OF assms] by (fastforce simp: calculate_edge_probabilities_def)

text \<open>The probabilities of a seller's sales add up to one.\<close>

lemma sale_weights_sum:
  fixes es :: "(nat \<times> 'd::linordered_field trade_edge) list"
  assumes "t \<noteq> 0"
  shows "type_total SALE es / t =
    sum_list (map (\<lambda>p. if te_type (snd p) = SALE then te_amount (snd p) / t else 0) es)"
  by (induction es) (auto simp: type_total_def add_divide_distrib)

end
