(* ===== verification/Wf4Rrr.thy ===== *)
theory Wf4Rrr
  imports Wf4Edges
begin

text \<open>
  One random reverse reachable set on one host: \<open>PartialReachableSet\<close> and
  \<open>ContinueRandomReversibleReachableSet\<close> of wf4/src/influence\_maximization.cpp. Hash sets are
  sets; the order in which a hash set is enumerated is the parameter \<open>enum\<close>. The generator
  is a parameter too: \<open>draw k\<close> is its \<open>k\<close>-th number. A frequency is written only by the host
  that owns the node, so the frequencies of all hosts are one function.
\<close>

record partial_set =
  ps_id :: nat
  ps_owner :: nat
  ps_reached :: "nat set"
  ps_frontier :: "nat set"

definition new_partial_set :: "nat \<Rightarrow> nat \<Rightarrow> nat \<Rightarrow> partial_set" where
  "new_partial_set i host gid = \<lparr>ps_id = i, ps_owner = host, ps_reached = {gid}, ps_frontier = {gid}\<rparr>"

definition ps_finished :: "partial_set \<Rightarrow> bool" where
  "ps_finished p \<longleftrightarrow> ps_frontier p = {}"

text \<open>The graph as the traversal sees it: owners, and weighted out-edges of owned nodes.\<close>

record 'd rrr_graph =
  rg_owner :: "nat \<Rightarrow> nat"
  rg_out :: "nat \<Rightarrow> (nat \<times> 'd) list"

definition next_host :: "'d rrr_graph \<Rightarrow> (nat set \<Rightarrow> nat list) \<Rightarrow> bool \<Rightarrow> partial_set \<Rightarrow> nat" where
  "next_host g enum finish p =
     (if finish \<or> ps_finished p then ps_owner p else rg_owner g (hd (enum (ps_frontier p))))"

definition enum_ok :: "(nat set \<Rightarrow> nat list) \<Rightarrow> bool" where
  "enum_ok enum \<longleftrightarrow> (\<forall>A. finite A \<longrightarrow> set (enum A) = A \<and> distinct (enum A))"

lemma enum_ok_sorted: "enum_ok sorted_list_of_set"
  by (simp add: enum_ok_def)

section \<open>The traversal\<close>

text \<open>State: queue, reached set, remote frontier, and the number of draws so far.\<close>

type_synonym rrr_local = "nat list \<times> nat set \<times> nat set \<times> nat"

definition visit_edge :: "'d::linordered_field rrr_graph \<Rightarrow> nat \<Rightarrow> (nat \<Rightarrow> 'd) \<Rightarrow> nat \<times> 'd
    \<Rightarrow> rrr_local \<Rightarrow> rrr_local" where
  "visit_edge g host draw edge st = (case (edge, st) of ((dst, weight), (queue, reached, remote, k)) \<Rightarrow>
     if draw k \<le> weight \<and> dst \<notin> reached
     then (if rg_owner g dst = host
           then (queue @ [dst], insert dst reached, remote, k + 1)
           else (queue, insert dst reached, insert dst remote, k + 1))
     else (queue, reached, remote, k + 1))"

partial_function (option) traverse :: "'d::linordered_field rrr_graph \<Rightarrow> nat \<Rightarrow> (nat \<Rightarrow> 'd) \<Rightarrow> bool
    \<Rightarrow> rrr_local \<Rightarrow> (nat \<Rightarrow> nat) \<Rightarrow> (nat set \<times> nat set \<times> (nat \<Rightarrow> nat)) option" where
  "traverse g host draw finish st freq = (case st of (queue, reached, remote, k) \<Rightarrow>
     case queue of
       [] \<Rightarrow> Some (reached, remote, freq)
     | gid # queue' \<Rightarrow>
         let freq' = freq(gid := freq gid + 1) in
         if finish then traverse g host draw finish (queue', reached, remote, k) freq'
         else traverse g host draw finish
           (fold (visit_edge g host draw) (rg_out g gid) (queue', reached, remote, k)) freq')"

declare traverse.simps [code]

definition continue_set :: "'d::linordered_field rrr_graph \<Rightarrow> (nat set \<Rightarrow> nat list) \<Rightarrow> nat \<Rightarrow>
    (nat \<Rightarrow> 'd) \<Rightarrow> bool \<Rightarrow> partial_set \<Rightarrow> (nat \<Rightarrow> nat) \<Rightarrow> (partial_set \<times> (nat \<Rightarrow> nat)) option" where
  "continue_set g enum host draw finish p freq =
     (let local = filter (\<lambda>gid. rg_owner g gid = host) (enum (ps_frontier p));
          remote = {gid \<in> ps_frontier p. rg_owner g gid \<noteq> host}
      in case traverse g host draw finish (local, ps_reached p, remote, 0) freq of
           None \<Rightarrow> None
         | Some (reached, remote', freq') \<Rightarrow>
             Some (if finish
                   then (p\<lparr>ps_reached := reached - remote', ps_frontier := {}\<rparr>, freq')
                   else (p\<lparr>ps_reached := reached, ps_frontier := remote'\<rparr>, freq')))"

section \<open>What a traversal keeps\<close>

definition rrr_rel :: "'d rrr_graph \<Rightarrow> (nat \<times> nat) set" where
  "rrr_rel g = {(u, v). v \<in> fst ` set (rg_out g u)}"

definition ind :: "nat set \<Rightarrow> nat \<Rightarrow> nat" where
  "ind A x = (if x \<in> A then 1 else 0)"

text \<open>
  The accounting: a node has been counted once for every set it was reached in and left the
  frontier of. \<open>U\<close> bounds the nodes of the graph.
\<close>

definition traverse_inv :: "'d rrr_graph \<Rightarrow> nat \<Rightarrow> nat set \<Rightarrow> nat set \<Rightarrow> nat set \<Rightarrow> (nat \<Rightarrow> nat) \<Rightarrow>
    nat list \<Rightarrow> nat set \<Rightarrow> nat set \<Rightarrow> (nat \<Rightarrow> nat) \<Rightarrow> bool" where
  "traverse_inv g host U S0 Fr0 F0 Q S R F \<longleftrightarrow>
     distinct Q \<and> set Q \<union> R \<subseteq> S \<and> S \<subseteq> U \<and> S0 \<subseteq> S \<and>
     (\<forall>x\<in>set Q. rg_owner g x = host) \<and> (\<forall>x\<in>R. rg_owner g x \<noteq> host \<and> (x \<in> S0 \<longrightarrow> x \<in> Fr0)) \<and>
     (\<forall>x\<in>S. \<exists>y\<in>S0. (y, x) \<in> (rrr_rel g)\<^sup>*) \<and>
     (\<forall>x. F x + ind (set Q \<union> R) x + ind S0 x =
        F0 x + ind Fr0 x + ind S x)"

lemma visit_edge_inv:
  assumes inv: "traverse_inv g host U S0 Fr0 F0 Q S R F" and U: "finite U" "fst edge \<in> U"
    and dst: "\<exists>y\<in>S. (y, fst edge) \<in> rrr_rel g"
    and step: "visit_edge g host draw edge (Q, S, R, k) = (Q', S', R', k')"
  shows "traverse_inv g host U S0 Fr0 F0 Q' S' R' F" "S \<subseteq> S'"
    "card (U - S') + length Q' \<le> card (U - S) + length Q"
proof -
  obtain d w where e: "edge = (d, w)" by (cases edge)
  let ?thesis3 = "traverse_inv g host U S0 Fr0 F0 Q' S' R' F \<and> S \<subseteq> S' \<and>
    card (U - S') + length Q' \<le> card (U - S) + length Q"
  have ?thesis3
  proof (cases "draw k \<le> w \<and> d \<notin> S")
    case False
    then have "Q' = Q \<and> S' = S \<and> R' = R" using step by (auto simp: visit_edge_def e split: if_splits)
    then show ?thesis using inv by simp
  next
    case True
    have d: "d \<in> U" "d \<notin> set Q" "d \<notin> R" "d \<notin> S0"
      using inv True U by (auto simp: traverse_inv_def e)
    have old: "\<exists>y\<in>S0. (y, x) \<in> (rrr_rel g)\<^sup>*" if "x \<in> S" for x
      using inv that unfolding traverse_inv_def by blast
    obtain y where "y \<in> S" "(y, d) \<in> rrr_rel g" using dst e by auto
    with old [of y] have reach: "\<exists>y\<in>S0. (y, d) \<in> (rrr_rel g)\<^sup>*"
      by (meson rtrancl.rtrancl_into_rtrancl)
    have st: "S' = insert d S" "if rg_owner g d = host then Q' = Q @ [d] \<and> R' = R
        else Q' = Q \<and> R' = insert d R"
      using step True by (auto simp: visit_edge_def e split: if_splits)
    have acc: "\<forall>x. F x + ind (set Q' \<union> R') x + ind S0 x = F0 x + ind Fr0 x + ind S' x"
    proof
      fix x
      have "ind (set Q' \<union> R') x + ind S x = ind (set Q \<union> R) x + ind S' x"
        using st d True by (cases "x = d") (auto simp: ind_def e split: if_splits)
      moreover have "F x + ind (set Q \<union> R) x + ind S0 x = F0 x + ind Fr0 x + ind S x"
        using inv by (simp add: traverse_inv_def)
      ultimately show "F x + ind (set Q' \<union> R') x + ind S0 x = F0 x + ind Fr0 x + ind S' x"
        by linarith
    qed
    have old_struct: "distinct Q" "set Q \<union> R \<subseteq> S" "S \<subseteq> U" "S0 \<subseteq> S" "\<forall>x\<in>set Q. rg_owner g x = host"
      "\<forall>x\<in>R. rg_owner g x \<noteq> host \<and> (x \<in> S0 \<longrightarrow> x \<in> Fr0)"
      using inv by (simp_all add: traverse_inv_def)
    have struct: "distinct Q' \<and> set Q' \<union> R' \<subseteq> S' \<and> S' \<subseteq> U \<and> S0 \<subseteq> S' \<and>
       (\<forall>x\<in>set Q'. rg_owner g x = host) \<and> (\<forall>x\<in>R'. rg_owner g x \<noteq> host \<and> (x \<in> S0 \<longrightarrow> x \<in> Fr0))"
      using old_struct st d by (cases "rg_owner g d = host") auto
    have "\<forall>x\<in>S'. \<exists>y\<in>S0. (y, x) \<in> (rrr_rel g)\<^sup>*"
    proof
      fix x
      assume "x \<in> S'"
      then consider "x = d" | "x \<in> S" using st by blast
      then show "\<exists>y\<in>S0. (y, x) \<in> (rrr_rel g)\<^sup>*"
      proof cases
        case 1
        then show ?thesis using reach by simp
      next
        case 2
        then show ?thesis by (rule old)
      qed
    qed
    with acc struct have new: "traverse_inv g host U S0 Fr0 F0 Q' S' R' F"
      unfolding traverse_inv_def by blast
    have "card (U - insert d S) < card (U - S)"
      using d(1) True U(1) by (intro psubset_card_mono) (auto simp: e)
    moreover have "length Q' \<le> Suc (length Q)" using st(2) by (simp split: if_splits)
    ultimately have "card (U - S') + length Q' \<le> card (U - S) + length Q"
      unfolding st(1) by linarith
    moreover have "S \<subseteq> S'" using st(1) by blast
    ultimately show ?thesis using new by blast
  qed
  then show "traverse_inv g host U S0 Fr0 F0 Q' S' R' F" "S \<subseteq> S'"
    "card (U - S') + length Q' \<le> card (U - S) + length Q" by blast+
qed

lemma visit_edges_inv:
  assumes "traverse_inv g host U S0 Fr0 F0 Q S R F" "finite U" "u \<in> S"
    and "\<forall>e\<in>set es. fst e \<in> U \<and> (u, fst e) \<in> rrr_rel g"
    and "fold (visit_edge g host draw) es (Q, S, R, k) = (Q', S', R', k')"
  shows "traverse_inv g host U S0 Fr0 F0 Q' S' R' F \<and>
    card (U - S') + length Q' \<le> card (U - S) + length Q"
  using assms
proof (induction es arbitrary: Q S R k)
  case (Cons e es)
  obtain Q1 S1 R1 k1 where st: "visit_edge g host draw e (Q, S, R, k) = (Q1, S1, R1, k1)"
    by (metis prod_cases4)
  have "fst e \<in> U" "\<exists>y\<in>S. (y, fst e) \<in> rrr_rel g" using Cons.prems(3,4) by auto
  note one = visit_edge_inv [OF Cons.prems(1,2) this st]
  have "fold (visit_edge g host draw) es (Q1, S1, R1, k1) = (Q', S', R', k')"
    using Cons.prems(5) st by simp
  then show ?case
    using Cons.IH [OF one(1) Cons.prems(2)] Cons.prems(3,4) one(2,3) by fastforce
qed simp

definition graph_within :: "'d rrr_graph \<Rightarrow> nat set \<Rightarrow> bool" where
  "graph_within g U \<longleftrightarrow> finite U \<and> (\<forall>u\<in>U. \<forall>e\<in>set (rg_out g u). fst e \<in> U)"

lemma pop_inv:
  assumes "traverse_inv g host U S0 Fr0 F0 (gid # Q) S R F"
  shows "traverse_inv g host U S0 Fr0 F0 Q S R (F(gid := F gid + 1))" and "gid \<in> S"
proof -
  have gid: "gid \<notin> set Q" "gid \<notin> R" "gid \<in> S" using assms by (auto simp: traverse_inv_def)
  have "(F(gid := F gid + 1)) x + ind (set Q \<union> R) x = F x + ind (set (gid # Q) \<union> R) x" for x
    using gid by (simp add: ind_def)
  then show "traverse_inv g host U S0 Fr0 F0 Q S R (F(gid := F gid + 1))"
    using assms unfolding traverse_inv_def by auto
  show "gid \<in> S" by (rule gid(3))
qed

lemma traverse_ok:
  assumes "traverse_inv g host U S0 Fr0 F0 Q S R F" "graph_within g U"
  shows "\<exists>S' R' F'. traverse g host draw finish (Q, S, R, k) F = Some (S', R', F') \<and>
    traverse_inv g host U S0 Fr0 F0 [] S' R' F' \<and> (finish \<longrightarrow> S' = S \<and> R' = R)"
  using assms
proof (induction "card (U - S) + length Q" arbitrary: Q S R F k rule: less_induct)
  case less
  show ?case
  proof (cases Q)
    case Nil
    then show ?thesis using less.prems by (simp add: traverse.simps)
  next
    case (Cons gid Q1')
    note pop = pop_inv [OF less.prems(1) [unfolded Cons]]
    show ?thesis
    proof (cases finish)
      case True
      then show ?thesis
        using less.hyps [OF _ pop(1) less.prems(2)] Cons by (simp add: traverse.simps [of _ _ _ _ "(gid # Q1', S, R, k)"])
    next
      case False
      obtain Q1 S1 R1 k1 where st: "fold (visit_edge g host draw) (rg_out g gid) (Q1', S, R, k) =
        (Q1, S1, R1, k1)" by (metis prod_cases4)
      have gid: "gid \<in> U" using pop(2) less.prems(1) by (auto simp: traverse_inv_def)
      have edges: "\<forall>e\<in>set (rg_out g gid). fst e \<in> U \<and> (gid, fst e) \<in> rrr_rel g"
        using less.prems(2) gid by (auto simp: graph_within_def rrr_rel_def)
      have "finite U" using less.prems(2) by (simp add: graph_within_def)
      note one = visit_edges_inv [OF pop(1) this pop(2) edges st]
      then have "card (U - S1) + length Q1 < card (U - S) + length Q" by (simp add: Cons)
      from less.hyps [OF this _ less.prems(2), of R1 "F(gid := F gid + 1)" k1] one False st Cons
      show ?thesis by (simp add: traverse.simps [of _ _ _ _ "(gid # Q1', S, R, k)"])
    qed
  qed
qed

text \<open>The contract of one call.\<close>

definition ps_ok :: "nat set \<Rightarrow> partial_set \<Rightarrow> bool" where
  "ps_ok U p \<longleftrightarrow> ps_frontier p \<subseteq> ps_reached p \<and> ps_reached p \<subseteq> U"

lemma continue_set_ok:
  assumes p: "ps_ok U p" and g: "graph_within g U" and enum: "enum_ok enum"
  shows "\<exists>p' F'. continue_set g enum host draw finish p F = Some (p', F') \<and>
    ps_ok U p' \<and> ps_id p' = ps_id p \<and> ps_owner p' = ps_owner p \<and>
    (\<forall>x\<in>ps_frontier p'. rg_owner g x \<noteq> host \<and> (x \<in> ps_reached p \<longrightarrow> x \<in> ps_frontier p)) \<and>
    (finish \<longrightarrow> ps_frontier p' = {}) \<and>
    (\<forall>x\<in>ps_reached p. x \<in> ps_reached p' \<or> finish \<and> x \<in> ps_frontier p \<and> rg_owner g x \<noteq> host) \<and>
    (\<forall>x\<in>ps_reached p'. \<exists>y\<in>ps_reached p. (y, x) \<in> (rrr_rel g)\<^sup>*) \<and>
    (\<forall>x. F' x + ind (ps_frontier p') x + ind (ps_reached p) x =
       F x + ind (ps_frontier p) x + ind (ps_reached p') x)"
proof -
  let ?S = "ps_reached p" and ?Fr = "ps_frontier p"
  let ?Q = "filter (\<lambda>gid. rg_owner g gid = host) (enum ?Fr)"
  let ?R = "{gid \<in> ?Fr. rg_owner g gid \<noteq> host}"
  have fin: "finite ?Fr"
    using p g by (meson finite_subset graph_within_def ps_ok_def)
  then have e: "set (enum ?Fr) = ?Fr" "distinct (enum ?Fr)" using enum by (auto simp: enum_ok_def)
  have "traverse_inv g host U ?S ?Fr F ?Q ?S ?R F"
    using p e by (auto simp: traverse_inv_def ps_ok_def ind_def)
  from traverse_ok [OF this g, of draw finish 0] obtain S' R' F' where
    run: "traverse g host draw finish (?Q, ?S, ?R, 0) F = Some (S', R', F')"
    and inv: "traverse_inv g host U ?S ?Fr F [] S' R' F'"
    and fin: "finish \<longrightarrow> S' = ?S \<and> R' = ?R" by blast
  show ?thesis
  proof (cases finish)
    case True
    have eq: "S' = ?S" "R' = ?R" using fin True by simp_all
    have count: "F' x + ind ?R x = F x + ind ?Fr x" for x
      using inv unfolding traverse_inv_def eq by simp
    have "F' x + ind ?S x = F x + ind ?Fr x + ind (?S - ?R) x" for x
      using count [of x] p by (auto simp: ps_ok_def ind_def split: if_splits)
    then show ?thesis
      using run True inv p by (auto simp: continue_set_def Let_def eq ps_ok_def traverse_inv_def ind_def)
  next
    case False
    then show ?thesis
      using run inv p by (auto simp: continue_set_def Let_def ps_ok_def traverse_inv_def)
  qed
qed

end
