(* ===== verification/Wf4RrrHosts.thy ===== *)
theory Wf4RrrHosts
  imports Wf4Rrr
begin

text \<open>
  The reverse reachable sets over all hosts: the wire format of a partial set, the loop over
  the partial sets of a host (\<open>GenerateRandomReversibleReachableSets\<close>), the exchange
  (\<open>ExchangePartialSets\<close>) and the driver (\<open>GetRandomReverseReachableSets\<close>) of
  wf4/src/influence\_maximization.cpp. The hosts of a round run one after the other here:
  between two barriers they share nothing but the frequencies, and a frequency is written
  only by the owner of its node.
\<close>

section \<open>The wire format\<close>

text \<open>A buffer is a sequence of 64-bit words, or the single byte sent for an empty one.\<close>

datatype message = Byte_a | Words "nat list"

definition buf_size :: "message \<Rightarrow> nat" where
  "buf_size m = (case m of Byte_a \<Rightarrow> 1 | Words ws \<Rightarrow> 8 * length ws)"

definition seal_buffer :: "nat list \<Rightarrow> message" where
  "seal_buffer ws = (if ws = [] then Byte_a else Words ws)"

definition serialize_set :: "(nat set \<Rightarrow> nat list) \<Rightarrow> partial_set \<Rightarrow> nat list" where
  "serialize_set enum p = [ps_id p, ps_owner p, card (ps_reached p), card (ps_frontier p)] @
     enum (ps_reached p) @ enum (ps_frontier p)"

fun deserialize_set :: "nat list \<Rightarrow> (partial_set \<times> nat list) res" where
  "deserialize_set (i # owner # reachable_size # frontier_size # ws) =
     (if reachable_size + frontier_size \<le> length ws
      then Inr (\<lparr>ps_id = i, ps_owner = owner, ps_reached = set (take reachable_size ws),
                 ps_frontier = set (take frontier_size (drop reachable_size ws))\<rparr>,
                drop (reachable_size + frontier_size) ws)
      else Inl OutOfRange)"
| "deserialize_set _ = Inl OutOfRange"

lemma deserialize_shorter: "deserialize_set ws = Inr (p, ws') \<Longrightarrow> length ws' < length ws"
  by (induction ws rule: deserialize_set.induct) (auto split: if_splits)

function deserialize_sets :: "nat list \<Rightarrow> partial_set list res" where
  "deserialize_sets ws =
     (if ws = [] then Inr []
      else res_bind (deserialize_set ws) (\<lambda>r. res_map ((#) (fst r)) (deserialize_sets (snd r))))"
  by pat_completeness auto
termination
  by (relation "measure length") (auto dest: deserialize_shorter)

declare deserialize_sets.simps [simp del]

definition read_message :: "message \<Rightarrow> partial_set list res" where
  "read_message m =
     (if buf_size m < 16 then Inr []
      else case m of Byte_a \<Rightarrow> Inl OutOfRange | Words ws \<Rightarrow> deserialize_sets ws)"

lemma deserialize_serialize:
  assumes "finite (ps_reached p)" "finite (ps_frontier p)" "enum_ok enum"
  shows "deserialize_set (serialize_set enum p @ ws) = Inr (p, ws)"
proof -
  have "set (enum A) = A" "length (enum A) = card A" if "finite A" for A
    using assms(3) that distinct_card [of "enum A"] by (simp_all add: enum_ok_def)
  from this [OF assms(1)] this [OF assms(2)] show ?thesis by (simp add: serialize_set_def)
qed

lemma deserialize_all:
  assumes "enum_ok enum" "\<forall>p\<in>set ps. finite (ps_reached p) \<and> finite (ps_frontier p)"
  shows "deserialize_sets (concat (map (serialize_set enum) ps)) = Inr ps"
  using assms(2)
proof (induction ps)
  case Nil
  then show ?case by (simp add: deserialize_sets.simps)
next
  case (Cons p ps)
  let ?ws = "serialize_set enum p @ concat (map (serialize_set enum) ps)"
  have "?ws \<noteq> []" by (simp add: serialize_set_def)
  moreover have "deserialize_set ?ws = Inr (p, concat (map (serialize_set enum) ps))"
    using Cons.prems by (intro deserialize_serialize assms(1)) auto
  ultimately have "deserialize_sets ?ws =
      res_map ((#) p) (deserialize_sets (concat (map (serialize_set enum) ps)))"
    by (subst deserialize_sets.simps) (simp only: if_False res_bind_simps fst_conv snd_conv)
  then show ?case using Cons by simp
qed

text \<open>A message that carries a set is never taken for an empty one.\<close>

lemma read_sealed:
  assumes "enum_ok enum" "\<forall>p\<in>set ps. finite (ps_reached p) \<and> finite (ps_frontier p)"
  shows "read_message (seal_buffer (concat (map (serialize_set enum) ps))) = Inr ps"
proof (cases ps)
  case Nil
  then show ?thesis by (simp add: read_message_def seal_buffer_def buf_size_def)
next
  case (Cons q qs)
  let ?ws = "concat (map (serialize_set enum) ps)"
  have "2 \<le> length ?ws" by (simp add: Cons serialize_set_def)
  moreover from this have "?ws \<noteq> []" by (metis list.size(3) not_numeral_le_zero)
  ultimately show ?thesis
    using deserialize_all [OF assms]
    by (simp only: read_message_def seal_buffer_def buf_size_def if_False message.case) simp
qed

section \<open>One host\<close>

record rrr_host =
  rh_freq :: "nat \<Rightarrow> nat"
  rh_slots :: "nat set list"
  rh_out :: "partial_set list list"

definition generate_set :: "'d::linordered_field rrr_graph \<Rightarrow> (nat set \<Rightarrow> nat list) \<Rightarrow>
    (nat \<Rightarrow> nat \<Rightarrow> nat \<Rightarrow> 'd) \<Rightarrow> nat \<Rightarrow> bool \<Rightarrow> nat \<times> partial_set \<Rightarrow> rrr_host \<Rightarrow> rrr_host res" where
  "generate_set g enum draw host finish ip st = (case ip of (i, p) \<Rightarrow>
     res_bind (returns (continue_set g enum host (draw (ps_id p) i) finish p (rh_freq st)))
       (\<lambda>(p', freq').
          if ps_owner p' = host \<and> (finish \<or> ps_finished p')
          then res_map (\<lambda>slots. st\<lparr>rh_freq := freq', rh_slots := slots\<rparr>)
                 (vec_set (rh_slots st) (ps_id p') (ps_reached p'))
          else res_map (\<lambda>out. st\<lparr>rh_freq := freq', rh_out := out\<rparr>)
                 (vec_update (rh_out st) (next_host g enum finish p') (\<lambda>box. box @ [p']))))"

definition generate_sets :: "galois_rt \<Rightarrow> nat \<Rightarrow> 'd::linordered_field rrr_graph \<Rightarrow>
    (nat set \<Rightarrow> nat list) \<Rightarrow> (nat \<Rightarrow> nat \<Rightarrow> nat \<Rightarrow> 'd) \<Rightarrow> nat \<Rightarrow> bool \<Rightarrow> partial_set list \<Rightarrow>
    rrr_host \<Rightarrow> rrr_host res" where
  "generate_sets rt k g enum draw host finish parts st =
     do_all rt k (generate_set g enum draw host finish) (enumerate 0 parts) st"

section \<open>All hosts\<close>

text \<open>
  Each host's slots (\<open>reachable_sets\<close>) and its current partial sets; one frequency per node.
\<close>

record rrr_net =
  rn_freq :: "nat \<Rightarrow> nat"
  rn_slots :: "nat set list list"
  rn_parts :: "partial_set list list"
  rn_out :: "partial_set list list list"

definition generate_host :: "galois_rt \<Rightarrow> nat \<Rightarrow> 'd::linordered_field rrr_graph \<Rightarrow>
    (nat set \<Rightarrow> nat list) \<Rightarrow> (nat \<Rightarrow> nat \<Rightarrow> nat \<Rightarrow> 'd) \<Rightarrow> bool \<Rightarrow> nat \<Rightarrow> rrr_net \<Rightarrow> rrr_net res" where
  "generate_host rt k g enum draw finish h net =
     res_map (\<lambda>st. net\<lparr>rn_freq := rh_freq st, rn_slots := (rn_slots net)[h := rh_slots st],
         rn_parts := (rn_parts net)[h := []], rn_out := (rn_out net)[h := rh_out st]\<rparr>)
       (generate_sets rt k g enum draw h finish (rn_parts net ! h)
          \<lparr>rh_freq = rn_freq net, rh_slots = rn_slots net ! h, rh_out = rn_out net ! h\<rparr>)"

definition generate_all :: "galois_rt \<Rightarrow> nat \<Rightarrow> 'd::linordered_field rrr_graph \<Rightarrow>
    (nat set \<Rightarrow> nat list) \<Rightarrow> (nat \<Rightarrow> nat \<Rightarrow> nat \<Rightarrow> 'd) \<Rightarrow> nat \<Rightarrow> bool \<Rightarrow> rrr_net \<Rightarrow> rrr_net res" where
  "generate_all rt rnd g enum draw n finish net =
     fold_res (\<lambda>h. generate_host rt (rnd * n + h) g enum draw finish h) [0..<n] net"

text \<open>
  What host \<open>h\<close> has after the exchange: the buffers in the order of their senders. A host
  sends nothing to itself; the buffer of its own slot stays empty.
\<close>

fun concat_res :: "'a list res list \<Rightarrow> 'a list res" where
  "concat_res [] = Inr []"
| "concat_res (m # ms) = res_bind m (\<lambda>xs. res_map ((@) xs) (concat_res ms))"

definition receive :: "(nat set \<Rightarrow> nat list) \<Rightarrow> nat \<Rightarrow> partial_set list list list \<Rightarrow> nat \<Rightarrow>
    partial_set list res" where
  "receive enum n out h =
     concat_res (map (\<lambda>s. read_message
       (if s = h then Words []
        else seal_buffer (concat (map (serialize_set enum) (out ! s ! h))))) [0..<n])"

fun all_res :: "'a res list \<Rightarrow> 'a list res" where
  "all_res [] = Inr []"
| "all_res (m # ms) = res_bind m (\<lambda>x. res_map ((#) x) (all_res ms))"

definition exchange :: "(nat set \<Rightarrow> nat list) \<Rightarrow> nat \<Rightarrow> rrr_net \<Rightarrow> rrr_net res" where
  "exchange enum n net =
     res_map (\<lambda>parts. net\<lparr>rn_parts := parts, rn_out := replicate n (replicate n [])\<rparr>)
       (all_res (map (receive enum n (rn_out net)) [0..<n]))"

text \<open>The driver.\<close>

definition host_sets :: "nat \<Rightarrow> nat \<Rightarrow> nat \<Rightarrow> nat" where
  "host_sets n global_sets host =
     (if host = n - 1 then u64_sub global_sets (u64_mul (n - 1) (global_sets div n))
      else global_sets div n)"

text \<open>
  \<open>uniform seed stream b\<close>: the number between \<open>0\<close> and \<open>b\<close> drawn first by the generator with
  the given seed and stream.
\<close>

definition seed_node :: "(nat \<Rightarrow> nat \<Rightarrow> nat \<Rightarrow> nat) \<Rightarrow> nat \<Rightarrow> nat list \<Rightarrow> nat \<Rightarrow> nat \<Rightarrow> partial_set" where
  "seed_node uniform seed masters host i =
     new_partial_set i host (masters ! uniform seed (u64_mul (1 + host) i) (u64_sub (length masters) 1))"

definition initial_net :: "(nat \<Rightarrow> nat \<Rightarrow> nat \<Rightarrow> nat) \<Rightarrow> nat \<Rightarrow> nat list list \<Rightarrow> nat \<Rightarrow> rrr_net" where
  "initial_net uniform seed masters global_sets =
     (let n = length masters in
      \<lparr>rn_freq = (\<lambda>_. 0),
       rn_slots = map (\<lambda>h. replicate (host_sets n global_sets h) {}) [0..<n],
       rn_parts = map (\<lambda>h. map (seed_node uniform seed (masters ! h) h)
         [0..<host_sets n global_sets h]) [0..<n],
       rn_out = replicate n (replicate n [])\<rparr>)"

fun run_epochs :: "galois_rt \<Rightarrow> 'd::linordered_field rrr_graph \<Rightarrow> (nat set \<Rightarrow> nat list) \<Rightarrow>
    (nat \<Rightarrow> nat \<Rightarrow> nat \<Rightarrow> 'd) \<Rightarrow> nat \<Rightarrow> nat \<Rightarrow> nat \<Rightarrow> rrr_net \<Rightarrow> rrr_net res" where
  "run_epochs rt g enum draw n 0 epoch net = Inr net"
| "run_epochs rt g enum draw n (Suc epochs) epoch net =
     res_bind (res_bind (generate_all rt epoch g enum draw n False net) (exchange enum n))
       (run_epochs rt g enum draw n epochs (epoch + 1))"

definition get_reachable_sets :: "galois_rt \<Rightarrow> 'd::linordered_field rrr_graph \<Rightarrow>
    (nat set \<Rightarrow> nat list) \<Rightarrow> (nat \<Rightarrow> nat \<Rightarrow> nat \<Rightarrow> 'd) \<Rightarrow> (nat \<Rightarrow> nat \<Rightarrow> nat \<Rightarrow> nat) \<Rightarrow> nat list list \<Rightarrow>
    nat \<Rightarrow> nat \<Rightarrow> nat \<Rightarrow> ((nat \<Rightarrow> nat) \<times> nat set list list) res" where
  "get_reachable_sets rt g enum draw uniform masters global_sets seed epochs =
     (let n = length masters in
      res_bind (run_epochs rt g enum draw n epochs 0 (initial_net uniform seed masters global_sets))
        (\<lambda>net. res_bind (res_bind (generate_all rt epochs g enum draw n True net) (exchange enum n))
          (\<lambda>net'. res_map (\<lambda>r. (rn_freq r, rn_slots r))
            (generate_all rt (epochs + 1) g enum draw n True net'))))"

end
