(* ===== verification/Wf4Quiesce.thy ===== *)
theory Wf4Quiesce
  imports Wf4Edges Wf4RrrHosts Complex_Main
begin

text \<open>
  Cancellation and quiescence of trades (wf4/src/quiesce.cpp). The hosts and their nodes are
  those of Wf4Edges; the updates of mirrors by Gluon are parameters. An iteration of a
  parallel loop is one step here; the theory Wf4Market takes the iterations of
  \<open>TryQuiesceNode\<close> apart. Doubles are elements of an ordered field; how one is sent as an
  integer is modelled bit by bit.
\<close>

section \<open>Cancelling nodes\<close>

definition cancel :: "'d::zero network_node \<Rightarrow> 'd network_node" where
  "cancel n = n\<lparr>nn_sold := 0, nn_bought := 0, nn_desired := 0\<rparr>"

definition cancel_edge :: "(nat \<Rightarrow> nat) \<Rightarrow> nat \<Rightarrow> nat \<times> 'd::linordered_field trade_edge \<Rightarrow> 'd host \<Rightarrow>
    'd host" where
  "cancel_edge owner host p H = (case p of (dst, edge) \<Rightarrow>
     if te_type edge = SALE then
       (let H1 = (if owner dst \<noteq> host then upd_node dst (\<lambda>n. n\<lparr>nn_bought := min (nn_bought n) 0\<rparr>) H else H);
            H2 = atomic_add_bought dst (- te_amount edge) H1
        in H2\<lparr>h_bought_bits := insert dst (h_bought_bits H2)\<rparr>)
     else if te_type edge = PURCHASE then
       (let H1 = (if owner dst \<noteq> host then upd_node dst (\<lambda>n. n\<lparr>nn_sold := min (nn_sold n) 0\<rparr>) H else H);
            H2 = atomic_add_sold dst (- te_amount edge) H1
        in H2\<lparr>h_sold_bits := insert dst (h_sold_bits H2)\<rparr>)
     else H)"

definition cancel_node :: "(nat \<Rightarrow> nat) \<Rightarrow> (nat \<Rightarrow> nat \<Rightarrow> bool) \<Rightarrow> nat \<Rightarrow> nat \<Rightarrow>
    'd::linordered_field host \<Rightarrow> 'd host res" where
  "cancel_node owner is_local host node H =
     Inr (if \<not> is_local host node then H
          else let H1 = upd_node node cancel H
               in if owner node \<noteq> host then H1 else fold (cancel_edge owner host) (h_edges H1 node) H1)"

definition cancel_host :: "galois_rt \<Rightarrow> (nat \<Rightarrow> nat) \<Rightarrow> (nat \<Rightarrow> nat \<Rightarrow> bool) \<Rightarrow> nat list \<Rightarrow> nat \<Rightarrow>
    'd::linordered_field host \<Rightarrow> 'd host res" where
  "cancel_host rt owner is_local nodes host H =
     do_all rt 0 (cancel_node owner is_local host) nodes
       (H\<lparr>h_bought_bits := {}, h_sold_bits := {}\<rparr>)"

definition cancel_again :: "(nat \<Rightarrow> nat \<Rightarrow> bool) \<Rightarrow> nat list \<Rightarrow> nat \<Rightarrow> 'd::linordered_field host \<Rightarrow> 'd host" where
  "cancel_again is_local nodes host H =
     fold (\<lambda>node H. if \<not> is_local host node then H else upd_node node cancel H) nodes H"

definition cancel_nodes :: "galois_rt \<Rightarrow> (nat \<Rightarrow> nat) \<Rightarrow> (nat \<Rightarrow> nat \<Rightarrow> bool) \<Rightarrow>
    ('d::linordered_field host list \<Rightarrow> 'd host list) \<Rightarrow> ('d host list \<Rightarrow> 'd host list) \<Rightarrow> nat list \<Rightarrow>
    'd host list \<Rightarrow> 'd host list res" where
  "cancel_nodes rt owner is_local gluon_bought gluon_sold nodes hosts =
     res_map (\<lambda>hs. map (\<lambda>(h, H). cancel_again is_local nodes h H)
         (enumerate 0 (gluon_sold (gluon_bought hs))))
       (map_res (\<lambda>(h, H). cancel_host rt owner is_local nodes h H) (enumerate 0 hosts))"

section \<open>Quiescing a node\<close>

record 'd proposed_edge =
  pe_src :: nat
  pe_dst :: nat
  pe_weight :: 'd

text \<open>Two proposals are equal if their endpoints are; a second one is not inserted.\<close>

definition same_edge :: "'d proposed_edge \<Rightarrow> 'd proposed_edge \<Rightarrow> bool" where
  "same_edge p q \<longleftrightarrow> pe_src p = pe_src q \<and> pe_dst p = pe_dst q"

definition add_proposed :: "'d proposed_edge \<Rightarrow> 'd proposed_edge list \<Rightarrow> 'd proposed_edge list" where
  "add_proposed p es = (if \<exists>q\<in>set es. same_edge p q then es else es @ [p])"

type_synonym 'd market = "'d host \<times> 'd proposed_edge list list"

fun quiesce_edges :: "(nat \<Rightarrow> nat) \<Rightarrow> nat \<Rightarrow> nat \<Rightarrow> (nat \<times> 'd::linordered_field trade_edge) list \<Rightarrow>
    'd \<Rightarrow> 'd market \<Rightarrow> 'd market res" where
  "quiesce_edges owner host node [] needed st = Inr st"
| "quiesce_edges owner host node ((seller, edge_data) # es) needed (H, R) =
     (if needed \<le> 0 then Inr (H, R)
      else if te_type edge_data \<noteq> PURCHASE then quiesce_edges owner host node es needed (H, R)
      else
        let seller_surplus = nn_bought (h_node H seller) - nn_sold (h_node H seller);
            trade_delta = min needed seller_surplus
        in if trade_delta \<le> 0 then quiesce_edges owner host node es needed (H, R)
           else
             let H1 = atomic_add_sold seller trade_delta H;
                 seller_sold = nn_sold (h_node H seller) + trade_delta
             in if seller_sold > nn_bought (h_node H1 seller)
                then quiesce_edges owner host node es needed (atomic_add_sold seller (- trade_delta) H1, R)
                else if owner seller = host
                then let H2 = atomic_add_bought node trade_delta H1
                     in quiesce_edges owner host node es (needed - trade_delta)
                          (H2\<lparr>h_bought_bits := insert node (h_bought_bits H2),
                              h_sold_bits := insert seller (h_sold_bits H2)\<rparr>, R)
                else res_bind (vec_update R (owner seller)
                       (add_proposed \<lparr>pe_src = node, pe_dst = seller, pe_weight = trade_delta\<rparr>))
                     (\<lambda>R'. quiesce_edges owner host node es (needed - trade_delta) (H1, R')))"

definition try_quiesce_node :: "(nat \<Rightarrow> nat) \<Rightarrow> nat \<Rightarrow> nat \<Rightarrow> 'd::linordered_field market \<Rightarrow>
    'd market res" where
  "try_quiesce_node owner host node st =
     (let node_data = h_node (fst st) node
      in quiesce_edges owner host node (h_edges (fst st) node)
           (nn_desired node_data - nn_bought node_data) st)"

section \<open>The two exchanges\<close>

definition try_add_edge :: "(nat \<Rightarrow> nat) \<Rightarrow> 'd::linordered_field proposed_edge \<Rightarrow> 'd market \<Rightarrow>
    'd market res" where
  "try_add_edge owner edge st = (case st of (H, R) \<Rightarrow>
     let seller = pe_dst edge;
         seller_surplus = nn_bought (h_node H seller) - nn_sold (h_node H seller);
         trade_delta = min (pe_weight edge) seller_surplus
     in if trade_delta \<le> 0 then Inr (H, R)
        else
          let H1 = atomic_add_sold seller trade_delta H;
              seller_sold = nn_sold (h_node H seller) + trade_delta
          in if seller_sold > nn_bought (h_node H1 seller)
             then Inr (atomic_add_sold seller (- trade_delta) H1, R)
             else res_map (\<lambda>R'. (H1\<lparr>h_sold_bits := insert seller (h_sold_bits H1)\<rparr>, R'))
                    (vec_update R (owner (pe_src edge))
                      (add_proposed \<lparr>pe_src = pe_src edge, pe_dst = pe_dst edge, pe_weight = trade_delta\<rparr>)))"

definition add_purchase_edge :: "'d::linordered_field proposed_edge \<Rightarrow> 'd host \<Rightarrow> 'd host res" where
  "add_purchase_edge edge H =
     (let H1 = atomic_add_bought (pe_src edge) (pe_weight edge) H
      in Inr (H1\<lparr>h_bought_bits := insert (pe_src edge) (h_bought_bits H1)\<rparr>))"

text \<open>
  The weight on the wire: the sender stores the double in an array of \<open>uint64_t\<close>, which
  converts it (the fraction is cut off; undefined outside the range), the receiver reads the
  same eight bytes as a double. A pattern for an infinity or a NaN has no value here.
\<close>

definition u64_of_double :: "'d::floor_ceiling \<Rightarrow> nat res" where
  "u64_of_double x = (if - 1 < x \<and> x < 2 ^ 64 then Inr (nat \<lfloor>x\<rfloor>) else Inl Indeterminate)"

definition double_of_bits :: "nat \<Rightarrow> 'd::floor_ceiling res" where
  "double_of_bits w =
     (let mantissa = w mod 2 ^ 52; expo = w div 2 ^ 52 mod 2 ^ 11;
          sign = (if w div 2 ^ 63 = 0 then 1 else - 1)
      in if expo = 2047 then Inl Indeterminate
         else if expo = 0 then Inr (sign * of_nat mantissa / 2 ^ 1074)
         else Inr (sign * of_nat (2 ^ 52 + mantissa) * 2 ^ expo / 2 ^ 1075))"

definition serialize_set_edges :: "'d::floor_ceiling proposed_edge list \<Rightarrow> nat list res" where
  "serialize_set_edges es =
     res_map (\<lambda>ws. length es # concat ws)
       (map_res (\<lambda>e. res_map (\<lambda>w. [pe_src e, pe_dst e, w]) (u64_of_double (pe_weight e))) es)"

definition incoming_edge :: "nat list \<Rightarrow> nat \<Rightarrow> 'd::floor_ceiling proposed_edge res" where
  "incoming_edge data i =
     res_bind (vec_get data (3 * i)) (\<lambda>src. res_bind (vec_get data (3 * i + 1)) (\<lambda>dst.
       res_bind (vec_get data (3 * i + 2)) (\<lambda>w. res_map (\<lambda>x.
         \<lparr>pe_src = src, pe_dst = dst, pe_weight = x\<rparr>) (double_of_bits w))))"

definition incoming_edges :: "message \<Rightarrow> 'd::floor_ceiling proposed_edge list res" where
  "incoming_edges m =
     (if buf_size m < 16 then Inr []
      else case m of
        Byte_a \<Rightarrow> Inl OutOfRange
      | Words ws \<Rightarrow> map_res (incoming_edge (tl ws)) [0..<hd ws])"

text \<open>What host \<open>h\<close> receives, by sender, and the sets that stay.\<close>

definition send_new_edges :: "'d::floor_ceiling proposed_edge list list list \<Rightarrow> nat \<Rightarrow>
    'd proposed_edge list list res" where
  "send_new_edges Rs h =
     map_res (\<lambda>s. if s = h then Inr []
       else res_bind (serialize_set_edges (Rs ! s ! h)) (\<lambda>ws. incoming_edges (seal_buffer ws)))
       [0..<length Rs]"

definition cleared :: "'d proposed_edge list list \<Rightarrow> nat \<Rightarrow> 'd proposed_edge list list" where
  "cleared R h = map (\<lambda>d. if d = h then R ! d else []) [0..<length R]"

section \<open>The whole graph\<close>

definition quiesce_host :: "galois_rt \<Rightarrow> (nat \<Rightarrow> nat) \<Rightarrow> nat \<Rightarrow> nat \<Rightarrow> 'd::linordered_field host \<Rightarrow>
    'd market res" where
  "quiesce_host rt owner n h H =
     do_all rt 0 (try_quiesce_node owner h) (h_masters H)
       (H\<lparr>h_bought_bits := {}, h_sold_bits := {}\<rparr>, replicate n [])"

definition try_add_edges :: "galois_rt \<Rightarrow> (nat \<Rightarrow> nat) \<Rightarrow> 'd::linordered_field proposed_edge list list \<Rightarrow>
    'd market \<Rightarrow> 'd market res" where
  "try_add_edges rt owner incoming st = fold_res (do_all rt 1 (try_add_edge owner)) incoming st"

definition add_purchase_edges :: "galois_rt \<Rightarrow> 'd::linordered_field proposed_edge list list \<Rightarrow>
    'd host \<Rightarrow> 'd host res" where
  "add_purchase_edges rt decided H = fold_res (do_all rt 2 add_purchase_edge) decided H"

definition quiesce_graph :: "galois_rt \<Rightarrow> (nat \<Rightarrow> nat) \<Rightarrow> ('d::floor_ceiling host list \<Rightarrow> 'd host list) \<Rightarrow>
    ('d host list \<Rightarrow> 'd host list) \<Rightarrow> 'd host list \<Rightarrow> 'd host list res" where
  "quiesce_graph rt owner gluon_sold gluon_bought hosts =
     (let n = length hosts in
      res_bind (map_res (\<lambda>h. quiesce_host rt owner n h (hosts ! h)) [0..<n]) (\<lambda>ms.
      res_bind (map_res (send_new_edges (map snd ms)) [0..<n]) (\<lambda>potential.
      res_bind (map_res (\<lambda>h. try_add_edges rt owner (potential ! h)
        (fst (ms ! h), cleared (snd (ms ! h)) h)) [0..<n]) (\<lambda>ms'.
      res_bind (map_res (send_new_edges (map snd ms')) [0..<n]) (\<lambda>decided.
      res_map (\<lambda>hs. gluon_bought (gluon_sold hs))
        (map_res (\<lambda>h. add_purchase_edges rt (decided ! h) (fst (ms' ! h))) [0..<n]))))))"

end
