(* ===== verification/Wf4Cancel.thy ===== *)
theory Wf4Cancel
  imports Wf4Quiesce
begin

text \<open>
  What a cancellation of the whole graph does: the exact effect of \<open>CancelNodes\<close> on the nodes
  that stay, and what the cancelled ones show.
\<close>

section \<open>The effect of cancelled edges\<close>

definition touches :: "types \<Rightarrow> nat \<Rightarrow> (nat \<times> 'd::linordered_field trade_edge) list \<Rightarrow> bool" where
  "touches ty v es \<longleftrightarrow> (\<exists>p\<in>set es. fst p = v \<and> te_type (snd p) = ty)"

definition edge_total :: "types \<Rightarrow> nat \<Rightarrow> (nat \<times> 'd::linordered_field trade_edge) list \<Rightarrow> 'd" where
  "edge_total ty v es =
     (\<Sum>p\<leftarrow>es. if fst p = v \<and> te_type (snd p) = ty then te_amount (snd p) else 0)"

definition reduced :: "bool \<Rightarrow> types \<Rightarrow> nat \<Rightarrow> (nat \<times> 'd::linordered_field trade_edge) list \<Rightarrow> 'd \<Rightarrow> 'd" where
  "reduced owned ty v es b =
     (if owned then b - edge_total ty v es
      else if touches ty v es then min b 0 - edge_total ty v es else b)"

definition positive :: "(nat \<times> 'd::linordered_field trade_edge) list \<Rightarrow> bool" where
  "positive es \<longleftrightarrow> (\<forall>p\<in>set es. 0 < te_amount (snd p))"

lemma edge_total_append: "edge_total ty v (es @ fs) = edge_total ty v es + edge_total ty v fs"
  by (simp add: edge_total_def)

lemma edge_total_nonneg: "positive es \<Longrightarrow> 0 \<le> edge_total ty v es"
  by (induction es) (auto simp: positive_def edge_total_def)

lemma edge_total_untouched: "\<not> touches ty v es \<Longrightarrow> edge_total ty v es = 0"
  by (induction es) (auto simp: touches_def edge_total_def)

lemma reduced_append:
  assumes "positive es"
  shows "reduced owned ty v fs (reduced owned ty v es b) = reduced owned ty v (es @ fs) b"
  using edge_total_nonneg [OF assms, of ty v] edge_total_untouched [of ty v es]
    edge_total_untouched [of ty v fs]
  by (auto simp: reduced_def edge_total_append touches_def min_def)

lemma cancel_edge_facts:
  assumes "0 < te_amount (snd p)"
  shows "nn_bought (h_node (cancel_edge owner host p H) v) =
      reduced (owner v = host) SALE v [p] (nn_bought (h_node H v))"
    "nn_sold (h_node (cancel_edge owner host p H) v) =
      reduced (owner v = host) PURCHASE v [p] (nn_sold (h_node H v))"
    "v \<in> h_bought_bits (cancel_edge owner host p H) \<longleftrightarrow> v \<in> h_bought_bits H \<or> touches SALE v [p]"
    "v \<in> h_sold_bits (cancel_edge owner host p H) \<longleftrightarrow> v \<in> h_sold_bits H \<or> touches PURCHASE v [p]"
    "h_edges (cancel_edge owner host p H) = h_edges H"
  using assms by (cases p; auto simp: cancel_edge_def reduced_def touches_def edge_total_def upd_node_def
      atomic_add_bought_def atomic_add_sold_def Let_def)+

lemma cancel_edges_facts:
  assumes "positive es"
  shows "nn_bought (h_node (fold (cancel_edge owner host) es H) v) =
      reduced (owner v = host) SALE v es (nn_bought (h_node H v)) \<and>
    nn_sold (h_node (fold (cancel_edge owner host) es H) v) =
      reduced (owner v = host) PURCHASE v es (nn_sold (h_node H v)) \<and>
    (v \<in> h_bought_bits (fold (cancel_edge owner host) es H) \<longleftrightarrow>
      v \<in> h_bought_bits H \<or> touches SALE v es) \<and>
    (v \<in> h_sold_bits (fold (cancel_edge owner host) es H) \<longleftrightarrow>
      v \<in> h_sold_bits H \<or> touches PURCHASE v es) \<and>
    h_edges (fold (cancel_edge owner host) es H) = h_edges H"
  using assms
proof (induction es arbitrary: H)
  case Nil
  show ?case by (simp add: reduced_def touches_def edge_total_def)
next
  case (Cons p es)
  have p: "0 < te_amount (snd p)" "positive [p]" "positive es"
    using Cons.prems by (simp_all add: positive_def)
  have glue: "reduced ow ty v es (reduced ow ty v [p] b) = reduced ow ty v (p # es) b" for ow ty b
    using reduced_append [OF p(2), of ow ty v es b] by simp
  have touch: "touches ty v (p # es) \<longleftrightarrow> touches ty v [p] \<or> touches ty v es" for ty
    by (auto simp: touches_def)
  show ?case
    using Cons.IH [OF p(3), of "cancel_edge owner host p H"]
    unfolding fold_simps cancel_edge_facts [OF p(1)] glue touch by blast
qed

section \<open>One host\<close>

text \<open>The edges a host processes when it cancels \<open>nodes\<close>.\<close>

definition cancelled_edges :: "(nat \<Rightarrow> nat) \<Rightarrow> nat \<Rightarrow> 'd host \<Rightarrow> nat list \<Rightarrow> (nat \<times> 'd trade_edge) list" where
  "cancelled_edges owner host H nodes =
     concat (map (h_edges H) (filter (\<lambda>u. owner u = host) nodes))"

definition positive_host :: "'d::linordered_field host \<Rightarrow> bool" where
  "positive_host H \<longleftrightarrow> (\<forall>u. positive (h_edges H u))"

definition cancel_effect :: "(nat \<Rightarrow> nat) \<Rightarrow> nat \<Rightarrow> 'd::linordered_field host \<Rightarrow> nat list \<Rightarrow> nat set \<Rightarrow>
    'd host \<Rightarrow> bool" where
  "cancel_effect owner host H ys N H' \<longleftrightarrow> h_edges H' = h_edges H \<and> (\<forall>v. v \<notin> N \<longrightarrow>
     (let es = cancelled_edges owner host H ys in
      nn_bought (h_node H' v) = reduced (owner v = host) SALE v es (nn_bought (h_node H v)) \<and>
      nn_sold (h_node H' v) = reduced (owner v = host) PURCHASE v es (nn_sold (h_node H v)) \<and>
      (v \<in> h_bought_bits H' \<longleftrightarrow> touches SALE v es) \<and> (v \<in> h_sold_bits H' \<longleftrightarrow> touches PURCHASE v es)))"

lemma cancelled_edges_snoc:
  "cancelled_edges owner host H (ys @ [u]) =
    cancelled_edges owner host H ys @ (if owner u = host then h_edges H u else [])"
  by (simp add: cancelled_edges_def)

lemma positive_cancelled: "positive_host H \<Longrightarrow> positive (cancelled_edges owner host H ys)"
  by (auto simp: positive_host_def positive_def cancelled_edges_def)

lemma touches_append: "touches ty v (es @ fs) \<longleftrightarrow> touches ty v es \<or> touches ty v fs"
  by (auto simp: touches_def)

lemma cancel_node_effect:
  assumes eff: "cancel_effect owner host H ys N H1" and pos: "positive_host H" and u: "u \<in> N"
    and loc: "owner u = host \<longrightarrow> is_local host u"
  shows "\<exists>H2. cancel_node owner is_local host u H1 = Inr H2 \<and> cancel_effect owner host H (ys @ [u]) N H2"
proof -
  have off: "nn_bought (h_node (upd_node u cancel H1) v) = nn_bought (h_node H1 v)"
    "nn_sold (h_node (upd_node u cancel H1) v) = nn_sold (h_node H1 v)" if "v \<notin> N" for v
    using that u by (auto simp: upd_node_def)
  have keep: "h_edges (upd_node u cancel H1) = h_edges H1"
    "h_bought_bits (upd_node u cancel H1) = h_bought_bits H1"
    "h_sold_bits (upd_node u cancel H1) = h_sold_bits H1" by (simp_all add: upd_node_def)
  have edges: "h_edges H1 = h_edges H" using eff by (simp add: cancel_effect_def)
  show ?thesis
  proof (cases "owner u = host")
    case False
    have "cancel_effect owner host H (ys @ [u]) N (if is_local host u then upd_node u cancel H1 else H1)"
      using eff u False by (auto simp: cancel_effect_def cancelled_edges_snoc keep off Let_def)
    moreover have "cancel_node owner is_local host u H1 =
        Inr (if is_local host u then upd_node u cancel H1 else H1)"
      using False by (simp add: cancel_node_def Let_def)
    ultimately show ?thesis by blast
  next
    case True
    let ?es = "h_edges H u" and ?cs = "cancelled_edges owner host H ys"
    let ?H2 = "fold (cancel_edge owner host) ?es (upd_node u cancel H1)"
    have run: "cancel_node owner is_local host u H1 = Inr ?H2"
      using True loc by (simp add: cancel_node_def Let_def keep edges)
    have pos_u: "positive ?es" using pos by (simp add: positive_host_def)
    note glue = reduced_append [OF positive_cancelled [OF pos]]
    have "cancel_effect owner host H (ys @ [u]) N ?H2"
      unfolding cancel_effect_def Let_def cancelled_edges_snoc
    proof (intro conjI allI impI)
      fix v
      assume v: "v \<notin> N"
      note new = cancel_edges_facts [OF pos_u, of owner host "upd_node u cancel H1" v]
      have old: "nn_bought (h_node H1 v) = reduced (owner v = host) SALE v ?cs (nn_bought (h_node H v))"
        "nn_sold (h_node H1 v) = reduced (owner v = host) PURCHASE v ?cs (nn_sold (h_node H v))"
        "v \<in> h_bought_bits H1 \<longleftrightarrow> touches SALE v ?cs" "v \<in> h_sold_bits H1 \<longleftrightarrow> touches PURCHASE v ?cs"
        using eff v by (simp_all add: cancel_effect_def Let_def)
      show "nn_bought (h_node ?H2 v) = reduced (owner v = host) SALE v
          (?cs @ (if owner u = host then ?es else [])) (nn_bought (h_node H v))"
        using new old(1) off(1) [OF v] True glue by simp
      show "nn_sold (h_node ?H2 v) = reduced (owner v = host) PURCHASE v
          (?cs @ (if owner u = host then ?es else [])) (nn_sold (h_node H v))"
        using new old(2) off(2) [OF v] True glue by simp
      show "v \<in> h_bought_bits ?H2 \<longleftrightarrow> touches SALE v (?cs @ (if owner u = host then ?es else []))"
        using new old(3) keep(2) True by (simp add: touches_append)
      show "v \<in> h_sold_bits ?H2 \<longleftrightarrow> touches PURCHASE v (?cs @ (if owner u = host then ?es else []))"
        using new old(4) keep(3) True by (simp add: touches_append)
    next
      show "h_edges ?H2 = h_edges H"
        using cancel_edges_facts [OF pos_u, of owner host "upd_node u cancel H1"] keep(1) edges by simp
    qed
    with run show ?thesis by blast
  qed
qed

lemma edge_total_mset: "mset es = mset fs \<Longrightarrow> edge_total ty v es = edge_total ty v fs"
proof -
  let ?f = "\<lambda>p. if fst p = v \<and> te_type (snd p) = ty then te_amount (snd p) else 0"
  assume "mset es = mset fs"
  then have "sum_mset (image_mset ?f (mset es)) = sum_mset (image_mset ?f (mset fs))" by simp
  then show ?thesis by (simp only: edge_total_def mset_map [symmetric] sum_mset_sum_list)
qed

lemma cancelled_edges_mset:
  "mset ys = mset zs \<Longrightarrow> mset (cancelled_edges owner host H ys) = mset (cancelled_edges owner host H zs)"
proof -
  assume "mset ys = mset zs"
  then have "mset (map (\<lambda>u. mset (h_edges H u)) (filter (\<lambda>u. owner u = host) ys)) =
      mset (map (\<lambda>u. mset (h_edges H u)) (filter (\<lambda>u. owner u = host) zs))" by simp
  then have "sum_list (map (\<lambda>u. mset (h_edges H u)) (filter (\<lambda>u. owner u = host) ys)) =
      sum_list (map (\<lambda>u. mset (h_edges H u)) (filter (\<lambda>u. owner u = host) zs))"
    by (metis sum_mset_sum_list)
  then show ?thesis by (simp add: cancelled_edges_def mset_concat comp_def)
qed

lemma reduced_mset: "mset es = mset fs \<Longrightarrow> reduced ow ty v es b = reduced ow ty v fs b \<and>
    touches ty v es = touches ty v fs"
proof -
  assume perm: "mset es = mset fs"
  have "touches ty v es = touches ty v fs" unfolding touches_def mset_eq_setD [OF perm] ..
  then show ?thesis unfolding reduced_def edge_total_mset [OF perm] by simp
qed

lemma cancel_host_ok:
  fixes H :: "'d::linordered_field host"
  assumes rt: "galois_ok rt" and pos: "positive_host H"
    and loc: "\<forall>u\<in>set nodes. owner u = host \<longrightarrow> is_local host u"
  shows "\<exists>H'. cancel_host rt owner is_local nodes host H = Inr H' \<and>
    cancel_effect owner host H nodes (set nodes) H'"
proof -
  let ?H0 = "H\<lparr>h_bought_bits := {}, h_sold_bits := {}\<rparr>"
  have "\<exists>ys H'. mset ys = mset nodes \<and> cancel_host rt owner is_local nodes host H = Inr H' \<and>
      cancel_effect owner host H ys (set nodes) H'"
    unfolding cancel_host_def
  proof (rule do_all_rule [OF rt])
    show "cancel_effect owner host H [] (set nodes) ?H0"
      by (simp add: cancel_effect_def cancelled_edges_def reduced_def touches_def edge_total_def)
  next
    fix ys u and H1 :: "'d host"
    assume "u \<in> set nodes" "cancel_effect owner host H ys (set nodes) H1"
    then show "\<exists>H2. cancel_node owner is_local host u H1 = Inr H2 \<and>
        cancel_effect owner host H (ys @ [u]) (set nodes) H2"
      using cancel_node_effect [OF _ pos] loc by blast
  qed
  then obtain ys H' where ys: "mset ys = mset nodes"
    "cancel_host rt owner is_local nodes host H = Inr H'" "cancel_effect owner host H ys (set nodes) H'"
    by blast
  note perm = reduced_mset [OF cancelled_edges_mset [OF ys(1)]]
  have "cancel_effect owner host H nodes (set nodes) H'"
    using ys(3) perm unfolding cancel_effect_def Let_def by metis
  with ys(2) show ?thesis by blast
qed

section \<open>All hosts\<close>

text \<open>
  What the reducing synchronisation documents: the master of a node adds the values of the
  mirrors whose bit is set to its own. \<open>val\<close> and \<open>bits\<close> select the field and its bit set; the
  other field and its bits are as before.
\<close>

definition gluon_adds :: "(nat \<Rightarrow> nat) \<Rightarrow> ('d network_node \<Rightarrow> 'd::linordered_field) \<Rightarrow> ('d host \<Rightarrow> nat set) \<Rightarrow>
    ('d network_node \<Rightarrow> 'd) \<Rightarrow> ('d host \<Rightarrow> nat set) \<Rightarrow> ('d host list \<Rightarrow> 'd host list) \<Rightarrow> bool" where
  "gluon_adds owner val bits val' bits' sync \<longleftrightarrow> (\<forall>hs. length (sync hs) = length hs \<and>
     (\<forall>h<length hs. bits' (sync hs ! h) = bits' (hs ! h) \<and>
        (\<forall>v. val' (h_node (sync hs ! h) v) = val' (h_node (hs ! h) v)) \<and>
        (\<forall>v. owner v = h \<longrightarrow> val (h_node (sync hs ! h) v) = val (h_node (hs ! h) v) +
           (\<Sum>j\<in>{..<length hs} - {h}. if v \<in> bits (hs ! j) then val (h_node (hs ! j) v) else 0))))"

definition gluon_add_bought :: "(nat \<Rightarrow> nat) \<Rightarrow> 'd::linordered_field host list \<Rightarrow> 'd host list" where
  "gluon_add_bought owner hs = map (\<lambda>h. (hs ! h)\<lparr>h_node := \<lambda>v.
     if owner v = h then (h_node (hs ! h) v)\<lparr>nn_bought := nn_bought (h_node (hs ! h) v) +
       (\<Sum>j\<in>{..<length hs} - {h}. if v \<in> h_bought_bits (hs ! j) then nn_bought (h_node (hs ! j) v) else 0)\<rparr>
     else h_node (hs ! h) v\<rparr>) [0..<length hs]"

definition gluon_add_sold :: "(nat \<Rightarrow> nat) \<Rightarrow> 'd::linordered_field host list \<Rightarrow> 'd host list" where
  "gluon_add_sold owner hs = map (\<lambda>h. (hs ! h)\<lparr>h_node := \<lambda>v.
     if owner v = h then (h_node (hs ! h) v)\<lparr>nn_sold := nn_sold (h_node (hs ! h) v) +
       (\<Sum>j\<in>{..<length hs} - {h}. if v \<in> h_sold_bits (hs ! j) then nn_sold (h_node (hs ! j) v) else 0)\<rparr>
     else h_node (hs ! h) v\<rparr>) [0..<length hs]"

lemma gluon_adds_witness:
  "gluon_adds owner nn_bought h_bought_bits nn_sold h_sold_bits (gluon_add_bought owner)"
  "gluon_adds owner nn_sold h_sold_bits nn_bought h_bought_bits (gluon_add_sold owner)"
  by (simp_all add: gluon_adds_def gluon_add_bought_def gluon_add_sold_def)

lemma reduced_sum:
  fixes val :: "nat \<Rightarrow> 'd::linordered_field"
  assumes "o_v < n" and nonneg: "\<forall>h<n. 0 \<le> val h"
  shows "reduced True ty v (es o_v) (val o_v) + (\<Sum>j\<in>{..<n} - {o_v}.
      if touches ty v (es j) then reduced False ty v (es j) (val j) else 0) =
    val o_v - (\<Sum>h<n. edge_total ty v (es h))"
proof -
  have "(if touches ty v (es j) then reduced False ty v (es j) (val j) else 0) = - edge_total ty v (es j)"
    if "j < n" for j
    using nonneg that edge_total_untouched [of ty v "es j"] by (auto simp: reduced_def min_def)
  then have "(\<Sum>j\<in>{..<n} - {o_v}. if touches ty v (es j) then reduced False ty v (es j) (val j) else 0) =
      (\<Sum>j\<in>{..<n} - {o_v}. - edge_total ty v (es j))" by (intro sum.cong) auto
  moreover have "(\<Sum>h<n. edge_total ty v (es h)) =
      edge_total ty v (es o_v) + (\<Sum>j\<in>{..<n} - {o_v}. edge_total ty v (es j))"
    using assms(1) by (subst sum.remove [of _ o_v]) auto
  ultimately show ?thesis by (simp add: reduced_def sum_negf)
qed

lemma cancel_again_facts:
  "v \<notin> set nodes \<Longrightarrow> h_node (cancel_again is_local nodes host H) v = h_node H v"
  "v \<in> set nodes \<Longrightarrow> is_local host v \<Longrightarrow>
    nn_sold (h_node (cancel_again is_local nodes host H) v) = 0 \<and>
    nn_bought (h_node (cancel_again is_local nodes host H) v) = 0 \<and>
    nn_desired (h_node (cancel_again is_local nodes host H) v) = 0"
  unfolding cancel_again_def
  by (induction nodes rule: rev_induct) (auto simp: upd_node_def cancel_def)

text \<open>What a copy of a node must show: nothing negative before the cancellation.\<close>

definition cancel_ready :: "(nat \<Rightarrow> nat) \<Rightarrow> (nat \<Rightarrow> nat \<Rightarrow> bool) \<Rightarrow> nat list \<Rightarrow> 'd::linordered_field host list \<Rightarrow> bool" where
  "cancel_ready owner is_local nodes hosts \<longleftrightarrow> (\<forall>h<length hosts. positive_host (hosts ! h) \<and>
     (\<forall>u\<in>set nodes. owner u = h \<longrightarrow> is_local h u) \<and>
     (\<forall>v. 0 \<le> nn_bought (h_node (hosts ! h) v) \<and> 0 \<le> nn_sold (h_node (hosts ! h) v)))"

definition cancelled_total :: "(nat \<Rightarrow> nat) \<Rightarrow> 'd::linordered_field host list \<Rightarrow> nat list \<Rightarrow> types \<Rightarrow> nat \<Rightarrow> 'd" where
  "cancelled_total owner hosts nodes ty v =
     (\<Sum>h<length hosts. edge_total ty v (cancelled_edges owner h (hosts ! h) nodes))"

lemma cancel_nodes_ok:
  fixes hosts :: "'d::linordered_field host list"
  assumes rt: "galois_ok rt" and ready: "cancel_ready owner is_local nodes hosts"
    and gb: "gluon_adds owner nn_bought h_bought_bits nn_sold h_sold_bits gluon_bought"
    and gs: "gluon_adds owner nn_sold h_sold_bits nn_bought h_bought_bits gluon_sold"
  shows "\<exists>hs. cancel_nodes rt owner is_local gluon_bought gluon_sold nodes hosts = Inr hs \<and>
    length hs = length hosts \<and>
    (\<forall>h<length hosts. \<forall>v\<in>set nodes. is_local h v \<longrightarrow> nn_sold (h_node (hs ! h) v) = 0 \<and>
       nn_bought (h_node (hs ! h) v) = 0 \<and> nn_desired (h_node (hs ! h) v) = 0) \<and>
    (\<forall>v. v \<notin> set nodes \<and> owner v < length hosts \<longrightarrow>
       nn_bought (h_node (hs ! owner v) v) =
         nn_bought (h_node (hosts ! owner v) v) - cancelled_total owner hosts nodes SALE v \<and>
       nn_sold (h_node (hs ! owner v) v) =
         nn_sold (h_node (hosts ! owner v) v) - cancelled_total owner hosts nodes PURCHASE v)"
proof -
  let ?n = "length hosts" and ?es = "\<lambda>h. cancelled_edges owner h (hosts ! h) nodes"
  have "\<exists>H'. (\<lambda>(h, H). cancel_host rt owner is_local nodes h H) p = Inr H' \<and>
      cancel_effect owner (fst p) (snd p) nodes (set nodes) H'" if "p \<in> set (enumerate 0 hosts)" for p
  proof -
    have "fst p < ?n" "snd p = hosts ! fst p" using that by (auto simp: in_set_enumerate_eq)
    with ready show ?thesis using cancel_host_ok [OF rt, of "snd p" nodes owner "fst p" is_local]
      by (cases p) (simp add: cancel_ready_def)
  qed
  from map_res_ok [where xs = "enumerate 0 hosts" and f = "\<lambda>(h, H). cancel_host rt owner is_local nodes h H"
      and Q = "\<lambda>p H'. cancel_effect owner (fst p) (snd p) nodes (set nodes) H'", OF this]
  obtain hs1 where
    hs1: "map_res (\<lambda>(h, H). cancel_host rt owner is_local nodes h H) (enumerate 0 hosts) = Inr hs1"
    "length hs1 = ?n" and eff1: "\<forall>i<?n. cancel_effect owner (fst (enumerate 0 hosts ! i))
      (snd (enumerate 0 hosts ! i)) nodes (set nodes) (hs1 ! i)" by auto
  have eff: "cancel_effect owner h (hosts ! h) nodes (set nodes) (hs1 ! h)" if "h < ?n" for h
    using eff1 that by (simp add: nth_enumerate_eq)
  let ?b = "gluon_bought hs1" let ?s = "gluon_sold ?b"
  have len: "length ?b = ?n" "length ?s = ?n" using gb gs hs1(2) by (simp_all add: gluon_adds_def)
  let ?hs = "map (\<lambda>(h, H). cancel_again is_local nodes h H) (enumerate 0 ?s)"
  have at: "?hs ! h = cancel_again is_local nodes h (?s ! h)" if "h < ?n" for h
    using that len by (simp add: nth_enumerate_eq)
  have "nn_bought (h_node (?hs ! owner v) v) =
         nn_bought (h_node (hosts ! owner v) v) - cancelled_total owner hosts nodes SALE v \<and>
       nn_sold (h_node (?hs ! owner v) v) =
         nn_sold (h_node (hosts ! owner v) v) - cancelled_total owner hosts nodes PURCHASE v"
    if v: "v \<notin> set nodes" "owner v < ?n" for v
  proof -
    let ?o = "owner v"
    have e: "nn_bought (h_node (hs1 ! h) v) = reduced (?o = h) SALE v (?es h) (nn_bought (h_node (hosts ! h) v))"
      "nn_sold (h_node (hs1 ! h) v) = reduced (?o = h) PURCHASE v (?es h) (nn_sold (h_node (hosts ! h) v))"
      "v \<in> h_bought_bits (hs1 ! h) \<longleftrightarrow> touches SALE v (?es h)"
      "v \<in> h_sold_bits (hs1 ! h) \<longleftrightarrow> touches PURCHASE v (?es h)" if "h < ?n" for h
      using eff [OF that] v(1) by (simp_all add: cancel_effect_def Let_def)
    have "nn_bought (h_node (?s ! ?o) v) = nn_bought (h_node (?b ! ?o) v)"
      using gs len v(2) by (simp add: gluon_adds_def)
    also have "\<dots> = nn_bought (h_node (hs1 ! ?o) v) + (\<Sum>j\<in>{..<?n} - {?o}.
        if v \<in> h_bought_bits (hs1 ! j) then nn_bought (h_node (hs1 ! j) v) else 0)"
      using gb hs1(2) v(2) by (simp add: gluon_adds_def)
    also have "\<dots> = reduced True SALE v (?es ?o) (nn_bought (h_node (hosts ! ?o) v)) +
        (\<Sum>j\<in>{..<?n} - {?o}. if touches SALE v (?es j)
          then reduced False SALE v (?es j) (nn_bought (h_node (hosts ! j) v)) else 0)"
      using e v(2) by (intro arg_cong2 [of _ _ _ _ "(+)"] sum.cong) auto
    also have "\<dots> = nn_bought (h_node (hosts ! ?o) v) - cancelled_total owner hosts nodes SALE v"
      unfolding cancelled_total_def using ready v(2) by (intro reduced_sum) (auto simp: cancel_ready_def)
    finally have bought: "nn_bought (h_node (?s ! ?o) v) =
        nn_bought (h_node (hosts ! ?o) v) - cancelled_total owner hosts nodes SALE v" .
    have "nn_sold (h_node (?s ! ?o) v) = nn_sold (h_node (?b ! ?o) v) + (\<Sum>j\<in>{..<?n} - {?o}.
        if v \<in> h_sold_bits (?b ! j) then nn_sold (h_node (?b ! j) v) else 0)"
      using gs len v(2) by (simp add: gluon_adds_def)
    also have "\<dots> = nn_sold (h_node (hs1 ! ?o) v) + (\<Sum>j\<in>{..<?n} - {?o}.
        if v \<in> h_sold_bits (hs1 ! j) then nn_sold (h_node (hs1 ! j) v) else 0)"
      using gb hs1(2) v(2) by (intro arg_cong2 [of _ _ _ _ "(+)"] sum.cong) (auto simp: gluon_adds_def)
    also have "\<dots> = reduced True PURCHASE v (?es ?o) (nn_sold (h_node (hosts ! ?o) v)) +
        (\<Sum>j\<in>{..<?n} - {?o}. if touches PURCHASE v (?es j)
          then reduced False PURCHASE v (?es j) (nn_sold (h_node (hosts ! j) v)) else 0)"
      using e v(2) by (intro arg_cong2 [of _ _ _ _ "(+)"] sum.cong) auto
    also have "\<dots> = nn_sold (h_node (hosts ! ?o) v) - cancelled_total owner hosts nodes PURCHASE v"
      unfolding cancelled_total_def using ready v(2) by (intro reduced_sum) (auto simp: cancel_ready_def)
    finally have "nn_sold (h_node (?s ! ?o) v) =
        nn_sold (h_node (hosts ! ?o) v) - cancelled_total owner hosts nodes PURCHASE v" .
    with bought show ?thesis by (simp add: at [OF v(2)] cancel_again_facts(1) [OF v(1)])
  qed
  moreover have "cancel_nodes rt owner is_local gluon_bought gluon_sold nodes hosts = Inr ?hs"
    by (simp add: cancel_nodes_def hs1(1))
  moreover have "length ?hs = ?n" using len by simp
  moreover have "nn_sold (h_node (?hs ! h) v) = 0 \<and> nn_bought (h_node (?hs ! h) v) = 0 \<and>
      nn_desired (h_node (?hs ! h) v) = 0" if "h < ?n" "v \<in> set nodes" "is_local h v" for h v
    unfolding at [OF that(1)] by (rule cancel_again_facts(2)) (fact that)+
  ultimately show ?thesis by blast
qed

end
