(* ===== verification/Wf4Wire.thy ===== *)
theory Wf4Wire
  imports Wf4Cancel
begin

text \<open>
  A quiescence of the whole graph leaves the edges as they are, and the weight of a proposal
  is not what it was once it has been sent.
\<close>

section \<open>Quiescing leaves the edges alone\<close>

lemma market_updates_edges [simp]:
  "h_edges (atomic_add_sold v a H) = h_edges H" "h_edges (atomic_add_bought v a H) = h_edges H"
  by (simp_all add: atomic_add_sold_def atomic_add_bought_def upd_node_def)

lemma quiesce_edges_keep:
  "quiesce_edges owner host node es needed st = Inr st' \<Longrightarrow> h_edges (fst st') = h_edges (fst st)"
proof (induction es arbitrary: host needed st)
  case (Cons p es)
  obtain H R where st: "st = (H, R)" by (cases st)
  obtain seller edge_data where p: "p = (seller, edge_data)" by (cases p)
  show ?case
    using Cons.prems unfolding st p
    by (simp add: Let_def res_bind_Inr_iff split: if_splits) (auto dest!: Cons.IH)
qed simp

lemma quiesce_host_keep:
  assumes "quiesce_host rt owner n h H = Inr st"
  shows "h_edges (fst st) = h_edges H"
proof -
  let ?I = "\<lambda>st :: 'a market. h_edges (fst st) = h_edges H"
  show "?I st"
    using assms unfolding quiesce_host_def
    by (rule do_all_preserve [where I = ?I]) (auto simp: try_quiesce_node_def Let_def dest: quiesce_edges_keep)
qed

lemma try_add_edge_keep:
  "try_add_edge owner e st = Inr st' \<Longrightarrow> h_edges (fst st') = h_edges (fst st)"
  by (cases st) (auto simp: try_add_edge_def Let_def res_map_Inr_iff split: if_splits)

lemma try_add_edges_keep:
  assumes "try_add_edges rt owner incoming st = Inr st'"
  shows "h_edges (fst st') = h_edges (fst st)"
  using assms unfolding try_add_edges_def
proof (rule fold_res_preserve [where I = "\<lambda>t. h_edges (fst t) = h_edges (fst st)"])
  fix es and t t' :: "'a market"
  assume "h_edges (fst t) = h_edges (fst st)" "do_all rt 1 (try_add_edge owner) es t = Inr t'"
  from this(2,1) show "h_edges (fst t') = h_edges (fst st)"
    by (rule do_all_preserve) (auto dest: try_add_edge_keep)
qed simp

lemma add_purchase_edges_keep:
  assumes "add_purchase_edges rt decided H = Inr H'"
  shows "h_edges H' = h_edges H"
  using assms unfolding add_purchase_edges_def
proof (rule fold_res_preserve [where I = "\<lambda>t. h_edges t = h_edges H"])
  fix es and t t' :: "'a host"
  assume "h_edges t = h_edges H" "do_all rt 2 add_purchase_edge es t = Inr t'"
  from this(2,1) show "h_edges t' = h_edges H"
    by (rule do_all_preserve) (auto simp: add_purchase_edge_def Let_def)
qed simp

lemma map_res_nth: "map_res f xs = Inr ys \<Longrightarrow> length ys = length xs \<and> (\<forall>i<length xs. f (xs ! i) = Inr (ys ! i))"
proof (induction xs arbitrary: ys)
  case (Cons x xs)
  then obtain y ys' where "f x = Inr y" "map_res f xs = Inr ys'" "ys = y # ys'"
    by (auto simp: res_bind_Inr_iff res_map_Inr_iff)
  with Cons.IH show ?case by (auto simp: nth_Cons split: nat.splits)
qed simp

definition keeps_edges :: "('d host list \<Rightarrow> 'd host list) \<Rightarrow> bool" where
  "keeps_edges sync \<longleftrightarrow> (\<forall>hs. length (sync hs) = length hs \<and>
     (\<forall>h<length hs. h_edges (sync hs ! h) = h_edges (hs ! h)))"

lemma quiesce_graph_keep:
  assumes run: "quiesce_graph rt owner gluon_sold gluon_bought hosts = Inr hs"
    and sync: "keeps_edges gluon_sold" "keeps_edges gluon_bought" and h: "h < length hosts"
  shows "h_edges (hs ! h) = h_edges (hosts ! h)"
proof -
  let ?n = "length hosts"
  obtain ms potential ms' decided hs1 where
    a: "map_res (\<lambda>h. quiesce_host rt owner ?n h (hosts ! h)) [0..<?n] = Inr ms"
    and b: "map_res (\<lambda>h. try_add_edges rt owner (potential ! h)
        (fst (ms ! h), cleared (snd (ms ! h)) h)) [0..<?n] = Inr ms'"
    and c: "map_res (\<lambda>h. add_purchase_edges rt (decided ! h) (fst (ms' ! h))) [0..<?n] = Inr hs1"
    and d: "hs = gluon_bought (gluon_sold hs1)"
    using run by (auto simp: quiesce_graph_def Let_def res_bind_Inr_iff res_map_Inr_iff)
  have "quiesce_host rt owner ?n h (hosts ! h) = Inr (ms ! h)" using map_res_nth [OF a] h by simp
  moreover have "try_add_edges rt owner (potential ! h) (fst (ms ! h), cleared (snd (ms ! h)) h) = Inr (ms' ! h)"
    using map_res_nth [OF b] h by simp
  moreover have "add_purchase_edges rt (decided ! h) (fst (ms' ! h)) = Inr (hs1 ! h)" "length hs1 = ?n"
    using map_res_nth [OF c] h by simp_all
  ultimately have "h_edges (hs1 ! h) = h_edges (hosts ! h)" "length hs1 = ?n"
    by (simp_all add: quiesce_host_keep add_purchase_edges_keep
        try_add_edges_keep [of _ _ _ "(fst (ms ! h), cleared (snd (ms ! h)) h)", unfolded fst_conv])
  then show ?thesis using sync h by (simp add: d keeps_edges_def)
qed

section \<open>The weight on the wire\<close>

lemma weight_on_wire:
  fixes x :: "'d::floor_ceiling"
  assumes "0 \<le> x" "x < 2 ^ 52"
  shows "u64_of_double x = Inr (nat \<lfloor>x\<rfloor>)"
    "double_of_bits (nat \<lfloor>x\<rfloor>) = Inr (of_int \<lfloor>x\<rfloor> / (2 ^ 1074 :: 'd))"
proof -
  have "(2::'d) ^ 52 \<le> 2 ^ 64" by simp
  with assms show "u64_of_double x = Inr (nat \<lfloor>x\<rfloor>)" by (simp add: u64_of_double_def)
  have "\<lfloor>x\<rfloor> < 2 ^ 52" using assms(2) by (simp add: floor_less_iff)
  moreover have pos: "0 \<le> \<lfloor>x\<rfloor>" using assms(1) by simp
  ultimately have "nat \<lfloor>x\<rfloor> < 2 ^ 52" by (subst nat_less_iff) simp_all
  moreover have "(of_nat (nat \<lfloor>x\<rfloor>) :: 'd) = of_int \<lfloor>x\<rfloor>" using pos by (rule of_nat_nat)
  ultimately show "double_of_bits (nat \<lfloor>x\<rfloor>) = Inr (of_int \<lfloor>x\<rfloor> / (2 ^ 1074 :: 'd))"
    by (simp add: double_of_bits_def Let_def)
qed

lemma serialize_edges_ok:
  assumes "\<forall>e\<in>set es. 0 \<le> pe_weight e \<and> pe_weight e < (2::'d::floor_ceiling) ^ 52"
  shows "serialize_set_edges es = Inr (length es # concat (map (\<lambda>e. [pe_src e, pe_dst e, nat \<lfloor>pe_weight e\<rfloor>]) es))"
proof -
  have "map_res (\<lambda>e. res_map (\<lambda>w. [pe_src e, pe_dst e, w]) (u64_of_double (pe_weight e))) es =
      Inr (map (\<lambda>e. [pe_src e, pe_dst e, nat \<lfloor>pe_weight e\<rfloor>]) es)"
    using assms by (induction es) (simp_all add: weight_on_wire(1))
  then show ?thesis by (simp add: serialize_set_edges_def)
qed

lemma nth_triples:
  assumes "i < length es"
  shows "concat (map (\<lambda>e. [f e, g e, h e]) es) ! (3 * i) = f (es ! i)"
    "concat (map (\<lambda>e. [f e, g e, h e]) es) ! (3 * i + 1) = g (es ! i)"
    "concat (map (\<lambda>e. [f e, g e, h e]) es) ! (3 * i + 2) = h (es ! i)"
    "length (concat (map (\<lambda>e. [f e, g e, h e]) es)) = 3 * length es"
proof -
  have "i < length es \<Longrightarrow> concat (map (\<lambda>e. [f e, g e, h e]) es) ! (3 * i) = f (es ! i) \<and>
    concat (map (\<lambda>e. [f e, g e, h e]) es) ! (3 * i + 1) = g (es ! i) \<and>
    concat (map (\<lambda>e. [f e, g e, h e]) es) ! (3 * i + 2) = h (es ! i)"
  proof (induction es arbitrary: i)
    case (Cons e es)
    then show ?case by (cases i) (simp_all add: numeral_3_eq_3)
  qed simp
  with assms show "concat (map (\<lambda>e. [f e, g e, h e]) es) ! (3 * i) = f (es ! i)"
    "concat (map (\<lambda>e. [f e, g e, h e]) es) ! (3 * i + 1) = g (es ! i)"
    "concat (map (\<lambda>e. [f e, g e, h e]) es) ! (3 * i + 2) = h (es ! i)" by simp_all
  show "length (concat (map (\<lambda>e. [f e, g e, h e]) es)) = 3 * length es" by (induction es) simp_all
qed

lemma proposals_received:
  fixes es :: "'d::floor_ceiling proposed_edge list"
  assumes small: "\<forall>e\<in>set es. 0 \<le> pe_weight e \<and> pe_weight e < 2 ^ 52"
  shows "res_bind (serialize_set_edges es) (\<lambda>ws. incoming_edges (seal_buffer ws)) =
    Inr (map (\<lambda>e. \<lparr>pe_src = pe_src e, pe_dst = pe_dst e,
      pe_weight = of_int \<lfloor>pe_weight e\<rfloor> / (2 ^ 1074 :: 'd)\<rparr>) es)"
proof -
  let ?data = "concat (map (\<lambda>e. [pe_src e, pe_dst e, nat \<lfloor>pe_weight e\<rfloor>]) es)"
  let ?out = "\<lambda>e. \<lparr>pe_src = pe_src e, pe_dst = pe_dst e, pe_weight = of_int \<lfloor>pe_weight e\<rfloor> / (2 ^ 1074 :: 'd)\<rparr>"
  note ser = serialize_edges_ok [OF small]
  have get: "incoming_edge ?data i = Inr (?out (es ! i))" if "i < length es" for i
  proof -
    note triple = nth_triples [OF that, where f = pe_src and g = pe_dst and h = "\<lambda>e. nat \<lfloor>pe_weight e\<rfloor>"]
    have "vec_get ?data (3 * i) = Inr (pe_src (es ! i))" "vec_get ?data (3 * i + 1) = Inr (pe_dst (es ! i))"
      "vec_get ?data (3 * i + 2) = Inr (nat \<lfloor>pe_weight (es ! i)\<rfloor>)"
      using triple that by (simp_all add: vec_get_def)
    moreover have "double_of_bits (nat \<lfloor>pe_weight (es ! i)\<rfloor>) =
        Inr (of_int \<lfloor>pe_weight (es ! i)\<rfloor> / (2 ^ 1074 :: 'd))"
      using small that by (intro weight_on_wire(2)) auto
    ultimately show ?thesis by (simp add: incoming_edge_def)
  qed
  have all: "map_res (incoming_edge ?data) xs = Inr (map (\<lambda>i. ?out (es ! i)) xs)"
    if "\<forall>i\<in>set xs. i < length es" for xs
    using that get by (induction xs) simp_all
  show ?thesis
  proof (cases es)
    case Nil
    then show ?thesis
      by (simp add: serialize_set_edges_def seal_buffer_def incoming_edges_def buf_size_def)
  next
    case (Cons e es')
    have "\<not> 8 * length (length es # ?data) < 16" by (simp add: Cons)
    then have "incoming_edges (seal_buffer (length es # ?data)) = map_res (incoming_edge ?data) [0..<length es]"
      by (simp only: incoming_edges_def seal_buffer_def buf_size_def message.case list.distinct if_False list.sel)
    also have "\<dots> = Inr (map ?out (map ((!) es) [0..<length es]))"
      unfolding map_map comp_def by (rule all) simp
    also have "\<dots> = Inr (map ?out es)" by (simp only: map_nth)
    finally show ?thesis by (simp only: ser res_bind_simps)
  qed
qed

end
