(* ===== verification/Wf4Settle.thy ===== *)
theory Wf4Settle
  imports Wf4Wire
begin

text \<open>
  \<open>QuiesceGraph\<close> on all hosts: it returns, because what it sends can be converted and the hosts
  it sends to exist, and on no host has a node sold more than it bought, unless it had before.
\<close>

section \<open>What every step keeps\<close>

definition proposals_ok :: "(nat \<Rightarrow> nat) \<Rightarrow> nat \<Rightarrow> 'd::linordered_field proposed_edge list list \<Rightarrow> bool" where
  "proposals_ok owner n R \<longleftrightarrow> (\<forall>es\<in>set R. \<forall>e\<in>set es. owner (pe_src e) < n \<and> 0 \<le> pe_weight e \<and> pe_weight e < 2 ^ 52)"

definition settles :: "'d::linordered_field host \<Rightarrow> 'd host \<Rightarrow> bool" where
  "settles H0 H \<longleftrightarrow> h_edges H = h_edges H0 \<and> (\<forall>v. nn_bought (h_node H0 v) \<le> nn_bought (h_node H v) \<and>
     nn_desired (h_node H v) = nn_desired (h_node H0 v) \<and>
     nn_sold (h_node H v) \<le> max (nn_sold (h_node H0 v)) (nn_bought (h_node H v)))"

definition sound :: "(nat \<Rightarrow> nat) \<Rightarrow> nat \<Rightarrow> 'd::linordered_field host \<Rightarrow> 'd market \<Rightarrow> bool" where
  "sound owner n H0 st \<longleftrightarrow> settles H0 (fst st) \<and> length (snd st) = n \<and> proposals_ok owner n (snd st)"

lemma settles_refl [simp]: "settles H H"
  by (simp add: settles_def)

lemma settles_bits [simp]:
  "settles H0 (H\<lparr>h_sold_bits := A\<rparr>) = settles H0 H" "settles H0 (H\<lparr>h_bought_bits := A\<rparr>) = settles H0 H"
  "settles (H0\<lparr>h_sold_bits := A\<rparr>) H = settles H0 H" "settles (H0\<lparr>h_bought_bits := A\<rparr>) H = settles H0 H"
  by (simp_all add: settles_def)

lemma settles_buy: "settles H0 H \<Longrightarrow> 0 \<le> a \<Longrightarrow> settles H0 (atomic_add_bought u a H)"
  by (auto simp: settles_def atomic_add_bought_def upd_node_def max_def intro: order_trans add_increasing2)

lemma settles_sell:
  "settles H0 H \<Longrightarrow> nn_sold (h_node H u) + a \<le> nn_bought (h_node H u) \<Longrightarrow> settles H0 (atomic_add_sold u a H)"
  by (auto simp: settles_def atomic_add_sold_def upd_node_def)

lemma settles_undo:
  "settles H0 H \<Longrightarrow> settles H0 (atomic_add_sold u (- a) (atomic_add_sold u a H))"
  by (simp add: settles_def atomic_add_sold_def upd_node_def)

lemma proposals_add:
  assumes "proposals_ok owner n R" "d < length R" "owner (pe_src e) < n" "0 \<le> pe_weight e" "pe_weight e < 2 ^ 52"
  shows "\<exists>R'. vec_update R d (add_proposed e) = Inr R' \<and> length R' = length R \<and> proposals_ok owner n R'"
proof -
  have "set (add_proposed e (R ! d)) \<subseteq> insert e (set (R ! d))" by (auto simp: add_proposed_def)
  moreover have "set (R[d := add_proposed e (R ! d)]) \<subseteq> insert (add_proposed e (R ! d)) (set R)"
    by (rule set_update_subset_insert)
  moreover have "R ! d \<in> set R" using assms(2) by simp
  ultimately have "proposals_ok owner n (R[d := add_proposed e (R ! d)])"
    using assms unfolding proposals_ok_def by blast
  then show ?thesis using assms(2) by (simp add: vec_update_def)
qed

section \<open>The three loops\<close>

lemma quiesce_edges_sound:
  fixes needed :: "'d::linordered_field"
  assumes "sound owner n H0 st" "\<forall>p\<in>set es. owner (fst p) < n" "owner node < n" "needed < 2 ^ 52"
  shows "\<exists>st'. quiesce_edges owner host node es needed st = Inr st' \<and> sound owner n H0 st'"
  using assms(1,2,4)
proof (induction es arbitrary: needed st)
  case (Cons p es)
  obtain H R where st: "st = (H, R)" by (cases st)
  obtain seller e where p: "p = (seller, e)" by (cases p)
  have es: "\<forall>p\<in>set es. owner (fst p) < n" and seller: "owner seller < n" using Cons.prems(2) by (simp_all add: p)
  have H: "settles H0 H" and R: "length R = n" "proposals_ok owner n R"
    using Cons.prems(1) by (simp_all add: sound_def st)
  note IH = Cons.IH [OF _ es]
  define delta where "delta = min needed (nn_bought (h_node H seller) - nn_sold (h_node H seller))"
  show ?case
  proof (cases "needed \<le> 0 \<or> te_type e \<noteq> PURCHASE \<or> delta \<le> 0")
    case True
    then show ?thesis using IH [OF Cons.prems(1,3)] Cons.prems(1) by (auto simp: st p delta_def Let_def)
  next
    case False
    then have d: "0 < delta" "delta \<le> needed" "nn_sold (h_node H seller) + delta \<le> nn_bought (h_node H seller)"
      by (auto simp: delta_def min_def)
    let ?H1 = "atomic_add_sold seller delta H"
    have H1: "settles H0 ?H1" using settles_sell [OF H d(3)] .
    have same: "\<not> nn_sold (h_node H seller) + delta > nn_bought (h_node ?H1 seller)"
      using d(3) by (simp add: atomic_add_sold_def upd_node_def)
    have needed: "needed - delta < 2 ^ 52" using d(1) Cons.prems(3) by simp
    show ?thesis
    proof (cases "owner seller = host")
      case True
      let ?H2 = "atomic_add_bought node delta ?H1"
      have "sound owner n H0 (?H2\<lparr>h_bought_bits := insert node (h_bought_bits ?H2),
          h_sold_bits := insert seller (h_sold_bits ?H2)\<rparr>, R)"
        using settles_buy [OF H1, of delta] d(1) R by (simp add: sound_def)
      from IH [OF this needed] False True same show ?thesis
        by (simp add: st p delta_def [symmetric] Let_def)
    next
      case remote: False
      obtain R' where R': "vec_update R (owner seller)
          (add_proposed \<lparr>pe_src = node, pe_dst = seller, pe_weight = delta\<rparr>) = Inr R'"
        "length R' = length R" "proposals_ok owner n R'"
        using proposals_add [OF R(2), of "owner seller" "\<lparr>pe_src = node, pe_dst = seller, pe_weight = delta\<rparr>"]
          seller assms(3) d(1,2) Cons.prems(3) R(1) by auto
      have "sound owner n H0 (?H1, R')" using H1 R R'(2,3) by (simp add: sound_def)
      from IH [OF this needed] False remote same R'(1) show ?thesis
        by (simp add: st p delta_def [symmetric] Let_def)
    qed
  qed
qed auto

lemma try_add_edge_sound:
  assumes "sound owner n H0 st" "owner (pe_src e) < n" "pe_weight e < (2::'d::linordered_field) ^ 52"
  shows "\<exists>st'. try_add_edge owner e st = Inr st' \<and> sound owner n H0 st'"
proof -
  obtain H R where st: "st = (H, R)" by (cases st)
  have H: "settles H0 H" and R: "length R = n" "proposals_ok owner n R"
    using assms(1) by (simp_all add: sound_def st)
  define delta where "delta = min (pe_weight e) (nn_bought (h_node H (pe_dst e)) - nn_sold (h_node H (pe_dst e)))"
  show ?thesis
  proof (cases "delta \<le> 0")
    case True
    then show ?thesis using assms(1) by (simp add: try_add_edge_def st delta_def Let_def)
  next
    case False
    then have d: "0 < delta" "delta \<le> pe_weight e"
      "nn_sold (h_node H (pe_dst e)) + delta \<le> nn_bought (h_node H (pe_dst e))"
      by (auto simp: delta_def min_def)
    let ?H1 = "atomic_add_sold (pe_dst e) delta H"
    obtain R' where R': "vec_update R (owner (pe_src e))
        (add_proposed \<lparr>pe_src = pe_src e, pe_dst = pe_dst e, pe_weight = delta\<rparr>) = Inr R'"
      "length R' = length R" "proposals_ok owner n R'"
      using proposals_add [OF R(2), of "owner (pe_src e)" "\<lparr>pe_src = pe_src e, pe_dst = pe_dst e, pe_weight = delta\<rparr>"]
        assms(2,3) d(1,2) R(1) by auto
    have "\<not> nn_sold (h_node H (pe_dst e)) + delta > nn_bought (h_node ?H1 (pe_dst e))"
      using d(3) by (simp add: atomic_add_sold_def upd_node_def)
    then show ?thesis
      using False R' settles_sell [OF H d(3)] R(1)
      by (simp add: try_add_edge_def st delta_def [symmetric] Let_def sound_def)
  qed
qed

lemma quiesce_host_sound:
  fixes H :: "'d::linordered_field host"
  assumes rt: "galois_ok rt" and masters: "\<forall>u\<in>set (h_masters H). owner u < n \<and>
      nn_desired (h_node H u) - nn_bought (h_node H u) < 2 ^ 52 \<and> (\<forall>p\<in>set (h_edges H u). owner (fst p) < n)"
  shows "\<exists>st. quiesce_host rt owner n h H = Inr st \<and> sound owner n H st"
proof -
  have "sound owner n H (H\<lparr>h_bought_bits := {}, h_sold_bits := {}\<rparr>, replicate n [])"
    by (auto simp: sound_def proposals_ok_def)
  moreover have "\<exists>st'. try_quiesce_node owner h u st = Inr st' \<and> sound owner n H st'"
    if u: "u \<in> set (h_masters H)" and st: "sound owner n H st" for u st
  proof -
    have "h_edges (fst st) = h_edges H" "nn_desired (h_node (fst st) u) = nn_desired (h_node H u)"
      "nn_bought (h_node H u) \<le> nn_bought (h_node (fst st) u)"
      using st by (simp_all add: sound_def settles_def)
    moreover from this have "nn_desired (h_node (fst st) u) - nn_bought (h_node (fst st) u) < 2 ^ 52"
      using masters u by force
    ultimately show ?thesis
      using quiesce_edges_sound [OF st] masters u by (simp add: try_quiesce_node_def Let_def)
  qed
  ultimately show ?thesis
    unfolding quiesce_host_def using do_all_rule [OF rt, where P = "\<lambda>_. sound owner n H"] by blast
qed

text \<open>What arrives: the same ends, and a weight that is smaller still.\<close>

definition arriving :: "(nat \<Rightarrow> nat) \<Rightarrow> nat \<Rightarrow> 'd::linordered_field proposed_edge list list \<Rightarrow> bool" where
  "arriving owner n ess \<longleftrightarrow> length ess = n \<and> proposals_ok owner n ess"

lemma sent_weight:
  fixes w :: "'d::floor_ceiling"
  assumes "0 \<le> w" "w < b" "1 \<le> c"
  shows "0 \<le> of_int \<lfloor>w\<rfloor> / c \<and> of_int \<lfloor>w\<rfloor> / c < b"
proof -
  have "of_int \<lfloor>w\<rfloor> < b" using of_int_floor_le assms(2) by (rule order.strict_trans1)
  moreover have pos: "(0::'d) \<le> of_int \<lfloor>w\<rfloor>" using assms(1) by simp
  moreover have "0 < c" using assms(3) by (rule order.strict_trans2 [OF zero_less_one])
  moreover have "of_int \<lfloor>w\<rfloor> * 1 \<le> of_int \<lfloor>w\<rfloor> * c" using assms(3) pos by (rule mult_left_mono)
  ultimately have "of_int \<lfloor>w\<rfloor> / c \<le> of_int \<lfloor>w\<rfloor>" "0 \<le> of_int \<lfloor>w\<rfloor> / c" by (simp_all add: pos_divide_le_eq)
  with \<open>of_int \<lfloor>w\<rfloor> < b\<close> show ?thesis by simp
qed

lemma received_ok:
  fixes es :: "'d::floor_ceiling proposed_edge list"
  assumes "proposals_ok owner n [es]"
  shows "\<exists>es'. res_bind (serialize_set_edges es) (\<lambda>ws. incoming_edges (seal_buffer ws)) = Inr es' \<and>
    proposals_ok owner n [es' :: 'd proposed_edge list]"
proof -
  define c where "c = (2 ^ 1074 :: 'd)"
  define b where "b = (2 ^ 52 :: 'd)"
  have c: "1 \<le> c" unfolding c_def by (rule one_le_power) simp
  have ok: "\<forall>e\<in>set es. owner (pe_src e) < n \<and> 0 \<le> pe_weight e \<and> pe_weight e < b"
    using assms by (simp add: proposals_ok_def b_def)
  then have "res_bind (serialize_set_edges es) (\<lambda>ws. incoming_edges (seal_buffer ws)) =
      Inr (map (\<lambda>e. \<lparr>pe_src = pe_src e, pe_dst = pe_dst e, pe_weight = of_int \<lfloor>pe_weight e\<rfloor> / c\<rparr>) es)"
    unfolding b_def c_def by (intro proposals_received) blast
  moreover have "\<forall>e\<in>set es. owner (pe_src e) < n \<and> 0 \<le> of_int \<lfloor>pe_weight e\<rfloor> / c \<and> of_int \<lfloor>pe_weight e\<rfloor> / c < b"
    using ok sent_weight [OF _ _ c] by blast
  ultimately show ?thesis by (simp add: proposals_ok_def b_def)
qed

lemma send_new_edges_ok:
  fixes Rs :: "'d::floor_ceiling proposed_edge list list list"
  assumes Rs: "length Rs = n" "\<forall>R\<in>set Rs. length R = n \<and> proposals_ok owner n R" and h: "h < n"
  shows "\<exists>ess. send_new_edges Rs h = Inr ess \<and> arriving owner n ess"
proof -
  let ?f = "\<lambda>s. if s = h then Inr [] else res_bind (serialize_set_edges (Rs ! s ! h))
      (\<lambda>ws. incoming_edges (seal_buffer ws) :: 'd proposed_edge list res)"
  have "\<exists>es. ?f s = Inr es \<and> proposals_ok owner n [es :: 'd proposed_edge list]" if s: "s \<in> set [0..<n]" for s
  proof -
    have "Rs ! s \<in> set Rs" using s Rs(1) by simp
    then have "Rs ! s ! h \<in> set (Rs ! s)" "proposals_ok owner n (Rs ! s)" using Rs(2) h by auto
    then have "proposals_ok owner n [Rs ! s ! h]" by (simp add: proposals_ok_def)
    from received_ok [OF this] show ?thesis by (auto simp: proposals_ok_def)
  qed
  from map_res_ok [of "[0..<n]" ?f "\<lambda>_ es. proposals_ok owner n [es :: 'd proposed_edge list]", OF this] obtain ess where
    "map_res ?f [0..<n] = Inr ess" "length ess = n" "\<forall>i<n. proposals_ok owner n [ess ! i]" by auto
  moreover from this have "\<forall>es\<in>set ess. proposals_ok owner n [es]" by (metis in_set_conv_nth)
  ultimately show ?thesis
    by (simp add: send_new_edges_def Rs(1) arriving_def proposals_ok_def)
qed

lemma try_add_edges_sound:
  fixes H0 :: "'d::linordered_field host"
  assumes rt: "galois_ok rt" and st: "sound owner n H0 st" and incoming: "arriving owner n incoming"
  shows "\<exists>st'. try_add_edges rt owner incoming st = Inr st' \<and> sound owner n H0 st'"
  unfolding try_add_edges_def
proof (rule fold_res_rule [where P = "\<lambda>_. sound owner n H0"])
  fix ys es zs and t :: "'d market"
  assume split: "incoming = ys @ es # zs" and t: "sound owner n H0 t"
  have "\<forall>e\<in>set es. owner (pe_src e) < n \<and> pe_weight e < 2 ^ 52"
    using incoming split by (auto simp: arriving_def proposals_ok_def)
  then show "\<exists>t'. do_all rt 1 (try_add_edge owner) es t = Inr t' \<and> sound owner n H0 t'"
    using do_all_rule [OF rt, where P = "\<lambda>_. sound owner n H0" and f = "try_add_edge owner" and s = t] t
      try_add_edge_sound by metis
qed (rule st)

lemma add_purchase_edges_sound:
  fixes H0 :: "'d::linordered_field host"
  assumes rt: "galois_ok rt" and H: "settles H0 H" and decided: "arriving owner n decided"
  shows "\<exists>H'. add_purchase_edges rt decided H = Inr H' \<and> settles H0 H'"
  unfolding add_purchase_edges_def
proof (rule fold_res_rule [where P = "\<lambda>_. settles H0"])
  fix ys es zs and t :: "'d host"
  assume split: "decided = ys @ es # zs" and t: "settles H0 t"
  have pos: "\<forall>e\<in>set es. 0 \<le> pe_weight e" using decided split by (auto simp: arriving_def proposals_ok_def)
  have "\<exists>t'. add_purchase_edge e t = Inr t' \<and> settles H0 t'" if "e \<in> set es" "settles H0 t" for e t
    using settles_buy [OF that(2)] pos that(1) by (simp add: add_purchase_edge_def Let_def)
  then show "\<exists>t'. do_all rt 2 add_purchase_edge es t = Inr t' \<and> settles H0 t'"
    using do_all_rule [OF rt, where P = "\<lambda>_. settles H0" and f = add_purchase_edge and s = t] t by metis
qed (rule H)

section \<open>The whole graph\<close>

text \<open>Every node of a host and of its edges has an owner, and no master needs 2\^52 or more.\<close>

definition quiescible :: "(nat \<Rightarrow> nat) \<Rightarrow> 'd::linordered_field host list \<Rightarrow> bool" where
  "quiescible owner hosts \<longleftrightarrow> (\<forall>H\<in>set hosts. \<forall>u\<in>set (h_masters H). owner u < length hosts \<and>
     nn_desired (h_node H u) - nn_bought (h_node H u) < 2 ^ 52 \<and> (\<forall>p\<in>set (h_edges H u). owner (fst p) < length hosts))"

lemma sound_cleared: "sound owner n H0 st \<Longrightarrow> sound owner n H0 (fst st, cleared (snd st) h)"
  by (auto simp: sound_def cleared_def proposals_ok_def split: if_splits)

lemma quiesce_graph_sound:
  fixes hosts :: "'d::floor_ceiling host list"
  defines "n \<equiv> length hosts"
  assumes rt: "galois_ok rt" and masters: "quiescible owner hosts"
  shows "\<exists>hs. quiesce_graph rt owner gluon_sold gluon_bought hosts = Inr (gluon_bought (gluon_sold hs)) \<and>
    length hs = n \<and> (\<forall>h<n. settles (hosts ! h) (hs ! h))"
proof -
  let ?S = "\<lambda>h. sound owner n (hosts ! h)"
  have "\<exists>st. quiesce_host rt owner n h (hosts ! h) = Inr st \<and> ?S h st" if "h \<in> set [0..<n]" for h
  proof (rule quiesce_host_sound [OF rt])
    have "hosts ! h \<in> set hosts" using that by (simp add: n_def)
    with masters show "\<forall>u\<in>set (h_masters (hosts ! h)). owner u < n \<and> nn_desired (h_node (hosts ! h) u) -
      nn_bought (h_node (hosts ! h) u) < 2 ^ 52 \<and> (\<forall>p\<in>set (h_edges (hosts ! h) u). owner (fst p) < n)"
      unfolding quiescible_def n_def by blast
  qed
  from map_res_ok [of "[0..<n]" _ ?S, OF this] obtain ms where
    ms: "map_res (\<lambda>h. quiesce_host rt owner n h (hosts ! h)) [0..<n] = Inr ms" "length ms = n" "\<forall>h<n. ?S h (ms ! h)"
    by auto
  have sent: "\<exists>ess. map_res (send_new_edges (map snd xs)) [0..<n] = Inr ess \<and> length ess = n \<and>
      (\<forall>h<n. arriving owner n (ess ! h))" if "length xs = n" "\<forall>h<n. ?S h (xs ! h)" for xs :: "'d market list"
  proof -
    have "\<forall>st\<in>set xs. length (snd st) = n \<and> proposals_ok owner n (snd st)"
      using that by (metis in_set_conv_nth sound_def)
    then have "\<forall>R\<in>set (map snd xs). length R = n \<and> proposals_ok owner n R" by simp
    then have "\<exists>ess. send_new_edges (map snd xs) h = Inr ess \<and> arriving owner n ess" if "h \<in> set [0..<n]" for h
      using send_new_edges_ok [of "map snd xs" n owner h] that \<open>length xs = n\<close> by simp
    from map_res_ok [of "[0..<n]" _ "\<lambda>_. arriving owner n", OF this] show ?thesis by auto
  qed
  obtain potential where
    potential: "map_res (send_new_edges (map snd ms)) [0..<n] = Inr potential" "\<forall>h<n. arriving owner n (potential ! h)"
    using sent [OF ms(2,3)] by blast
  have "\<exists>st. try_add_edges rt owner (potential ! h) (fst (ms ! h), cleared (snd (ms ! h)) h) = Inr st \<and> ?S h st"
    if "h \<in> set [0..<n]" for h
    using that ms(3) potential(2) by (intro try_add_edges_sound [OF rt] sound_cleared) simp_all
  from map_res_ok [of "[0..<n]" _ ?S, OF this] obtain ms' where
    ms': "map_res (\<lambda>h. try_add_edges rt owner (potential ! h) (fst (ms ! h), cleared (snd (ms ! h)) h)) [0..<n] = Inr ms'"
      "length ms' = n" "\<forall>h<n. ?S h (ms' ! h)" by auto
  obtain decided where
    decided: "map_res (send_new_edges (map snd ms')) [0..<n] = Inr decided" "\<forall>h<n. arriving owner n (decided ! h)"
    using sent [OF ms'(2,3)] by blast
  have "\<exists>H. add_purchase_edges rt (decided ! h) (fst (ms' ! h)) = Inr H \<and> settles (hosts ! h) H" if "h \<in> set [0..<n]" for h
    using that ms'(3) decided(2) by (intro add_purchase_edges_sound [OF rt, where owner = owner and n = n]) (simp_all add: sound_def)
  from map_res_ok [of "[0..<n]" _ "\<lambda>h. settles (hosts ! h)", OF this] obtain hs where
    hs: "map_res (\<lambda>h. add_purchase_edges rt (decided ! h) (fst (ms' ! h))) [0..<n] = Inr hs" "length hs = n"
      "\<forall>h<n. settles (hosts ! h) (hs ! h)" by auto
  show ?thesis
    using ms(1) potential(1) ms'(1) decided(1) hs by (intro exI [of _ hs]) (simp add: quiesce_graph_def n_def Let_def)
qed

end
