(* ===== verification/Wf4Main.thy ===== *)
theory Wf4Main
  imports Wf4Import
begin

text \<open>
  The program options and the edge statistics of wf4/src/main.cpp. \<open>getopt\<close> is the C
  library's: the loop is modelled over the option characters and arguments it delivers, with
  a question mark for anything it does not know. \<open>None\<close> is the exit with the usage message.
\<close>

section \<open>Options\<close>

record options =
  num_threads :: nat
  opt_k :: nat
  opt_rrr :: nat
  opt_seed :: nat
  opt_epochs :: nat
  input_directory :: string
  commercial_input_file :: string
  cyber_input_file :: string
  social_input_file :: string
  uses_input_file :: string
  nodes_input_file :: string

definition default_options :: options where
  "default_options = \<lparr>num_threads = 16, opt_k = 100, opt_rrr = 100000, opt_seed = 98011089,
     opt_epochs = 100, input_directory = [], commercial_input_file = [], cyber_input_file = [],
     social_input_file = [], uses_input_file = [], nodes_input_file = []\<rparr>"

definition set_option :: "char \<times> string \<Rightarrow> options \<Rightarrow> options option" where
  "set_option p po = (case p of (opt, arg) \<Rightarrow>
     if opt = CHR ''t'' then Some (po\<lparr>num_threads := strtoull arg\<rparr>)
     else if opt = CHR ''k'' then Some (po\<lparr>opt_k := strtoull arg\<rparr>)
     else if opt = CHR ''r'' then Some (po\<lparr>opt_rrr := strtoull arg\<rparr>)
     else if opt = CHR ''s'' then Some (po\<lparr>opt_seed := strtoull arg\<rparr>)
     else if opt = CHR ''e'' then Some (po\<lparr>opt_epochs := strtoull arg\<rparr>)
     else if opt = CHR ''d'' then Some (po\<lparr>input_directory := arg\<rparr>)
     else if opt = CHR ''c'' then Some (po\<lparr>commercial_input_file := arg\<rparr>)
     else if opt = CHR ''y'' then Some (po\<lparr>cyber_input_file := arg\<rparr>)
     else if opt = CHR ''o'' then Some (po\<lparr>social_input_file := arg\<rparr>)
     else if opt = CHR ''u'' then Some (po\<lparr>uses_input_file := arg\<rparr>)
     else if opt = CHR ''n'' then Some (po\<lparr>nodes_input_file := arg\<rparr>)
     else None)"

definition verify_options :: "options \<Rightarrow> bool" where
  "verify_options po \<longleftrightarrow> \<not> opt_k po \<le> 0 \<and> \<not> opt_rrr po \<le> 0 \<and>
     \<not> (input_directory po = [] \<and> commercial_input_file po = [] \<and> cyber_input_file po = [] \<and>
        social_input_file po = [] \<and> uses_input_file po = [] \<and> nodes_input_file po = [])"

fun parse_loop :: "(char \<times> string) list \<Rightarrow> options \<Rightarrow> options option" where
  "parse_loop [] po = Some po"
| "parse_loop (p # ps) po =
     (case set_option p po of None \<Rightarrow> None | Some po' \<Rightarrow> parse_loop ps po')"

definition parse_options :: "(char \<times> string) list \<Rightarrow> options option" where
  "parse_options ps =
     (case parse_loop ps default_options of
        None \<Rightarrow> None
      | Some po \<Rightarrow> if verify_options po then Some po else None)"

definition files_of_options :: "options \<Rightarrow> input_files" where
  "files_of_options po = input_files_of (input_directory po) (commercial_input_file po)
     (cyber_input_file po) (social_input_file po) (uses_input_file po) (nodes_input_file po)"

definition all_files :: "input_files \<Rightarrow> string list" where
  "all_files fs = commercial_files fs @ cyber_files fs @ social_files fs @ uses_files fs @ nodes_files fs"

section \<open>Edge statistics\<close>

text \<open>
  A master node is its type and its edges; the flag of an edge says whether looking up its
  destination throws \<open>std::out_of_range\<close>, which the loop catches.
\<close>

record counts =
  c_edges :: nat
  c_person_nodes :: nat
  c_trading_edges :: nat
  c_trading_person_edges :: nat

definition is_trade :: "'d::linordered_field full_edge \<Rightarrow> bool res" where
  "is_trade data =
     (if (fe_type data = SALE \<or> fe_type data = PURCHASE) \<and> fe_topic data = 8486
      then case fe_amount data of None \<Rightarrow> Inl Indeterminate | Some a \<Rightarrow> Inr (a > 0)
      else Inr False)"

definition count_edge :: "types \<Rightarrow> 'd::linordered_field full_edge \<times> bool \<Rightarrow> counts \<times> bool
    \<Rightarrow> (counts \<times> bool) res" where
  "count_edge node_type p st = (case (p, st) of ((data, throws), (c, has_valid_edges)) \<Rightarrow>
     if throws then Inr st
     else res_map (\<lambda>t.
         if t then
           (if node_type = PERSON
            then (c\<lparr>c_trading_edges := c_trading_edges c + 1,
                    c_trading_person_edges := c_trading_person_edges c + 1\<rparr>, True)
            else (c\<lparr>c_trading_edges := c_trading_edges c + 1\<rparr>, has_valid_edges))
         else st)
       (is_trade data))"

definition count_node :: "types \<times> ('d::linordered_field full_edge \<times> bool) list \<Rightarrow> counts
    \<Rightarrow> counts res" where
  "count_node n c = (case n of (node_type, es) \<Rightarrow>
     res_map (\<lambda>(c', has_valid_edges).
         if has_valid_edges then c'\<lparr>c_person_nodes := c_person_nodes c' + 1\<rparr> else c')
       (fold_res (count_edge node_type) es (c\<lparr>c_edges := c_edges c + length es\<rparr>, False)))"

definition count_edges ::
  "(types \<times> ('d::linordered_field full_edge \<times> bool) list) list \<Rightarrow> counts res" where
  "count_edges masters = fold_res count_node masters \<lparr>c_edges = 0, c_person_nodes = 0,
     c_trading_edges = 0, c_trading_person_edges = 0\<rparr>"

section \<open>What is counted\<close>

definition trades :: "('d::linordered_field full_edge \<times> bool) list \<Rightarrow> nat" where
  "trades es = length (filter (\<lambda>p. \<not> snd p \<and> is_trade (fst p) = Inr True) es)"

definition edges_readable :: "('d::linordered_field full_edge \<times> bool) list \<Rightarrow> bool" where
  "edges_readable es \<longleftrightarrow> (\<forall>p\<in>set es. \<not> snd p \<longrightarrow> is_trade (fst p) \<in> range Inr)"

lemma count_edge_loop:
  assumes "edges_readable es"
  shows "fold_res (count_edge ty) es (c, b) =
    Inr (c\<lparr>c_trading_edges := c_trading_edges c + trades es,
      c_trading_person_edges := c_trading_person_edges c + (if ty = PERSON then trades es else 0)\<rparr>,
      b \<or> (ty = PERSON \<and> trades es > 0))"
  using assms
proof (induction es arbitrary: c b)
  case Nil
  then show ?case by (simp add: trades_def)
next
  case (Cons p es)
  obtain data throws where p: "p = (data, throws)" by (cases p)
  have es: "edges_readable es" using Cons.prems by (simp add: edges_readable_def)
  show ?case
  proof (cases "throws \<or> is_trade data = Inr False")
    case True
    then have "count_edge ty p (c, b) = Inr (c, b)" by (auto simp: count_edge_def p)
    then show ?thesis using Cons.IH [OF es] True by (auto simp: trades_def p)
  next
    case False
    then have "is_trade data = Inr True"
      using Cons.prems by (auto simp: edges_readable_def p)
    then show ?thesis
      using Cons.IH [OF es] False by (simp add: count_edge_def p trades_def)
  qed
qed

lemma count_node_loop:
  assumes "\<forall>n\<in>set masters. edges_readable (snd n)"
  shows "fold_res count_node masters c = Inr
    \<lparr>c_edges = c_edges c + sum_list (map (\<lambda>n. length (snd n)) masters),
     c_person_nodes = c_person_nodes c +
       length (filter (\<lambda>n. fst n = PERSON \<and> trades (snd n) > 0) masters),
     c_trading_edges = c_trading_edges c + sum_list (map (\<lambda>n. trades (snd n)) masters),
     c_trading_person_edges = c_trading_person_edges c +
       sum_list (map (\<lambda>n. trades (snd n)) (filter (\<lambda>n. fst n = PERSON) masters))\<rparr>"
  using assms
proof (induction masters arbitrary: c)
  case Nil
  then show ?case by simp
next
  case (Cons n masters)
  obtain ty es where n: "n = (ty, es)" by (cases n)
  have "edges_readable es" using Cons.prems by (simp add: n)
  with Cons show ?case by (simp add: count_node_def n count_edge_loop)
qed

lemma parse_loop_files:
  "verify_options po \<Longrightarrow> all_files (files_of_options po) \<noteq> []"
  by (auto simp: verify_options_def all_files_def files_of_options_def input_files_of_def
      add_file_def Let_def)

end
