(* ===== verification/Wf4RrrNet.thy ===== *)
theory Wf4RrrNet
  imports Wf4RrrHosts
begin

text \<open>
  What the network of hosts keeps while the reverse reachable sets are built. A live set is a
  pair of the host that holds it (or that it is addressed to) and the set. Every set is either
  live or stored in its slot, and a node has been counted once for every set it is in, except
  where it still waits in a frontier.
\<close>

type_synonym live = "(nat \<times> partial_set) multiset"

definition key :: "nat \<times> partial_set \<Rightarrow> nat \<times> nat" where
  "key hp = (ps_owner (snd hp), ps_id (snd hp))"

definition slot_count :: "nat set list list \<Rightarrow> nat \<Rightarrow> nat" where
  "slot_count slots x = (\<Sum>row\<leftarrow>slots. \<Sum>s\<leftarrow>row. ind s x)"

definition set_slot :: "nat \<times> nat \<Rightarrow> nat set \<Rightarrow> nat set list list \<Rightarrow> nat set list list" where
  "set_slot k s slots = slots[fst k := (slots ! fst k)[snd k := s]]"

definition valid_key :: "nat set list list \<Rightarrow> nat \<times> nat \<Rightarrow> bool" where
  "valid_key slots k \<longleftrightarrow> fst k < length slots \<and> snd k < length (slots ! fst k)"

definition slot :: "nat set list list \<Rightarrow> nat \<times> nat \<Rightarrow> nat set" where
  "slot slots k = slots ! fst k ! snd k"

text \<open>A set for the root \<open>r\<close>: it contains \<open>r\<close>, and only what \<open>r\<close> reaches.\<close>

definition rooted :: "'d rrr_graph \<Rightarrow> nat \<Rightarrow> nat set \<Rightarrow> bool" where
  "rooted g r A \<longleftrightarrow> r \<in> A \<and> (\<forall>x\<in>A. (r, x) \<in> (rrr_rel g)\<^sup>*)"

definition live_ok :: "'d rrr_graph \<Rightarrow> nat set \<Rightarrow> (nat \<times> nat \<Rightarrow> nat) \<Rightarrow> nat set list list \<Rightarrow>
    nat \<times> partial_set \<Rightarrow> bool" where
  "live_ok g U root_of slots hp \<longleftrightarrow> ps_ok U (snd hp) \<and> valid_key slots (key hp) \<and>
     slot slots (key hp) = {} \<and> rooted g (root_of (key hp)) (ps_reached (snd hp)) \<and>
     (root_of (key hp) \<in> ps_frontier (snd hp) \<longrightarrow> fst hp = fst (key hp))"

definition counted :: "live \<Rightarrow> nat set list list \<Rightarrow> (nat \<Rightarrow> nat) \<Rightarrow> nat \<Rightarrow> bool" where
  "counted L slots F x \<longleftrightarrow>
     F x + (\<Sum>hp\<in>#L. ind (ps_frontier (snd hp)) x) =
       (\<Sum>hp\<in>#L. ind (ps_reached (snd hp)) x) + slot_count slots x"

definition net_inv :: "'d rrr_graph \<Rightarrow> nat set \<Rightarrow> (nat \<times> nat \<Rightarrow> nat) \<Rightarrow> live \<Rightarrow> nat set list list \<Rightarrow>
    (nat \<Rightarrow> nat) \<Rightarrow> bool" where
  "net_inv g U root_of L slots F \<longleftrightarrow>
     (\<forall>hp\<in>#L. live_ok g U root_of slots hp) \<and>
     (\<forall>k. count (image_mset key L) k \<le> 1) \<and>
     (\<forall>k. valid_key slots k \<longrightarrow> k \<in># image_mset key L \<or> rooted g (root_of k) (slot slots k)) \<and>
     (\<forall>x. counted L slots F x)"

lemma net_invD:
  assumes "net_inv g U root_of L slots F"
  shows "hp \<in># L \<Longrightarrow> live_ok g U root_of slots hp" "count (image_mset key L) k \<le> 1"
    "valid_key slots k \<Longrightarrow> k \<in># image_mset key L \<or> rooted g (root_of k) (slot slots k)"
    "counted L slots F x"
  using assms unfolding net_inv_def by blast+

section \<open>Slots\<close>

lemma set_slot_facts:
  assumes "valid_key slots k"
  shows "valid_key (set_slot k s slots) j \<longleftrightarrow> valid_key slots j"
    "valid_key slots j \<Longrightarrow> slot (set_slot k s slots) j = (if j = k then s else slot slots j)"
    "length (set_slot k s slots) = length slots"
    "map length (set_slot k s slots) = map length slots"
proof -
  show "valid_key (set_slot k s slots) j \<longleftrightarrow> valid_key slots j"
    using assms by (auto simp: valid_key_def set_slot_def nth_list_update)
  show "valid_key slots j \<Longrightarrow> slot (set_slot k s slots) j = (if j = k then s else slot slots j)"
    using assms by (cases j, cases k) (auto simp: valid_key_def set_slot_def slot_def nth_list_update)
  show "length (set_slot k s slots) = length slots" by (simp add: set_slot_def)
  show "map length (set_slot k s slots) = map length slots"
    by (simp add: set_slot_def map_update list_update_same_conv assms [unfolded valid_key_def])
qed

lemma sum_list_update_nat:
  "k < length xs \<Longrightarrow> sum_list (xs[k := (y::nat)]) + xs ! k = sum_list xs + y"
  by (induction xs arbitrary: k) (auto split: nat.splits)

lemma slot_count_set:
  assumes "valid_key slots k" "slot slots k = {}"
  shows "slot_count (set_slot k s slots) x = slot_count slots x + ind s x"
proof -
  let ?row = "slots ! fst k"
  let ?f = "\<lambda>s. ind s x" and ?g = "\<lambda>row. \<Sum>s\<leftarrow>row. ind s x"
  have k: "fst k < length slots" "snd k < length ?row" "?row ! snd k = {}"
    using assms by (auto simp: valid_key_def slot_def)
  have "?g (?row[snd k := s]) + 0 = ?g ?row + ?f s"
    using sum_list_update_nat [of "snd k" "map ?f ?row" "?f s"] k
    by (simp add: map_update ind_def)
  moreover have "slot_count (set_slot k s slots) x + ?g ?row =
      slot_count slots x + ?g (?row[snd k := s])"
    using sum_list_update_nat [of "fst k" "map ?g slots" "?g (?row[snd k := s])"] k
    by (simp add: map_update slot_count_def set_slot_def)
  ultimately show ?thesis by linarith
qed

section \<open>One set\<close>

lemma net_inv_store:
  assumes inv: "net_inv g U root_of (add_mset hp L) slots F"
    and ok: "rooted g (root_of (key hp)) A"
    and acc: "\<And>x. F' x + ind (ps_reached (snd hp)) x = F x + ind (ps_frontier (snd hp)) x + ind A x"
  shows "net_inv g U root_of L (set_slot (key hp) A slots) F'"
  unfolding net_inv_def
proof (intro conjI)
  let ?k = "key hp"
  have hp: "live_ok g U root_of slots hp" by (rule net_invD(1) [OF inv]) simp
  then have k: "valid_key slots ?k" "slot slots ?k = {}" by (simp_all add: live_ok_def)
  have once: "count (image_mset key (add_mset hp L)) j \<le> 1" for j by (rule net_invD(2) [OF inv])
  have "count (image_mset key L) ?k = 0" using once [of ?k] by simp
  then have new: "?k \<notin># image_mset key L" by (simp only: not_in_iff)
  show "\<forall>hp'\<in>#L. live_ok g U root_of (set_slot ?k A slots) hp'"
  proof
    fix hp'
    assume hp': "hp' \<in># L"
    then have "live_ok g U root_of slots hp'" by (intro net_invD(1) [OF inv]) simp
    moreover have "key hp' \<noteq> ?k" using new hp' by (metis image_eqI set_image_mset)
    ultimately show "live_ok g U root_of (set_slot ?k A slots) hp'"
      using set_slot_facts(1,2) [OF k(1)] by (simp add: live_ok_def)
  qed
  show "\<forall>j. count (image_mset key L) j \<le> 1"
  proof
    fix j
    show "count (image_mset key L) j \<le> 1"
      using once [of j] by (cases "j = ?k") simp_all
  qed
  show "\<forall>j. valid_key (set_slot ?k A slots) j \<longrightarrow>
      j \<in># image_mset key L \<or> rooted g (root_of j) (slot (set_slot ?k A slots) j)"
  proof (intro allI impI)
    fix j
    assume "valid_key (set_slot ?k A slots) j"
    then have j: "valid_key slots j" using set_slot_facts(1) [OF k(1)] by blast
    then have "j \<in># image_mset key (add_mset hp L) \<or> rooted g (root_of j) (slot slots j)"
      by (rule net_invD(3) [OF inv])
    then show "j \<in># image_mset key L \<or> rooted g (root_of j) (slot (set_slot ?k A slots) j)"
      using set_slot_facts(2) [OF k(1) j] ok by (cases "j = ?k") auto
  qed
  show "\<forall>x. counted L (set_slot ?k A slots) F' x"
  proof
    fix x
    have "counted (add_mset hp L) slots F x" by (rule net_invD(4) [OF inv])
    with acc [of x] slot_count_set [OF k, of A x] show "counted L (set_slot ?k A slots) F' x"
      unfolding counted_def by simp
  qed
qed

lemma net_inv_move:
  assumes inv: "net_inv g U root_of (add_mset hp L) slots F"
    and ok: "live_ok g U root_of slots hp'" and key: "key hp' = key hp"
    and acc: "\<And>x. F' x + ind (ps_frontier (snd hp')) x + ind (ps_reached (snd hp)) x =
      F x + ind (ps_frontier (snd hp)) x + ind (ps_reached (snd hp')) x"
  shows "net_inv g U root_of (add_mset hp' L) slots F'"
proof -
  have "counted (add_mset hp' L) slots F' x" for x
  proof -
    have "counted (add_mset hp L) slots F x" by (rule net_invD(4) [OF inv])
    with acc [of x] show ?thesis unfolding counted_def by simp
  qed
  with inv ok key show ?thesis by (simp add: net_inv_def)
qed

lemma net_inv_all_stored:
  assumes "net_inv g U root_of {#} slots F"
  shows "valid_key slots k \<Longrightarrow> rooted g (root_of k) (slot slots k)" "F x = slot_count slots x"
  using net_invD(3) [OF assms, of k] net_invD(4) [OF assms, of x] by (simp_all add: counted_def)

section \<open>Boxes of sets, one per destination\<close>

definition boxed :: "partial_set list list \<Rightarrow> live" where
  "boxed boxes = (\<Sum>d<length boxes. image_mset (Pair d) (mset (boxes ! d)))"

lemma boxed_update:
  assumes "d < length boxes"
  shows "boxed (boxes[d := ps]) = image_mset (Pair d) (mset ps) + boxed (boxes[d := []])"
proof -
  have split: "boxed (boxes[d := ps']) = image_mset (Pair d) (mset ps') +
      (\<Sum>e\<in>{..<length boxes} - {d}. image_mset (Pair e) (mset (boxes ! e)))" for ps'
    using assms unfolding boxed_def
    by (subst sum.remove [of _ d]) (auto intro!: arg_cong2 [of _ _ _ _ "(+)"] sum.cong)
  show ?thesis unfolding split [of ps] split [of "[]"] by simp
qed

lemma boxed_at: "d < length boxes \<Longrightarrow>
  boxed boxes = image_mset (Pair d) (mset (boxes ! d)) + boxed (boxes[d := []])"
  using boxed_update [of d boxes "boxes ! d"] by simp

lemma boxed_snoc:
  assumes "d < length boxes"
  shows "boxed (boxes[d := boxes ! d @ [p]]) = add_mset (d, p) (boxed boxes)"
  using boxed_update [OF assms, of "boxes ! d @ [p]"] boxed_at [OF assms] by simp

lemma in_boxed: "(d, p) \<in># boxed boxes \<longleftrightarrow> d < length boxes \<and> p \<in> set (boxes ! d)"
  by (auto simp: boxed_def set_mset_sum)

lemma boxed_empty: "(\<forall>b\<in>set boxes. b = []) \<Longrightarrow> boxed boxes = {#}"
  unfolding boxed_def by (rule sum.neutral) (auto simp: nth_mem)

section \<open>One host\<close>

text \<open>\<open>hosts_of\<close>: the graph has \<open>n\<close> hosts.\<close>

definition hosts_of :: "'d rrr_graph \<Rightarrow> nat set \<Rightarrow> nat \<Rightarrow> bool" where
  "hosts_of g U n \<longleftrightarrow> (\<forall>x\<in>U. rg_owner g x < n)"

definition roots_ok :: "'d rrr_graph \<Rightarrow> (nat \<times> nat \<Rightarrow> nat) \<Rightarrow> nat list \<Rightarrow> bool" where
  "roots_ok g root_of lens \<longleftrightarrow>
     (\<forall>k. fst k < length lens \<and> snd k < lens ! fst k \<longrightarrow> rg_owner g (root_of k) = fst k)"

lemma roots_okD:
  "roots_ok g root_of (map length slots) \<Longrightarrow> valid_key slots k \<Longrightarrow> rg_owner g (root_of k) = fst k"
  unfolding roots_ok_def valid_key_def by (metis length_map nth_map)

lemma continue_live:
  assumes inv: "net_inv g U root_of (add_mset (h, p) L) slots F" and g: "graph_within g U"
    and enum: "enum_ok enum" and roots: "roots_ok g root_of (map length slots)"
  shows "\<exists>p' F'. continue_set g enum h draw finish p F = Some (p', F') \<and>
    ps_id p' = ps_id p \<and> ps_owner p' = ps_owner p \<and> ps_ok U p' \<and>
    (\<forall>x\<in>ps_frontier p'. rg_owner g x \<noteq> h) \<and> (finish \<longrightarrow> ps_frontier p' = {}) \<and>
    (\<forall>d. net_inv g U root_of (add_mset (d, p') L) slots F') \<and>
    (ps_frontier p' = {} \<longrightarrow>
      net_inv g U root_of L (set_slot (key (h, p)) (ps_reached p') slots) F')"
proof -
  let ?r = "root_of (key (h, p))"
  have live: "live_ok g U root_of slots (h, p)" by (rule net_invD(1) [OF inv]) simp
  then have p: "ps_ok U p" by (simp add: live_ok_def)
  obtain p' F' where run: "continue_set g enum h draw finish p F = Some (p', F')"
    and ok: "ps_ok U p'" "ps_id p' = ps_id p" "ps_owner p' = ps_owner p"
    and remote: "\<forall>x\<in>ps_frontier p'. rg_owner g x \<noteq> h \<and> (x \<in> ps_reached p \<longrightarrow> x \<in> ps_frontier p)"
    and fin: "finish \<longrightarrow> ps_frontier p' = {}"
    and kept: "\<forall>x\<in>ps_reached p. x \<in> ps_reached p' \<or> finish \<and> x \<in> ps_frontier p \<and> rg_owner g x \<noteq> h"
    and reach: "\<forall>x\<in>ps_reached p'. \<exists>y\<in>ps_reached p. (y, x) \<in> (rrr_rel g)\<^sup>*"
    and acc: "\<And>x. F' x + ind (ps_frontier p') x + ind (ps_reached p) x =
       F x + ind (ps_frontier p) x + ind (ps_reached p') x"
    using continue_set_ok [OF p g enum, of h draw finish F] by blast
  have key: "key (d, p') = key (h, p)" for d by (simp add: key_def ok)
  have vk: "valid_key slots (key (h, p))" "slot slots (key (h, p)) = {}"
    and rt: "rooted g ?r (ps_reached p)"
    and home: "?r \<in> ps_frontier p \<Longrightarrow> h = fst (key (h, p))"
    using live by (simp_all add: live_ok_def)
  have owner: "rg_owner g ?r = fst (key (h, p))" by (rule roots_okD [OF roots vk(1)])
  have "?r \<in> ps_reached p" using rt by (simp add: rooted_def)
  then have r: "?r \<in> ps_reached p'" "?r \<notin> ps_frontier p'"
    using kept remote home owner by auto
  have "(?r, x) \<in> (rrr_rel g)\<^sup>*" if "x \<in> ps_reached p'" for x
    using reach rt that unfolding rooted_def by (meson rtrancl_trans)
  with r(1) have rt': "rooted g ?r (ps_reached p')" by (simp add: rooted_def)
  have "net_inv g U root_of (add_mset (d, p') L) slots F'" for d
  proof (rule net_inv_move [OF inv])
    show "live_ok g U root_of slots (d, p')"
      unfolding live_ok_def key snd_conv using ok(1) vk rt' r(2) by simp
  qed (simp_all add: key acc)
  moreover have "net_inv g U root_of L (set_slot (key (h, p)) (ps_reached p') slots) F'"
    if "ps_frontier p' = {}"
  proof (rule net_inv_store [OF inv rt'])
    show "F' x + ind (ps_reached (snd (h, p))) x =
        F x + ind (ps_frontier (snd (h, p))) x + ind (ps_reached p') x" for x
      using acc [of x] that by (simp add: ind_def)
  qed
  ultimately show ?thesis using run ok remote fin by blast
qed

text \<open>What a finishing pass sends: sets without a frontier, to their owners.\<close>

definition sent_home :: "nat \<Rightarrow> nat \<times> partial_set \<Rightarrow> bool" where
  "sent_home h dq \<longleftrightarrow> fst dq = ps_owner (snd dq) \<and> ps_owner (snd dq) \<noteq> h \<and> ps_frontier (snd dq) = {}"

text \<open>The state of a host \<open>h\<close> in its loop, with the rest of the network \<open>L\<close>, \<open>slots\<close> around it.\<close>

definition host_inv :: "'d rrr_graph \<Rightarrow> nat set \<Rightarrow> (nat \<times> nat \<Rightarrow> nat) \<Rightarrow> nat \<Rightarrow> nat list \<Rightarrow>
    nat set list list \<Rightarrow> live \<Rightarrow> rrr_host \<Rightarrow> bool" where
  "host_inv g U root_of h lens slots L st \<longleftrightarrow>
     net_inv g U root_of (L + boxed (rh_out st)) (slots[h := rh_slots st]) (rh_freq st) \<and>
     map length (slots[h := rh_slots st]) = lens \<and> length (rh_out st) = length lens \<and>
     rh_out st ! h = []"

lemma generate_set_live:
  assumes inv: "host_inv g U root_of h lens slots (add_mset (h, p) L) st"
    and g: "graph_within g U" "hosts_of g U (length lens)" and enum: "enum_ok enum"
    and roots: "roots_ok g root_of lens" and h: "h < length lens"
  shows "\<exists>st'. generate_set g enum draw h finish (i, p) st = Inr st' \<and>
    host_inv g U root_of h lens slots L st' \<and>
    (finish \<longrightarrow> (\<forall>dq\<in>#boxed (rh_out st'). dq \<in># boxed (rh_out st) \<or> ps_owner p \<noteq> h \<and> sent_home h dq))"
proof -
  let ?slots = "slots[h := rh_slots st]" and ?L = "L + boxed (rh_out st)"
  have net: "net_inv g U root_of (add_mset (h, p) ?L) ?slots (rh_freq st)"
    and lens: "map length ?slots = lens" and out: "length (rh_out st) = length lens" "rh_out st ! h = []"
    using inv by (simp_all add: host_inv_def)
  have slots: "length slots = length lens" using lens by (metis length_list_update length_map)
  have row: "?slots ! h = rh_slots st" using slots h by simp
  have vk: "valid_key ?slots (key (h, p))"
    using net_invD(1) [OF net, of "(h, p)"] by (simp add: live_ok_def)
  obtain p' F' where run:
      "continue_set g enum h (draw (ps_id p) i) finish p (rh_freq st) = Some (p', F')"
    and p': "ps_id p' = ps_id p" "ps_owner p' = ps_owner p" "ps_ok U p'"
    and remote: "\<forall>x\<in>ps_frontier p'. rg_owner g x \<noteq> h" and fin: "finish \<longrightarrow> ps_frontier p' = {}"
    and fwd: "\<And>d. net_inv g U root_of (add_mset (d, p') ?L) ?slots F'"
    and store: "ps_frontier p' = {} \<longrightarrow>
      net_inv g U root_of ?L (set_slot (key (h, p)) (ps_reached p') ?slots) F'"
    using continue_live [OF net g(1) enum, of "draw (ps_id p) i" finish] roots lens by blast
  show ?thesis
  proof (cases "ps_owner p' = h \<and> (finish \<or> ps_finished p')")
    case True
    then have none: "ps_frontier p' = {}" using fin by (auto simp: ps_finished_def)
    have i: "ps_id p' < length (rh_slots st)"
      using vk True row by (auto simp: valid_key_def key_def p')
    let ?row = "(rh_slots st)[ps_id p' := ps_reached p']"
    let ?st = "st\<lparr>rh_freq := F', rh_slots := ?row\<rparr>"
    have eq: "set_slot (key (h, p)) (ps_reached p') ?slots = slots[h := ?row]"
      using True h slots by (simp add: set_slot_def key_def p')
    have "map length (slots[h := ?row]) = lens"
      using set_slot_facts(4) [OF vk] lens unfolding eq [symmetric] by metis
    then have "host_inv g U root_of h lens slots L ?st"
      using store none out unfolding eq host_inv_def by simp
    moreover have "generate_set g enum draw h finish (i, p) st = Inr ?st"
      using True i by (simp add: generate_set_def run)
    ultimately show ?thesis by (intro exI [of _ ?st]) simp
  next
    case False
    define d where "d = next_host g enum finish p'"
    have home: "finish \<or> ps_frontier p' = {} \<longrightarrow> d = ps_owner p'"
      by (simp add: d_def next_host_def ps_finished_def)
    have away: "rg_owner g (hd (enum (ps_frontier p'))) \<noteq> h \<and>
        rg_owner g (hd (enum (ps_frontier p'))) < length lens" if "ps_frontier p' \<noteq> {}"
    proof -
      have "finite (ps_frontier p')"
        using p'(3) g(1) by (meson finite_subset graph_within_def ps_ok_def)
      then have "hd (enum (ps_frontier p')) \<in> ps_frontier p'"
        using that enum by (metis enum_ok_def hd_in_set set_empty2)
      then show ?thesis using remote g(2) p'(3) by (auto simp: hosts_of_def ps_ok_def)
    qed
    have owner: "ps_owner p' < length lens"
      using vk slots by (simp add: valid_key_def key_def p')
    have d: "d \<noteq> h" "d < length lens"
      using False away owner by (auto simp: d_def next_host_def ps_finished_def)
    let ?out = "(rh_out st)[d := rh_out st ! d @ [p']]"
    let ?st = "st\<lparr>rh_freq := F', rh_out := ?out\<rparr>"
    have box: "boxed ?out = add_mset (d, p') (boxed (rh_out st))"
      using d out by (intro boxed_snoc) simp
    have "host_inv g U root_of h lens slots L ?st"
      using fwd [of d] lens out d by (simp add: host_inv_def box)
    moreover have "generate_set g enum draw h finish (i, p) st = Inr ?st"
      using False d out by (auto simp: generate_set_def run d_def [symmetric])
    moreover have "finish \<longrightarrow> ps_owner p \<noteq> h \<and> sent_home h (d, p')"
      using home fin False d p'(2) by (auto simp: sent_home_def ps_finished_def)
    ultimately show ?thesis by (intro exI [of _ ?st]) (auto simp: box)
  qed
qed

lemma generate_sets_live:
  assumes rt: "galois_ok rt"
    and inv: "host_inv g U root_of h lens slots (image_mset (Pair h) (mset parts) + L) st"
    and g: "graph_within g U" "hosts_of g U (length lens)" and enum: "enum_ok enum"
    and roots: "roots_ok g root_of lens" and h: "h < length lens"
  shows "\<exists>st'. generate_sets rt k g enum draw h finish parts st = Inr st' \<and>
    host_inv g U root_of h lens slots L st' \<and>
    (finish \<longrightarrow> (\<forall>dq\<in>#boxed (rh_out st'). dq \<in># boxed (rh_out st) \<or>
       (\<exists>p\<in>set parts. ps_owner p \<noteq> h) \<and> sent_home h dq))"
proof -
  let ?xs = "enumerate 0 parts"
  let ?rem = "\<lambda>M. image_mset (\<lambda>ip. (h, snd ip)) M"
  let ?new = "\<lambda>st'. finish \<longrightarrow> (\<forall>dq\<in>#boxed (rh_out st'). dq \<in># boxed (rh_out st) \<or>
       (\<exists>p\<in>set parts. ps_owner p \<noteq> h) \<and> sent_home h dq)"
  let ?P = "\<lambda>ys st'. host_inv g U root_of h lens slots (?rem (mset ?xs - mset ys) + L) st' \<and> ?new st'"
  have "mset parts = image_mset snd (mset ?xs)"
    by (metis map_snd_enumerate mset_map)
  then have start: "image_mset (Pair h) (mset parts) = ?rem (mset ?xs)"
    by (simp add: image_mset.compositionality comp_def)
  have "\<exists>ys st'. mset ys = mset ?xs \<and> generate_sets rt k g enum draw h finish parts st = Inr st' \<and> ?P ys st'"
    unfolding generate_sets_def
  proof (rule do_all_rule [OF rt])
    show "?P [] st" using inv unfolding start by simp
  next
    fix ys x st1
    assume sub: "mset (ys @ [x]) \<subseteq># mset ?xs" and x: "x \<in> set ?xs" and P: "?P ys st1"
    obtain i p where ip: "x = (i, p)" by (cases x)
    have p: "p \<in> set parts" using x ip by (auto simp: in_set_enumerate_eq)
    have "mset ?xs - mset ys = add_mset x (mset ?xs - mset (ys @ [x]))"
      using sub by (auto simp: multiset_eq_iff subseteq_mset_def split: if_splits)
        (metis Suc_diff_Suc less_eq_Suc_le)
    then have "host_inv g U root_of h lens slots (add_mset (h, p) (?rem (mset ?xs - mset (ys @ [x])) + L)) st1"
      using P ip by simp
    from generate_set_live [OF this g enum roots h, of draw finish i] obtain st2 where
      "generate_set g enum draw h finish (i, p) st1 = Inr st2"
      "host_inv g U root_of h lens slots (?rem (mset ?xs - mset (ys @ [x])) + L) st2"
      "finish \<longrightarrow> (\<forall>dq\<in>#boxed (rh_out st2). dq \<in># boxed (rh_out st1) \<or> ps_owner p \<noteq> h \<and> sent_home h dq)"
      by blast
    with P p ip show "\<exists>st2. generate_set g enum draw h finish x st1 = Inr st2 \<and> ?P (ys @ [x]) st2"
      by blast
  qed
  then show ?thesis by auto
qed

section \<open>All hosts\<close>

definition net_live :: "rrr_net \<Rightarrow> live" where
  "net_live net = boxed (rn_parts net) + (\<Sum>s<length (rn_out net). boxed (rn_out net ! s))"

definition net_ok :: "'d rrr_graph \<Rightarrow> nat set \<Rightarrow> (nat \<times> nat \<Rightarrow> nat) \<Rightarrow> nat list \<Rightarrow> rrr_net \<Rightarrow> bool" where
  "net_ok g U root_of lens net \<longleftrightarrow>
     net_inv g U root_of (net_live net) (rn_slots net) (rn_freq net) \<and>
     map length (rn_slots net) = lens \<and> length (rn_parts net) = length lens \<and>
     length (rn_out net) = length lens \<and>
     (\<forall>s<length lens. length (rn_out net ! s) = length lens \<and> rn_out net ! s ! s = [])"

lemma sum_update:
  fixes f :: "'a \<Rightarrow> 'b::comm_monoid_add"
  assumes "h < length xs" "f z = 0"
  shows "(\<Sum>s<length xs. f (xs[h := y] ! s)) = f y + (\<Sum>s<length xs. f (xs[h := z] ! s))"
proof -
  have "(\<Sum>s<length xs. f (xs[h := y'] ! s)) = f y' + (\<Sum>s\<in>{..<length xs} - {h}. f (xs ! s))" for y'
    using assms(1) by (subst sum.remove [of _ h]) (auto intro!: sum.cong)
  from this [of y] this [of z] assms(2) show ?thesis by simp
qed

lemma generate_host_ok:
  assumes rt: "galois_ok rt" and ok: "net_ok g U root_of lens net"
    and g: "graph_within g U" "hosts_of g U (length lens)" and enum: "enum_ok enum"
    and roots: "roots_ok g root_of lens" and h: "h < length lens"
  shows "\<exists>net'. generate_host rt k g enum draw finish h net = Inr net' \<and>
    net_ok g U root_of lens net' \<and> rn_parts net' = (rn_parts net)[h := []] \<and>
    (\<forall>s. s \<noteq> h \<longrightarrow> rn_out net' ! s = rn_out net ! s) \<and>
    (finish \<longrightarrow> (\<forall>dq\<in>#boxed (rn_out net' ! h). dq \<in># boxed (rn_out net ! h) \<or>
       (\<exists>p\<in>set (rn_parts net ! h). ps_owner p \<noteq> h) \<and> sent_home h dq))"
proof -
  let ?out = "rn_out net" and ?parts = "rn_parts net" and ?slots = "rn_slots net"
  define L where "L = boxed (?parts[h := []]) + (\<Sum>s<length ?out. boxed (?out[h := []] ! s))"
  have len: "length ?parts = length lens" "length ?out = length lens" "map length ?slots = lens"
    "length (?out ! h) = length lens" "?out ! h ! h = []"
    using ok h by (simp_all add: net_ok_def)
  have nil: "boxed [] = {#}" by (simp add: boxed_def)
  have out: "(\<Sum>s<length ?out. boxed (?out[h := o'] ! s)) =
      boxed o' + (\<Sum>s<length ?out. boxed (?out[h := []] ! s))" for o'
    using h len(2) nil by (intro sum_update) simp_all
  have "net_live net = image_mset (Pair h) (mset (?parts ! h)) + L + boxed (?out ! h)"
    using out [of "?out ! h"] boxed_at [of h ?parts] h len(1) by (simp add: net_live_def L_def ac_simps)
  then have start: "host_inv g U root_of h lens ?slots (image_mset (Pair h) (mset (?parts ! h)) + L)
      \<lparr>rh_freq = rn_freq net, rh_slots = ?slots ! h, rh_out = ?out ! h\<rparr>"
    using ok len by (simp add: host_inv_def net_ok_def)
  from generate_sets_live [OF rt start g enum roots h, of k draw finish] obtain st where
    run: "generate_sets rt k g enum draw h finish (?parts ! h)
      \<lparr>rh_freq = rn_freq net, rh_slots = ?slots ! h, rh_out = ?out ! h\<rparr> = Inr st"
    and inv: "host_inv g U root_of h lens ?slots L st"
    and fin: "finish \<longrightarrow> (\<forall>dq\<in>#boxed (rh_out st). dq \<in># boxed (?out ! h) \<or>
       (\<exists>p\<in>set (?parts ! h). ps_owner p \<noteq> h) \<and> sent_home h dq)" by auto
  let ?net = "net\<lparr>rn_freq := rh_freq st, rn_slots := ?slots[h := rh_slots st],
         rn_parts := ?parts[h := []], rn_out := ?out[h := rh_out st]\<rparr>"
  have "net_live ?net = L + boxed (rh_out st)"
    using out [of "rh_out st"] by (simp add: net_live_def L_def ac_simps)
  then have "net_ok g U root_of lens ?net"
    using inv ok h len by (auto simp: host_inv_def net_ok_def nth_list_update)
  moreover have "generate_host rt k g enum draw finish h net = Inr ?net"
    by (simp add: generate_host_def run)
  ultimately show ?thesis
    using fin h len(2) by (intro exI [of _ ?net]) simp
qed

definition generated :: "bool \<Rightarrow> rrr_net \<Rightarrow> rrr_net \<Rightarrow> nat \<Rightarrow> bool" where
  "generated finish net net' h \<longleftrightarrow> rn_parts net' ! h = [] \<and>
     (finish \<longrightarrow> (\<forall>dq\<in>#boxed (rn_out net' ! h).
       (\<exists>p\<in>set (rn_parts net ! h). ps_owner p \<noteq> h) \<and> sent_home h dq))"

lemma generate_all_ok:
  assumes rt: "galois_ok rt" and ok: "net_ok g U root_of lens net"
    and g: "graph_within g U" "hosts_of g U (length lens)" and enum: "enum_ok enum"
    and roots: "roots_ok g root_of lens"
    and out: "\<forall>s<length lens. boxed (rn_out net ! s) = {#}"
  shows "\<exists>net'. generate_all rt rnd g enum draw (length lens) finish net = Inr net' \<and>
    net_ok g U root_of lens net' \<and> (\<forall>h<length lens. generated finish net net' h)"
proof -
  let ?n = "length lens"
  let ?P = "\<lambda>ys net'. net_ok g U root_of lens net' \<and>
    (\<forall>h<?n. if h \<in> set ys then generated finish net net' h
      else rn_parts net' ! h = rn_parts net ! h \<and> rn_out net' ! h = rn_out net ! h)"
  have "\<exists>net'. generate_all rt rnd g enum draw ?n finish net = Inr net' \<and> ?P [0..<?n] net'"
    unfolding generate_all_def
  proof (rule fold_res_rule)
    show "?P [] net" using ok by simp
  next
    fix ys h zs net1
    assume split: "[0..<?n] = ys @ h # zs" and P: "?P ys net1"
    have "set [0..<?n] = set (ys @ h # zs)" "distinct (ys @ h # zs)"
      unfolding split [symmetric] by simp_all
    then have h: "h < ?n" "h \<notin> set ys" by auto
    have len: "length (rn_parts net1) = ?n" using P by (simp add: net_ok_def)
    obtain net2 where run: "generate_host rt (rnd * ?n + h) g enum draw finish h net1 = Inr net2"
      and ok2: "net_ok g U root_of lens net2" and parts: "rn_parts net2 = (rn_parts net1)[h := []]"
      and same: "\<forall>s. s \<noteq> h \<longrightarrow> rn_out net2 ! s = rn_out net1 ! s"
      and fin: "finish \<longrightarrow> (\<forall>dq\<in>#boxed (rn_out net2 ! h). dq \<in># boxed (rn_out net1 ! h) \<or>
       (\<exists>p\<in>set (rn_parts net1 ! h). ps_owner p \<noteq> h) \<and> sent_home h dq)"
      using generate_host_ok [OF rt _ g enum roots h(1)] P by blast
    have "generated finish net net2 h"
      using fin P h out parts len unfolding generated_def by fastforce
    moreover have "generated finish net net2 j" if "j < ?n" "j \<in> set ys" for j
      using P that same parts h(2) unfolding generated_def by (metis nth_list_update_neq)
    moreover have "rn_parts net2 ! j = rn_parts net ! j \<and> rn_out net2 ! j = rn_out net ! j"
      if "j < ?n" "j \<notin> set (ys @ [h])" for j
      using P that same parts by simp
    ultimately have "?P (ys @ [h]) net2" using ok2 by simp
    with run show "\<exists>net2. generate_host rt (rnd * ?n + h) g enum draw finish h net1 = Inr net2 \<and>
      ?P (ys @ [h]) net2" by blast
  qed
  then show ?thesis by auto
qed

section \<open>The exchange\<close>

lemma concat_res_all: "concat_res (map (\<lambda>x. Inr (f x)) xs) = Inr (concat (map f xs))"
  by (induction xs) simp_all

lemma all_res_all: "all_res (map (\<lambda>x. Inr (f x)) xs) = Inr (map f xs)"
  by (induction xs) simp_all

lemma receive_ok:
  assumes enum: "enum_ok enum" and self: "out ! h ! h = []"
    and fin: "\<And>s p. s < n \<Longrightarrow> p \<in> set (out ! s ! h) \<Longrightarrow> finite (ps_reached p) \<and> finite (ps_frontier p)"
  shows "receive enum n out h = Inr (concat (map (\<lambda>s. out ! s ! h) [0..<n]))"
proof -
  have "read_message (if s = h then Words []
        else seal_buffer (concat (map (serialize_set enum) (out ! s ! h)))) = Inr (out ! s ! h)"
    if "s < n" for s
  proof (cases "s = h")
    case True
    then show ?thesis by (simp add: read_message_def buf_size_def self)
  next
    case False
    then show ?thesis using read_sealed [OF enum] fin [OF that] by simp
  qed
  then have "map (\<lambda>s. read_message (if s = h then Words []
        else seal_buffer (concat (map (serialize_set enum) (out ! s ! h))))) [0..<n] =
      map (\<lambda>s. Inr (out ! s ! h)) [0..<n]" by simp
  then show ?thesis by (simp only: receive_def concat_res_all)
qed

lemma boxed_transposed:
  "boxed (map (\<lambda>h. concat (map (\<lambda>s. out ! s ! h) [0..<n])) [0..<m]) =
    (\<Sum>s<n. \<Sum>h<m. image_mset (Pair h) (mset (out ! s ! h)))"
proof -
  have "mset (concat (map (\<lambda>s. out ! s ! h) [0..<n])) = (\<Sum>s<n. mset (out ! s ! h))" for h
    by (induction n) simp_all
  then have "boxed (map (\<lambda>h. concat (map (\<lambda>s. out ! s ! h) [0..<n])) [0..<m]) =
      (\<Sum>h<m. image_mset (Pair h) (\<Sum>s<n. mset (out ! s ! h)))"
    by (simp add: boxed_def)
  also have "\<dots> = (\<Sum>h<m. \<Sum>s<n. image_mset (Pair h) (mset (out ! s ! h)))"
    by (intro sum.cong refl) (induction n, simp_all)
  also have "\<dots> = (\<Sum>s<n. \<Sum>h<m. image_mset (Pair h) (mset (out ! s ! h)))"
    by (rule sum.swap)
  finally show ?thesis .
qed

definition quiet :: "nat \<Rightarrow> rrr_net \<Rightarrow> bool" where
  "quiet n net \<longleftrightarrow> rn_out net = replicate n (replicate n [])"

lemma exchange_ok:
  assumes ok: "net_ok g U root_of lens net" and fin: "finite U" and enum: "enum_ok enum"
    and done_all: "\<forall>h<length lens. rn_parts net ! h = []"
  shows "\<exists>net'. exchange enum (length lens) net = Inr net' \<and> net_ok g U root_of lens net' \<and>
    quiet (length lens) net' \<and>
    (\<forall>h<length lens. \<forall>p\<in>set (rn_parts net' ! h). \<exists>s<length lens. (h, p) \<in># boxed (rn_out net ! s))"
proof -
  let ?n = "length lens" and ?out = "rn_out net"
  let ?parts = "map (\<lambda>h. concat (map (\<lambda>s. ?out ! s ! h) [0..<?n])) [0..<?n]"
  let ?net = "net\<lparr>rn_parts := ?parts, rn_out := replicate ?n (replicate ?n [])\<rparr>"
  have len: "length ?out = ?n" "\<And>s. s < ?n \<Longrightarrow> length (?out ! s) = ?n \<and> ?out ! s ! s = []"
    and inv: "net_inv g U root_of (net_live net) (rn_slots net) (rn_freq net)"
    using ok by (simp_all add: net_ok_def)
  have live: "(h, p) \<in># net_live net" if "s < ?n" "(h, p) \<in># boxed (?out ! s)" for s h p
    using that len(1) by (auto simp: net_live_def set_mset_sum)
  have "finite (ps_reached p) \<and> finite (ps_frontier p)"
    if "h < ?n" "s < ?n" "p \<in> set (?out ! s ! h)" for h s p
  proof -
    have "(h, p) \<in># boxed (?out ! s)" using that len(2) by (simp add: in_boxed)
    then have "ps_ok U p" using net_invD(1) [OF inv live [OF that(2)]] by (simp add: live_ok_def)
    then show ?thesis using fin by (meson finite_subset ps_ok_def)
  qed
  then have "receive enum ?n ?out h = Inr (concat (map (\<lambda>s. ?out ! s ! h) [0..<?n]))" if "h < ?n" for h
    using that len(2) by (intro receive_ok [OF enum]) auto
  then have "map (receive enum ?n ?out) [0..<?n] =
      map (\<lambda>h. Inr (concat (map (\<lambda>s. ?out ! s ! h) [0..<?n]))) [0..<?n]" by simp
  then have run: "exchange enum ?n net = Inr ?net"
    by (simp only: exchange_def all_res_all res_map_simps)
  have "boxed (rn_parts net) = {#}"
    using done_all ok by (intro boxed_empty) (auto simp: net_ok_def in_set_conv_nth)
  then have "net_live net = (\<Sum>s<?n. boxed (?out ! s))" by (simp add: net_live_def len(1))
  also have "\<dots> = boxed ?parts"
    unfolding boxed_transposed by (intro sum.cong refl) (simp add: boxed_def len(2))
  also have "\<dots> = net_live ?net"
    by (simp add: net_live_def boxed_empty)
  finally have "net_ok g U root_of lens ?net" using ok by (simp add: net_ok_def)
  moreover have "\<exists>s<?n. (h, p) \<in># boxed (?out ! s)" if "h < ?n" "p \<in> set (rn_parts ?net ! h)" for h p
    using that len(2) by (auto simp: in_boxed)
  ultimately show ?thesis using run by (intro exI [of _ ?net]) (auto simp: quiet_def)
qed

text \<open>A round, and all epochs.\<close>

lemma round_ok:
  assumes rt: "galois_ok rt" and ok: "net_ok g U root_of lens net" and q: "quiet (length lens) net"
    and g: "graph_within g U" "hosts_of g U (length lens)" and enum: "enum_ok enum"
    and roots: "roots_ok g root_of lens"
  shows "\<exists>net'. res_bind (generate_all rt rnd g enum draw (length lens) finish net)
      (exchange enum (length lens)) = Inr net' \<and> net_ok g U root_of lens net' \<and>
    quiet (length lens) net' \<and>
    (finish \<longrightarrow> (\<forall>h<length lens. \<forall>p\<in>set (rn_parts net' ! h). ps_owner p = h))"
proof -
  have "\<forall>s<length lens. boxed (rn_out net ! s) = {#}"
    using q by (simp add: quiet_def boxed_empty)
  from generate_all_ok [OF rt ok g enum roots this] obtain net1 where
    gen: "generate_all rt rnd g enum draw (length lens) finish net = Inr net1"
      "net_ok g U root_of lens net1" "\<forall>h<length lens. generated finish net net1 h" by blast
  then have "\<forall>h<length lens. rn_parts net1 ! h = []" by (simp add: generated_def)
  moreover have "finite U" using g(1) by (simp add: graph_within_def)
  ultimately obtain net2 where ex: "exchange enum (length lens) net1 = Inr net2"
    "net_ok g U root_of lens net2" "quiet (length lens) net2"
    "\<forall>h<length lens. \<forall>p\<in>set (rn_parts net2 ! h). \<exists>s<length lens. (h, p) \<in># boxed (rn_out net1 ! s)"
    using exchange_ok [OF gen(2) _ enum] by blast
  have "ps_owner p = h" if hyp: "finish" "h < length lens" "p \<in> set (rn_parts net2 ! h)" for h p
  proof -
    obtain s where s: "s < length lens" "(h, p) \<in># boxed (rn_out net1 ! s)"
      using ex(4) [rule_format, OF hyp(2,3)] by auto
    have "generated finish net net1 s" using gen(3) s(1) by blast
    then have "sent_home s (h, p)" using hyp(1) s(2) unfolding generated_def by blast
    then show ?thesis by (simp add: sent_home_def)
  qed
  then show ?thesis using gen(1) ex(1-3) by simp
qed

lemma run_epochs_ok:
  assumes "galois_ok rt" "net_ok g U root_of lens net" "quiet (length lens) net"
    "graph_within g U" "hosts_of g U (length lens)" "enum_ok enum" "roots_ok g root_of lens"
  shows "\<exists>net'. run_epochs rt g enum draw (length lens) epochs epoch net = Inr net' \<and>
    net_ok g U root_of lens net' \<and> quiet (length lens) net'"
  using assms(2,3)
proof (induction epochs arbitrary: epoch net)
  case (Suc epochs)
  obtain net1 where "res_bind (generate_all rt epoch g enum draw (length lens) False net)
      (exchange enum (length lens)) = Inr net1" "net_ok g U root_of lens net1" "quiet (length lens) net1"
    using round_ok [OF assms(1) Suc.prems assms(4-7), of epoch draw False] by blast
  with Suc.IH show ?case by simp
qed simp

lemma final_pass_ok:
  assumes rt: "galois_ok rt" and ok: "net_ok g U root_of lens net" and q: "quiet (length lens) net"
    and g: "graph_within g U" "hosts_of g U (length lens)" and enum: "enum_ok enum"
    and roots: "roots_ok g root_of lens"
    and home: "\<forall>h<length lens. \<forall>p\<in>set (rn_parts net ! h). ps_owner p = h"
  shows "\<exists>net'. generate_all rt rnd g enum draw (length lens) True net = Inr net' \<and>
    net_inv g U root_of {#} (rn_slots net') (rn_freq net') \<and> map length (rn_slots net') = lens"
proof -
  have "\<forall>s<length lens. boxed (rn_out net ! s) = {#}"
    using q by (simp add: quiet_def boxed_empty)
  from generate_all_ok [OF rt ok g enum roots this, of rnd draw True] obtain net1 where
    gen: "generate_all rt rnd g enum draw (length lens) True net = Inr net1"
      "net_ok g U root_of lens net1" "\<forall>h<length lens. generated True net net1 h" by blast
  have "boxed (rn_parts net1) = {#}"
    using gen by (intro boxed_empty) (auto simp: net_ok_def generated_def in_set_conv_nth)
  moreover have "boxed (rn_out net1 ! s) = {#}" if "s < length lens" for s
  proof -
    have "generated True net net1 s" using gen(3) that by blast
    then have "dq \<notin># boxed (rn_out net1 ! s)" for dq
      using home that unfolding generated_def by blast
    then show ?thesis by (metis multiset_nonemptyE)
  qed
  ultimately have "net_live net1 = {#}" using gen(2) by (simp add: net_live_def net_ok_def)
  with gen show ?thesis by (simp add: net_ok_def)
qed

end
