(* ===== verification/Wf4RrrDriver.thy ===== *)
theory Wf4RrrDriver
  imports Wf4RrrNet
begin

text \<open>
  The sets of reachable nodes from the first draw to the last pass: the initial network, and
  what \<open>GetRandomReverseReachableSets\<close> returns.
\<close>

section \<open>The driver\<close>

definition seed_root :: "(nat \<Rightarrow> nat \<Rightarrow> nat \<Rightarrow> nat) \<Rightarrow> nat \<Rightarrow> nat list list \<Rightarrow> nat \<times> nat \<Rightarrow> nat" where
  "seed_root uniform seed masters k =
     masters ! fst k ! uniform seed (u64_mul (1 + fst k) (snd k)) (u64_sub (length (masters ! fst k)) 1)"

text \<open>A number drawn between \<open>0\<close> and \<open>b\<close>.\<close>

definition uniform_ok :: "(nat \<Rightarrow> nat \<Rightarrow> nat \<Rightarrow> nat) \<Rightarrow> bool" where
  "uniform_ok uniform \<longleftrightarrow> (\<forall>seed stream b. uniform seed stream b \<le> b)"

text \<open>Every host has masters, and owns what it lists; the nodes of the graph are \<open>U\<close>.\<close>

definition partitioned :: "'d rrr_graph \<Rightarrow> nat set \<Rightarrow> nat list list \<Rightarrow> bool" where
  "partitioned g U masters \<longleftrightarrow> masters \<noteq> [] \<and> graph_within g U \<and> hosts_of g U (length masters) \<and>
     (\<forall>h<length masters. masters ! h \<noteq> [] \<and> length (masters ! h) \<le> u64_max \<and>
        (\<forall>x\<in>set (masters ! h). x \<in> U \<and> rg_owner g x = h))"

lemma seed_root_in:
  assumes "partitioned g U masters" "uniform_ok uniform" "fst k < length masters"
  shows "seed_root uniform seed masters k \<in> U" "rg_owner g (seed_root uniform seed masters k) = fst k"
proof -
  let ?m = "masters ! fst k"
  have m: "?m \<noteq> []" "length ?m \<le> u64_max" "\<forall>x\<in>set ?m. x \<in> U \<and> rg_owner g x = fst k"
    using assms(1,3) by (auto simp: partitioned_def)
  have len: "u64_sub (length ?m) 1 = length ?m - 1"
    using m(1,2) by (intro u64_sub_small) (simp_all add: Suc_le_eq)
  have "uniform seed (u64_mul (1 + fst k) (snd k)) (length ?m - 1) \<le> length ?m - 1"
    using assms(2) by (simp add: uniform_ok_def)
  also have "\<dots> < length ?m" using m(1) by simp
  finally have "seed_root uniform seed masters k \<in> set ?m"
    unfolding seed_root_def len by (rule nth_mem)
  with m(3) show "seed_root uniform seed masters k \<in> U"
    "rg_owner g (seed_root uniform seed masters k) = fst k" by auto
qed

lemma image_mset_sum: "image_mset f (sum g A) = (\<Sum>x\<in>A. image_mset f (g x))"
  by (induction A rule: infinite_finite_induct) simp_all

lemma count_Pair: "count (image_mset (Pair h) M) (a, b) = (if h = a then count M b else 0)"
  by (induction M) auto

lemma initial_net_ok:
  assumes part: "partitioned g U masters" and uni: "uniform_ok uniform"
  defines "n \<equiv> length masters"
  shows "net_ok g U (seed_root uniform seed masters) (map (host_sets n gs) [0..<n])
      (initial_net uniform seed masters gs)"
    "quiet n (initial_net uniform seed masters gs)"
    "roots_ok g (seed_root uniform seed masters) (map (host_sets n gs) [0..<n])"
proof -
  let ?net = "initial_net uniform seed masters gs" and ?k = "host_sets n gs"
  let ?root = "seed_root uniform seed masters"
  let ?slots = "map (\<lambda>h. replicate (?k h) ({}::nat set)) [0..<n]"
  let ?parts = "map (\<lambda>h. map (seed_node uniform seed (masters ! h) h) [0..<?k h]) [0..<n]"
  have net: "rn_slots ?net = ?slots" "rn_parts ?net = ?parts" "rn_freq ?net = (\<lambda>_. 0)"
    "rn_out ?net = replicate n (replicate n [])"
    by (simp_all add: initial_net_def Let_def n_def)
  show "quiet n ?net" by (simp add: quiet_def net)
  show "roots_ok g ?root (map ?k [0..<n])"
    using seed_root_in(2) [OF part uni] by (simp add: roots_ok_def n_def)
  have live: "net_live ?net = boxed ?parts"
    by (simp add: net_live_def net boxed_empty)
  have node: "seed_node uniform seed (masters ! h) h i = new_partial_set i h (?root (h, i))" for h i
    by (simp add: seed_node_def seed_root_def)
  have key: "key (h, seed_node uniform seed (masters ! h) h i) = (h, i)" for h i
    by (simp add: key_def node new_partial_set_def)
  have keys: "image_mset key (boxed ?parts) = (\<Sum>h<n. image_mset (Pair h) (mset [0..<?k h]))"
  proof -
    have "image_mset key (boxed ?parts) =
        (\<Sum>h<n. image_mset key (image_mset (Pair h) (mset (?parts ! h))))"
      by (simp add: boxed_def image_mset_sum)
    also have "\<dots> = (\<Sum>h<n. image_mset (Pair h) (mset [0..<?k h]))"
      by (intro sum.cong refl) (simp add: image_mset.compositionality comp_def key)
    finally show ?thesis .
  qed
  have valid: "valid_key ?slots k \<longleftrightarrow> fst k < n \<and> snd k < ?k (fst k)" for k
    by (auto simp: valid_key_def)
  have "net_inv g U ?root (boxed ?parts) ?slots (\<lambda>_. 0)"
    unfolding net_inv_def
  proof (intro conjI)
    show "\<forall>hp\<in>#boxed ?parts. live_ok g U ?root ?slots hp"
    proof
      fix hp
      assume "hp \<in># boxed ?parts"
      then obtain h i where hp: "hp = (h, seed_node uniform seed (masters ! h) h i)"
        and hi: "h < n" "i < ?k h" by (cases hp) (auto simp: in_boxed)
      have "?root (h, i) \<in> U" using seed_root_in(1) [OF part uni] hi by (simp add: n_def)
      then show "live_ok g U ?root ?slots hp"
        unfolding live_ok_def hp key using hi
        by (simp add: valid slot_def node new_partial_set_def ps_ok_def rooted_def)
    qed
    show "\<forall>k. count (image_mset key (boxed ?parts)) k \<le> 1"
    proof
      fix k
      have "count (\<Sum>h<n. image_mset (Pair h) (mset [0..<?k h])) k =
          (\<Sum>h<n. if h = fst k then count (mset [0..<?k h]) (snd k) else 0)"
        by (cases k) (simp add: count_sum count_Pair)
      also have "\<dots> \<le> 1"
        using distinct_count_atmost_1 [of "[0..<?k (fst k)]"] by simp
      finally show "count (image_mset key (boxed ?parts)) k \<le> 1" unfolding keys .
    qed
    show "\<forall>k. valid_key ?slots k \<longrightarrow>
        k \<in># image_mset key (boxed ?parts) \<or> rooted g (?root k) (slot ?slots k)"
    proof (intro allI impI disjI1)
      fix k
      assume "valid_key ?slots k"
      then have "fst k \<in> {..<n}" "k \<in> Pair (fst k) ` {0..<?k (fst k)}"
        unfolding valid by (cases k; simp)+
      then have "k \<in> (\<Union>h\<in>{..<n}. Pair h ` {0..<?k h})" by blast
      then show "k \<in># image_mset key (boxed ?parts)" unfolding keys by (simp add: set_mset_sum)
    qed
    have "(\<Sum>hp\<in>#boxed ?parts. ind (ps_frontier (snd hp)) x) =
        (\<Sum>hp\<in>#boxed ?parts. ind (ps_reached (snd hp)) x)" for x
      by (intro arg_cong [of _ _ sum_mset] image_mset_cong)
        (auto simp: in_boxed node new_partial_set_def)
    then show "\<forall>x. counted (boxed ?parts) ?slots (\<lambda>_. 0) x"
      by (simp add: counted_def slot_count_def ind_def comp_def sum_list_replicate)
  qed
  then show "net_ok g U ?root (map ?k [0..<n]) ?net"
    by (simp add: net_ok_def live net comp_def)
qed

section \<open>The shares of the hosts\<close>

lemma host_sets_total:
  assumes "n > 0" "gs \<le> u64_max"
  shows "sum_list (map (host_sets n gs) [0..<n]) = gs"
proof -
  let ?q = "gs div n"
  have "n - 1 \<le> n" by simp
  then have "(n - 1) * ?q \<le> n * ?q" by (rule mult_le_mono1)
  also have "\<dots> \<le> gs" by simp
  finally have le: "(n - 1) * ?q \<le> gs" .
  then have "(n - 1) * ?q \<le> u64_max" using assms(2) by linarith
  with le assms(2) have host: "host_sets n gs (n - 1) = gs - (n - 1) * ?q"
    by (simp only: host_sets_def u64_mul_small u64_sub_small simp_thms if_True)
  obtain m where m: "n = Suc m" using assms(1) by (cases n) auto
  have "sum_list (map (host_sets n gs) [0..<m]) = sum_list (map (\<lambda>_. ?q) [0..<m])"
    by (intro arg_cong [of _ _ sum_list] map_cong refl) (auto simp: host_sets_def m)
  then have "sum_list (map (host_sets n gs) [0..<m]) = m * ?q"
    by (simp add: sum_list_triv)
  then show ?thesis using host le m by simp
qed

definition sets_with :: "nat set list list \<Rightarrow> nat \<Rightarrow> nat" where
  "sets_with slots x = length (filter (\<lambda>s. x \<in> s) (concat slots))"

lemma slot_count_sets_with: "slot_count slots x = sets_with slots x"
proof -
  have "(\<Sum>s\<leftarrow>row. ind s x) = length (filter (\<lambda>s. x \<in> s) row)" for row
    by (induction row) (simp_all add: ind_def)
  then show ?thesis
    by (induction slots) (simp_all add: slot_count_def sets_with_def)
qed

lemma get_reachable_sets_ok:
  assumes rt: "galois_ok rt" and part: "partitioned g U masters" and uni: "uniform_ok uniform"
    and enum: "enum_ok enum"
  shows "\<exists>F slots. get_reachable_sets rt g enum draw uniform masters gs seed epochs = Inr (F, slots) \<and>
    map length slots = map (host_sets (length masters) gs) [0..<length masters] \<and>
    (\<forall>h<length slots. \<forall>i<length (slots ! h).
       rooted g (seed_root uniform seed masters (h, i)) (slots ! h ! i)) \<and>
    (\<forall>x. F x = sets_with slots x)"
proof -
  let ?n = "length masters" and ?root = "seed_root uniform seed masters"
  let ?lens = "map (host_sets ?n gs) [0..<?n]"
  note start = initial_net_ok [OF part uni, of seed gs]
  have len: "length ?lens = ?n" by simp
  have g: "graph_within g U" "hosts_of g U (length ?lens)" using part by (simp_all add: partitioned_def)
  obtain net1 where run: "run_epochs rt g enum draw ?n epochs 0 (initial_net uniform seed masters gs) = Inr net1"
      "net_ok g U ?root ?lens net1" "quiet (length ?lens) net1"
    using run_epochs_ok [OF rt start(1) _ g enum start(3), of draw epochs 0] start(2)
    unfolding len by blast
  obtain net2 where fin: "res_bind (generate_all rt epochs g enum draw ?n True net1) (exchange enum ?n) = Inr net2"
      "net_ok g U ?root ?lens net2" "quiet (length ?lens) net2"
      "\<forall>h<length ?lens. \<forall>p\<in>set (rn_parts net2 ! h). ps_owner p = h"
    using round_ok [OF rt run(2,3) g enum start(3), of epochs draw True] unfolding len by blast
  obtain net3 where last: "generate_all rt (epochs + 1) g enum draw ?n True net2 = Inr net3"
      "net_inv g U ?root {#} (rn_slots net3) (rn_freq net3)" "map length (rn_slots net3) = ?lens"
    using final_pass_ok [OF rt fin(2,3) g enum start(3) fin(4), of "epochs + 1" draw]
    unfolding len by blast
  have "get_reachable_sets rt g enum draw uniform masters gs seed epochs =
      Inr (rn_freq net3, rn_slots net3)"
    by (simp add: get_reachable_sets_def Let_def run(1) fin(1) last(1) [simplified])
  moreover have "rooted g (?root (h, i)) (rn_slots net3 ! h ! i)"
    if "h < length (rn_slots net3)" "i < length (rn_slots net3 ! h)" for h i
    using net_inv_all_stored(1) [OF last(2), of "(h, i)"] that by (simp add: valid_key_def slot_def)
  moreover have "rn_freq net3 x = sets_with (rn_slots net3) x" for x
    using net_inv_all_stored(2) [OF last(2)] by (simp add: slot_count_sets_with)
  ultimately show ?thesis using last(3) by blast
qed

end
