(* ===== verification/Wf4Influence.thy ===== *)
theory Wf4Influence
  imports Wf4RrrDriver "HOL-Library.AList"
begin

text \<open>
  The choice of influential nodes in wf4/src/influence\_maximization.cpp
  (\<open>GetInfluentialNodes\<close> and what it calls): the maximum over threads and hosts, the removal of
  the sets a chosen node is in, and the updates sent to the owners of the other nodes. The
  thread that runs the \<open>i\<close>-th item of a loop is the parameter \<open>thr\<close>; \<open>total\_influence\<close> is only
  printed and left out.
\<close>

section \<open>The most influential node\<close>

text \<open>\<open>None\<close> is a \<open>max\_node\<close> the default constructor leaves uninitialised.\<close>

record local_max =
  max_node :: "nat option"
  max_influence :: nat

definition no_max :: local_max where
  "no_max = \<lparr>max_node = None, max_influence = 0\<rparr>"

definition find_local_max :: "(nat \<Rightarrow> nat) \<Rightarrow> nat \<Rightarrow> local_max list \<Rightarrow> local_max list" where
  "find_local_max freq node v =
     (case v of
        [] \<Rightarrow> [\<lparr>max_node = Some node, max_influence = freq node\<rparr>]
      | m # ms \<Rightarrow> if freq node > max_influence m
                 then \<lparr>max_node = Some node, max_influence = freq node\<rparr> # ms else v)"

definition get_max_node :: "local_max list \<Rightarrow> local_max" where
  "get_max_node ms = fold (\<lambda>m best. if max_influence m > max_influence best
     then best\<lparr>max_node := max_node m, max_influence := max_influence m\<rparr> else best) ms no_max"

text \<open>The overload over the vectors of all threads.\<close>

definition get_max_node_threads :: "local_max list list \<Rightarrow> local_max" where
  "get_max_node_threads vs = get_max_node (concat vs)"

definition find_in_thread :: "(nat \<Rightarrow> nat) \<Rightarrow> (nat \<Rightarrow> nat) \<Rightarrow> nat \<times> nat \<Rightarrow> local_max list list \<Rightarrow>
    local_max list list res" where
  "find_in_thread thr freq p vs = vec_update vs (thr (fst p)) (find_local_max freq (snd p))"

definition host_max :: "galois_rt \<Rightarrow> nat \<Rightarrow> nat \<Rightarrow> (nat \<Rightarrow> nat) \<Rightarrow> (nat \<Rightarrow> nat) \<Rightarrow> nat list \<Rightarrow>
    local_max res" where
  "host_max rt k threads thr freq masters =
     res_map get_max_node_threads
       (do_all rt k (find_in_thread thr freq) (enumerate 0 masters) (replicate threads []))"

text \<open>
  What a host knows after the exchange: its own maximum and, in the order in which the messages
  arrive, those of the \<open>senders\<close>.
\<close>

definition exchange_most_influential :: "nat list \<Rightarrow> nat \<Rightarrow> local_max list \<Rightarrow> local_max list res" where
  "exchange_most_influential senders host maxes =
     res_bind (vec_get maxes host) (\<lambda>own.
     res_bind (vec_set (replicate (length maxes) no_max) host own)
       (fold_res (\<lambda>s v. res_bind (vec_get maxes s) (vec_set v s)) senders))"

definition chosen_node :: "local_max list \<Rightarrow> nat res" where
  "chosen_node host_maxes = (case max_node (get_max_node host_maxes) of
     None \<Rightarrow> Inl Indeterminate | Some node \<Rightarrow> Inr node)"

text \<open>All hosts reduce the same vector (\<open>exchange_all\<close> below).\<close>

definition get_most_influential :: "galois_rt \<Rightarrow> nat \<Rightarrow> nat \<Rightarrow> (nat \<Rightarrow> nat) \<Rightarrow> (nat \<Rightarrow> nat) \<Rightarrow>
    nat list list \<Rightarrow> nat res" where
  "get_most_influential rt k threads thr freq masters =
     res_bind (all_res (map (host_max rt k threads thr freq) masters)) chosen_node"

text \<open>The choice as one host makes it.\<close>

definition get_most_influential_on :: "nat list \<Rightarrow> nat \<Rightarrow> galois_rt \<Rightarrow> nat \<Rightarrow> nat \<Rightarrow> (nat \<Rightarrow> nat) \<Rightarrow>
    (nat \<Rightarrow> nat) \<Rightarrow> nat list list \<Rightarrow> nat res" where
  "get_most_influential_on senders host rt k threads thr freq masters =
     res_bind (all_res (map (host_max rt k threads thr freq) masters)) (\<lambda>maxes.
       res_bind (exchange_most_influential senders host maxes) chosen_node)"

lemma exchange_all:
  assumes "host < length maxes" "mset senders = mset (filter (\<lambda>s. s \<noteq> host) [0..<length maxes])"
  shows "exchange_most_influential senders host maxes = Inr maxes"
proof -
  let ?start = "(replicate (length maxes) no_max)[host := maxes ! host]"
  have senders: "set senders = {s. s < length maxes \<and> s \<noteq> host}"
    using mset_eq_setD [OF assms(2)] by auto
  have "\<exists>v. fold_res (\<lambda>s v. res_bind (vec_get maxes s) (vec_set v s)) senders ?start = Inr v \<and>
      length v = length maxes \<and> (\<forall>s\<in>insert host (set senders). v ! s = maxes ! s)"
  proof (rule fold_res_rule)
    fix ys s zs v
    assume split: "senders = ys @ s # zs"
      and v: "length v = length maxes \<and> (\<forall>s\<in>insert host (set ys). v ! s = maxes ! s)"
    have "s < length maxes" using senders split by auto
    then show "\<exists>v'. res_bind (vec_get maxes s) (vec_set v s) = Inr v' \<and>
        length v' = length maxes \<and> (\<forall>s\<in>insert host (set (ys @ [s])). v' ! s = maxes ! s)"
      using v by (auto simp: nth_list_update)
  qed (use assms(1) in simp)
  then obtain v where run: "fold_res (\<lambda>s v. res_bind (vec_get maxes s) (vec_set v s)) senders ?start = Inr v"
    and v: "length v = length maxes" "\<forall>s\<in>insert host (set senders). v ! s = maxes ! s" by blast
  have "v = maxes" using v senders by (intro nth_equalityI) auto
  with run show ?thesis using assms(1) by (simp add: exchange_most_influential_def)
qed

lemma length_all_res: "all_res ms = Inr xs \<Longrightarrow> length xs = length ms"
  by (induction ms arbitrary: xs) (auto simp: res_bind_Inr_iff res_map_Inr_iff)

lemma hosts_agree:
  assumes "host < length masters" "mset senders = mset (filter (\<lambda>s. s \<noteq> host) [0..<length masters])"
  shows "get_most_influential_on senders host rt k threads thr freq masters =
    get_most_influential rt k threads thr freq masters"
proof (cases "all_res (map (host_max rt k threads thr freq) masters)")
  case (Inr maxes)
  then have "length maxes = length masters" using length_all_res by fastforce
  then show ?thesis
    using exchange_all [of host maxes senders] assms Inr
    by (simp add: get_most_influential_on_def get_most_influential_def)
qed (simp add: get_most_influential_on_def get_most_influential_def)

section \<open>Removing sets\<close>

type_synonym updates = "(nat \<times> nat) list"

definition add_update :: "nat \<Rightarrow> updates \<Rightarrow> updates" where
  "add_update gid al = (case map_of al gid of
     None \<Rightarrow> al @ [(gid, 1)] | Some c \<Rightarrow> AList.update gid (u64_add c 1) al)"

record inf_host =
  ih_freq :: "nat \<Rightarrow> nat"
  ih_sets :: "nat set list"
  ih_remote :: "updates list"

definition atomic_subtract :: "nat \<Rightarrow> nat \<Rightarrow> (nat \<Rightarrow> nat) \<Rightarrow> nat \<Rightarrow> nat" where
  "atomic_subtract x v freq = freq(x := u64_sub (freq x) v)"

definition remove_node :: "(nat \<Rightarrow> nat) \<Rightarrow> nat \<Rightarrow> nat \<Rightarrow> inf_host \<Rightarrow> inf_host res" where
  "remove_node owner host gid st =
     (if owner gid = host then Inr (st\<lparr>ih_freq := atomic_subtract gid 1 (ih_freq st)\<rparr>)
      else res_map (\<lambda>r. st\<lparr>ih_remote := r\<rparr>) (vec_update (ih_remote st) (owner gid) (add_update gid)))"

definition remove_set :: "(nat \<Rightarrow> nat) \<Rightarrow> (nat set \<Rightarrow> nat list) \<Rightarrow> nat \<Rightarrow> nat \<Rightarrow> nat \<Rightarrow> inf_host \<Rightarrow>
    inf_host res" where
  "remove_set owner enum host influential i st =
     res_bind (vec_get (ih_sets st) i) (\<lambda>s.
       if influential \<in> s
       then res_bind (fold_res (remove_node owner host) (enum s) st) (\<lambda>st'.
              res_map (\<lambda>sets. st'\<lparr>ih_sets := sets\<rparr>) (vec_set (ih_sets st') i {}))
       else Inr st)"

section \<open>The updates of other hosts\<close>

definition serialize_map :: "updates \<Rightarrow> nat list" where
  "serialize_map al = length al # concat (map (\<lambda>(gid, c). [gid, c]) al)"

definition apply_update :: "nat list \<Rightarrow> nat \<Rightarrow> (nat \<Rightarrow> nat) \<Rightarrow> (nat \<Rightarrow> nat) res" where
  "apply_update data i freq =
     res_bind (vec_get data (i * 2)) (\<lambda>gid. res_map (\<lambda>v. atomic_subtract gid v freq)
       (vec_get data (i * 2 + 1)))"

definition apply_message :: "galois_rt \<Rightarrow> nat \<Rightarrow> message \<Rightarrow> (nat \<Rightarrow> nat) \<Rightarrow> (nat \<Rightarrow> nat) res" where
  "apply_message rt k m freq =
     (if buf_size m < 16 then Inr freq
      else case m of
        Byte_a \<Rightarrow> Inl OutOfRange
      | Words ws \<Rightarrow> do_all rt k (apply_update (tl ws)) [0..<hd ws] freq)"

text \<open>All hosts: the remaining sets and the frequencies.\<close>

record inf_net =
  in_freq :: "nat \<Rightarrow> nat"
  in_sets :: "nat set list list"
  in_remote :: "updates list list"

definition remove_host :: "galois_rt \<Rightarrow> nat \<Rightarrow> (nat \<Rightarrow> nat) \<Rightarrow> (nat set \<Rightarrow> nat list) \<Rightarrow> nat \<Rightarrow> nat \<Rightarrow>
    inf_net \<Rightarrow> inf_net res" where
  "remove_host rt k owner enum influential h net =
     res_map (\<lambda>st. net\<lparr>in_freq := ih_freq st, in_sets := (in_sets net)[h := ih_sets st],
         in_remote := (in_remote net)[h := ih_remote st]\<rparr>)
       (do_all rt k (remove_set owner enum h influential) [0..<length (in_sets net ! h)]
          \<lparr>ih_freq = in_freq net, ih_sets = in_sets net ! h, ih_remote = in_remote net ! h\<rparr>)"

definition deliver :: "galois_rt \<Rightarrow> nat \<Rightarrow> updates list list \<Rightarrow> nat \<Rightarrow> nat \<Rightarrow> (nat \<Rightarrow> nat) \<Rightarrow>
    (nat \<Rightarrow> nat) res" where
  "deliver rt k remote h s freq =
     (if s = h then Inr freq
      else apply_message rt k (seal_buffer (serialize_map (remote ! s ! h))) freq)"

definition remove_from_remotes :: "galois_rt \<Rightarrow> nat \<Rightarrow> nat \<Rightarrow> inf_net \<Rightarrow> inf_net res" where
  "remove_from_remotes rt k n net =
     res_map (\<lambda>freq. net\<lparr>in_freq := freq,
         in_remote := map (\<lambda>h. map (\<lambda>d. if d = h then in_remote net ! h ! d else []) [0..<n]) [0..<n]\<rparr>)
       (fold_res (\<lambda>h. fold_res (deliver rt k (in_remote net) h) [0..<n]) [0..<n] (in_freq net))"

section \<open>The greedy choice\<close>

definition remove_influenced :: "galois_rt \<Rightarrow> nat \<Rightarrow> (nat \<Rightarrow> nat) \<Rightarrow> (nat set \<Rightarrow> nat list) \<Rightarrow> nat \<Rightarrow>
    nat \<Rightarrow> inf_net \<Rightarrow> inf_net res" where
  "remove_influenced rt k owner enum n influential net =
     res_bind (fold_res (remove_host rt k owner enum influential) [0..<n] net)
       (remove_from_remotes rt k n)"

fun choose_loop :: "galois_rt \<Rightarrow> nat \<Rightarrow> (nat \<Rightarrow> nat) \<Rightarrow> (nat \<Rightarrow> nat) \<Rightarrow> (nat set \<Rightarrow> nat list) \<Rightarrow>
    nat list list \<Rightarrow> nat \<Rightarrow> nat \<Rightarrow> nat list \<Rightarrow> inf_net \<Rightarrow> (nat list \<times> inf_net) res" where
  "choose_loop rt threads thr owner enum masters 0 influential nodes net = Inr (nodes, net)"
| "choose_loop rt threads thr owner enum masters (Suc i) influential nodes net =
     res_bind (remove_influenced rt i owner enum (length masters) influential net) (\<lambda>net'.
       res_bind (get_most_influential rt i threads thr (in_freq net') masters) (\<lambda>node.
         choose_loop rt threads thr owner enum masters i node (nodes @ [node]) net'))"

text \<open>The nodes, and the sets that are left when the loop ends.\<close>

definition choose_nodes :: "galois_rt \<Rightarrow> nat \<Rightarrow> (nat \<Rightarrow> nat) \<Rightarrow> (nat \<Rightarrow> nat) \<Rightarrow>
    (nat set \<Rightarrow> nat list) \<Rightarrow> nat list list \<Rightarrow> (nat \<Rightarrow> nat) \<Rightarrow> nat set list list \<Rightarrow> nat \<Rightarrow>
    (nat list \<times> inf_net) res" where
  "choose_nodes rt threads thr owner enum masters freq sets num_nodes =
     res_bind (get_most_influential rt num_nodes threads thr freq masters) (\<lambda>node.
       choose_loop rt threads thr owner enum masters (u64_sub num_nodes 1) node [node]
         \<lparr>in_freq = freq, in_sets = sets,
          in_remote = replicate (length masters) (replicate (length masters) [])\<rparr>)"

definition get_influential_nodes :: "galois_rt \<Rightarrow> nat \<Rightarrow> (nat \<Rightarrow> nat) \<Rightarrow> (nat \<Rightarrow> nat) \<Rightarrow>
    (nat set \<Rightarrow> nat list) \<Rightarrow> nat list list \<Rightarrow> (nat \<Rightarrow> nat) \<Rightarrow> nat set list list \<Rightarrow> nat \<Rightarrow>
    nat list res" where
  "get_influential_nodes rt threads thr owner enum masters freq sets num_nodes =
     res_map fst (choose_nodes rt threads thr owner enum masters freq sets num_nodes)"

text \<open>What host \<open>h\<close> prints as the number of remaining uninfluenced sets.\<close>

definition uninfluenced_sets :: "inf_net \<Rightarrow> nat \<Rightarrow> nat" where
  "uninfluenced_sets net h = fold (\<lambda>s n. if s \<noteq> {} then u64_add n 1 else n) (in_sets net ! h) 0"

section \<open>Facts about the maximum\<close>

text \<open>The entry a loop over the nodes \<open>A\<close> leaves: a node of the highest frequency, if one is counted.\<close>

definition entry :: "(nat \<Rightarrow> nat) \<Rightarrow> nat \<Rightarrow> local_max" where
  "entry freq x = \<lparr>max_node = Some x, max_influence = freq x\<rparr>"

definition max_over :: "(nat \<Rightarrow> nat) \<Rightarrow> nat set \<Rightarrow> local_max \<Rightarrow> bool" where
  "max_over freq A m \<longleftrightarrow> (m = no_max \<and> (\<forall>x\<in>A. freq x = 0)) \<or>
     (\<exists>x\<in>A. m = entry freq x \<and> 0 < freq x \<and> (\<forall>y\<in>A. freq y \<le> freq x))"

lemma max_fold:
  fixes ms :: "local_max list"
  defines "step \<equiv> \<lambda>m (best::local_max). if max_influence m > max_influence best
     then best\<lparr>max_node := max_node m, max_influence := max_influence m\<rparr> else best"
  shows "fold step ms best \<in> insert best {m \<in> set ms. max_influence m > max_influence best} \<and>
    (\<forall>m\<in>insert best (set ms). max_influence m \<le> max_influence (fold step ms best))"
proof (induction ms arbitrary: best)
  case (Cons m ms)
  have "step m best = (if max_influence m > max_influence best then m else best)"
    by (simp add: step_def)
  then show ?case using Cons.IH [of "step m best"] by (auto split: if_splits)
qed simp

lemma get_max_node_cases:
  obtains "get_max_node ms = no_max" "\<forall>m\<in>set ms. max_influence m = 0"
  | "get_max_node ms \<in> set ms" "0 < max_influence (get_max_node ms)"
    "\<forall>m\<in>set ms. max_influence m \<le> max_influence (get_max_node ms)"
proof -
  have "get_max_node ms \<in> insert no_max {m \<in> set ms. max_influence m > 0} \<and>
      (\<forall>m\<in>insert no_max (set ms). max_influence m \<le> max_influence (get_max_node ms))"
    using max_fold [where ms = ms and best = no_max]
    unfolding get_max_node_def [symmetric] by (simp add: no_max_def)
  then show ?thesis using that by (auto simp: no_max_def)
qed

lemma get_max_node_over:
  assumes "set ms \<subseteq> entry freq ` A" and "\<forall>x\<in>A. \<exists>m\<in>set ms. freq x \<le> max_influence m"
  shows "max_over freq A (get_max_node ms)"
proof -
  consider "get_max_node ms = no_max" "\<forall>m\<in>set ms. max_influence m = 0"
    | "get_max_node ms \<in> set ms" "0 < max_influence (get_max_node ms)"
      "\<forall>m\<in>set ms. max_influence m \<le> max_influence (get_max_node ms)"
    by (rule get_max_node_cases)
  then show ?thesis
  proof cases
    case 1
    then show ?thesis using assms(2) by (fastforce simp: max_over_def)
  next
    case 2
    then obtain x where x: "x \<in> A" "get_max_node ms = entry freq x" using assms(1) by blast
    moreover have "\<forall>y\<in>A. freq y \<le> freq x"
    proof
      fix y
      assume "y \<in> A"
      then obtain m where "m \<in> set ms" "freq y \<le> max_influence m" using assms(2) by blast
      moreover from this have "max_influence m \<le> max_influence (get_max_node ms)" using 2(3) by blast
      ultimately show "freq y \<le> freq x" using x(2) by (simp add: entry_def)
    qed
    moreover have "0 < freq x" using 2(2) x(2) by (simp add: entry_def)
    ultimately show ?thesis by (auto simp: max_over_def)
  qed
qed

lemma find_local_max_facts:
  assumes "length v \<le> 1" "set v \<subseteq> entry freq ` A"
  shows "length (find_local_max freq x v) \<le> 1" "set (find_local_max freq x v) \<subseteq> entry freq ` insert x A"
    "\<exists>m\<in>set (find_local_max freq x v). freq x \<le> max_influence m"
    "\<forall>m\<in>set v. \<exists>m'\<in>set (find_local_max freq x v). max_influence m \<le> max_influence m'"
  using assms by (cases v; auto simp: find_local_max_def entry_def)+

lemma host_max_ok:
  assumes rt: "galois_ok rt" and thr: "\<forall>i. thr i < threads"
  shows "\<exists>m. host_max rt k threads thr freq masters = Inr m \<and> max_over freq (set masters) m"
proof -
  let ?xs = "enumerate 0 masters"
  let ?P = "\<lambda>(ys :: (nat \<times> nat) list) vs. length vs = threads \<and>
    (\<forall>v\<in>set vs. length v \<le> 1 \<and> set v \<subseteq> entry freq ` (snd ` set ys)) \<and>
    (\<forall>x\<in>snd ` set ys. \<exists>m\<in>set (concat vs). freq x \<le> max_influence m)"
  have "\<exists>ys vs. mset ys = mset ?xs \<and>
      do_all rt k (find_in_thread thr freq) ?xs (replicate threads []) = Inr vs \<and> ?P ys vs"
  proof (rule do_all_rule [OF rt])
    fix ys and p :: "nat \<times> nat" and vs :: "local_max list list"
    assume P: "?P ys vs"
    obtain i x where p: "p = (i, x)" by (cases p)
    let ?A = "snd ` set ys" and ?v = "vs ! thr i"
    have t: "thr i < length vs" using thr P by simp
    have v: "length ?v \<le> 1" "set ?v \<subseteq> entry freq ` ?A" using P t by simp_all
    note facts = find_local_max_facts [OF v, of x]
    let ?w = "find_local_max freq x ?v" and ?A' = "insert x ?A"
    let ?vs = "vs[thr i := ?w]"
    have sub: "set ?vs \<subseteq> insert ?w (set vs)" by (rule set_update_subset_insert)
    have w: "?w \<in> set ?vs" using t by (rule set_update_memI)
    have "\<forall>u\<in>set ?vs. length u \<le> 1 \<and> set u \<subseteq> entry freq ` ?A'"
      using sub facts(1,2) P by blast
    moreover have "\<exists>m\<in>set (concat ?vs). freq y \<le> max_influence m" if "y \<in> ?A'" for y
    proof (cases "y = x")
      case True
      then show ?thesis using facts(3) w by auto
    next
      case False
      then obtain u m where u: "u \<in> set vs" "m \<in> set u" "freq y \<le> max_influence m"
        using P \<open>y \<in> ?A'\<close> by auto
      obtain j where j: "j < length vs" "u = vs ! j" using u(1) by (auto simp: in_set_conv_nth)
      show ?thesis
      proof (cases "j = thr i")
        case True
        then obtain m' where "m' \<in> set ?w" "max_influence m \<le> max_influence m'"
          using facts(4) u(2) j(2) by blast
        then show ?thesis using w u(3) by (auto intro: order_trans)
      next
        case False
        then have "u \<in> set ?vs" using j by (metis length_list_update nth_list_update_neq nth_mem)
        then show ?thesis using u(2,3) by auto
      qed
    qed
    ultimately have "?P (ys @ [p]) ?vs" using P by (simp add: p)
    then show "\<exists>vs'. find_in_thread thr freq p vs = Inr vs' \<and> ?P (ys @ [p]) vs'" using t by (simp add: p find_in_thread_def)
  qed simp
  then obtain ys vs where ys: "mset ys = mset ?xs"
    and run: "do_all rt k (find_in_thread thr freq) ?xs (replicate threads []) = Inr vs" and P: "?P ys vs" by blast
  have "snd ` set ys = set masters"
    using mset_eq_setD [OF ys] by (metis list.set_map map_snd_enumerate)
  with P have "max_over freq (set masters) (get_max_node (concat vs))"
    by (intro get_max_node_over) auto
  then show ?thesis by (simp add: host_max_def get_max_node_threads_def run)
qed

lemma all_res_ok:
  assumes "\<forall>x\<in>set xs. \<exists>y. f x = Inr y \<and> Q x y"
  shows "\<exists>ys. all_res (map f xs) = Inr ys \<and> list_all2 Q xs ys"
  using assms by (induction xs) fastforce+

lemma most_influential_ok:
  assumes rt: "galois_ok rt" and thr: "\<forall>i. thr i < threads"
  shows "(\<exists>m\<in>\<Union>(set ` set masters). get_most_influential rt k threads thr freq masters = Inr m \<and>
      0 < freq m \<and> (\<forall>x\<in>\<Union>(set ` set masters). freq x \<le> freq m)) \<or>
    get_most_influential rt k threads thr freq masters = Inl Indeterminate \<and>
      (\<forall>x\<in>\<Union>(set ` set masters). freq x = 0)"
proof -
  obtain ms where run: "all_res (map (host_max rt k threads thr freq) masters) = Inr ms"
    and ms: "list_all2 (\<lambda>xs. max_over freq (set xs)) masters ms"
    using all_res_ok [of masters "host_max rt k threads thr freq" "\<lambda>xs. max_over freq (set xs)"]
      host_max_ok [OF rt thr] by blast
  let ?U = "\<Union>(set ` set masters)" and ?m = "get_max_node ms"
  have origin: "\<exists>xs\<in>set masters. max_over freq (set xs) m" if "m \<in> set ms" for m
    using ms that by (metis list_all2_conv_all_nth in_set_conv_nth)
  have some_max: "\<exists>m\<in>set ms. max_over freq (set xs) m" if "xs \<in> set masters" for xs
    using ms that by (metis list_all2_conv_all_nth in_set_conv_nth)
  have bound: "\<exists>m\<in>set ms. freq x \<le> max_influence m" if x: "x \<in> ?U" for x
  proof -
    obtain xs where "xs \<in> set masters" "x \<in> set xs" using x by blast
    with some_max obtain m where "m \<in> set ms" "max_over freq (set xs) m" "x \<in> set xs" by blast
    then show ?thesis by (intro bexI [of _ m]) (auto simp: max_over_def entry_def no_max_def)
  qed
  consider "?m = no_max" "\<forall>m\<in>set ms. max_influence m = 0"
    | "?m \<in> set ms" "0 < max_influence ?m" "\<forall>m\<in>set ms. max_influence m \<le> max_influence ?m"
    by (rule get_max_node_cases)
  then show ?thesis
  proof cases
    case 1
    then have "\<forall>x\<in>?U. freq x = 0" using bound by fastforce
    with 1(1) run show ?thesis by (simp add: get_most_influential_def chosen_node_def no_max_def)
  next
    case 2
    obtain xs x where x: "xs \<in> set masters" "x \<in> set xs" "?m = entry freq x" "0 < freq x"
      using origin [OF 2(1)] 2(2) by (auto simp: max_over_def no_max_def)
    moreover have "freq y \<le> freq x" if y: "y \<in> ?U" for y
    proof -
      obtain m where "m \<in> set ms" "freq y \<le> max_influence m" using bound [OF y] by blast
      moreover from this have "max_influence m \<le> max_influence ?m" using 2(3) by blast
      ultimately show ?thesis using x(3) by (simp add: entry_def)
    qed
    ultimately show ?thesis using run by (intro disjI1) (auto simp: get_most_influential_def chosen_node_def entry_def)
  qed
qed

end
