(* ===== verification/Wf4Removal.thy ===== *)
theory Wf4Removal
  imports Wf4Influence
begin

text \<open>
  One removal of the sets a chosen node is in: while the hosts remove sets and the updates
  travel, a frequency is the number of remaining sets with the node, plus what the other
  hosts still owe it; afterwards nothing is owed.
\<close>

definition owed :: "updates \<Rightarrow> nat \<Rightarrow> nat" where
  "owed al x = (\<Sum>p\<leftarrow>al. if fst p = x then snd p else 0)"

definition row_with :: "nat set list \<Rightarrow> nat \<Rightarrow> nat" where
  "row_with row x = (\<Sum>s\<leftarrow>row. ind s x)"

definition without :: "nat \<Rightarrow> nat set \<Rightarrow> nat set" where
  "without m s = (if m \<in> s then {} else s)"

lemma owed_nil [simp]: "owed [] x = 0"
  by (simp add: owed_def)

lemma owed_append: "owed (al @ bl) x = owed al x + owed bl x"
  by (simp add: owed_def)

lemma owed_mset: "mset al = mset bl \<Longrightarrow> owed al x = owed bl x"
proof -
  assume "mset al = mset bl"
  then have "mset (map (\<lambda>p. if fst p = x then snd p else 0) al) =
      mset (map (\<lambda>p. if fst p = x then snd p else 0) bl)" by simp
  then have "sum_mset (mset (map (\<lambda>p. if fst p = x then snd p else 0) al)) =
      sum_mset (mset (map (\<lambda>p. if fst p = x then snd p else 0) bl))" by (rule arg_cong)
  then show ?thesis by (simp only: sum_mset_sum_list owed_def)
qed

lemma add_update_facts:
  assumes "owed al g < u64_max"
  shows "owed (add_update g al) x = owed al x + (if x = g then 1 else 0)"
    "fst ` set (add_update g al) = insert g (fst ` set al)"
proof -
  have "c \<le> owed al g" if "map_of al g = Some c" for c
    using that by (induction al) (auto simp: owed_def split: if_splits)
  then have c: "u64_add c 1 = c + 1" if "map_of al g = Some c" for c
    using assms that by (intro u64_add_small) fastforce
  have upd: "owed (AList.update g (c + 1) al) x = owed al x + (if x = g then 1 else 0)"
    if "map_of al g = Some c" for c
    using that by (induction al) (auto simp: owed_def split: if_splits)
  show "owed (add_update g al) x = owed al x + (if x = g then 1 else 0)"
    using upd c by (auto simp: add_update_def owed_append split: option.splits) (simp_all add: owed_def)
  have "fst ` set (AList.update g v al) = insert g (fst ` set al)" for v
    by (induction al) auto
  then show "fst ` set (add_update g al) = insert g (fst ` set al)"
    by (auto simp: add_update_def split: option.splits)
qed

section \<open>One set\<close>

definition row_owed :: "updates list \<Rightarrow> nat \<Rightarrow> nat" where
  "row_owed remote x = (\<Sum>d<length remote. owed (remote ! d) x)"

definition remote_ok :: "(nat \<Rightarrow> nat) \<Rightarrow> nat \<Rightarrow> nat \<Rightarrow> updates list \<Rightarrow> bool" where
  "remote_ok owner n host remote \<longleftrightarrow> length remote = n \<and> remote ! host = [] \<and>
     (\<forall>d<n. \<forall>p\<in>set (remote ! d). owner (fst p) = d)"

lemma row_owed_update:
  assumes "d < length remote" "owed (remote ! d) g < u64_max"
  shows "row_owed (remote[d := add_update g (remote ! d)]) x = row_owed remote x + (if x = g then 1 else 0)"
proof -
  let ?rest = "\<Sum>s<length remote. owed (remote[d := []] ! s) x"
  have upd: "(\<Sum>s<length remote. owed (remote[d := al] ! s) x) = owed al x + ?rest" for al
    using assms(1) by (intro sum_update) simp_all
  have "row_owed remote x = owed (remote ! d) x + ?rest"
    using upd [of "remote ! d"] by (simp add: row_owed_def)
  moreover have "row_owed (remote[d := add_update g (remote ! d)]) x =
      owed (add_update g (remote ! d)) x + ?rest"
    using upd [of "add_update g (remote ! d)"] by (simp add: row_owed_def)
  ultimately show ?thesis using add_update_facts(1) [OF assms(2)] by simp
qed

lemma row_owed_ge: "d < length remote \<Longrightarrow> owed (remote ! d) x \<le> row_owed remote x"
  unfolding row_owed_def by (rule member_le_sum) auto

lemma remove_nodes_ok:
  fixes st :: inf_host
  assumes xs: "distinct xs" "\<forall>x\<in>set xs. owner x < n"
    and remote: "remote_ok owner n host (ih_remote st)"
    and room: "\<forall>x\<in>set xs. row_owed (ih_remote st) x < ih_freq st x" "\<forall>x. ih_freq st x \<le> u64_max"
  shows "\<exists>st'. fold_res (remove_node owner host) xs st = Inr st' \<and> ih_sets st' = ih_sets st \<and>
    remote_ok owner n host (ih_remote st') \<and>
    (\<forall>x. ih_freq st' x \<le> ih_freq st x \<and>
       ih_freq st' x + row_owed (ih_remote st) x + ind (set xs) x = ih_freq st x + row_owed (ih_remote st') x)"
proof -
  let ?P = "\<lambda>ys st'. ih_sets st' = ih_sets st \<and> remote_ok owner n host (ih_remote st') \<and>
    (\<forall>x. ih_freq st' x = ih_freq st x - (if owner x = host then ind (set ys) x else 0) \<and>
       row_owed (ih_remote st') x = row_owed (ih_remote st) x + (if owner x = host then 0 else ind (set ys) x))"
  have "\<exists>st'. fold_res (remove_node owner host) xs st = Inr st' \<and> ?P xs st'"
  proof (rule fold_res_rule)
    show "?P [] st" using remote by (simp add: ind_def)
  next
    fix ys x zs and st1 :: inf_host
    assume split: "xs = ys @ x # zs" and P: "?P ys st1"
    have x: "x \<notin> set ys" "owner x < n" "row_owed (ih_remote st) x < ih_freq st x"
      "ih_freq st x \<le> u64_max" using xs room split by auto
    show "\<exists>st2. remove_node owner host x st1 = Inr st2 \<and> ?P (ys @ [x]) st2"
    proof (cases "owner x = host")
      case True
      have "u64_sub (ih_freq st x) 1 = ih_freq st x - 1"
        using x(3,4) by (intro u64_sub_small) simp_all
      then show ?thesis
        using P True x(1) by (auto simp: remove_node_def atomic_subtract_def ind_def)
    next
      case False
      let ?r = "ih_remote st1"
      have d: "owner x < length ?r" using P x(2) by (simp add: remote_ok_def)
      have "row_owed ?r x = row_owed (ih_remote st) x" using P False x(1) by (simp add: ind_def)
      then have lt: "owed (?r ! owner x) x < u64_max"
        using row_owed_ge [OF d, of x] x(3,4) by linarith
      let ?r' = "?r[owner x := add_update x (?r ! owner x)]"
      have "fst ` set (add_update x (?r ! owner x)) = insert x (fst ` set (?r ! owner x))"
        by (rule add_update_facts(2) [OF lt])
      then have "\<forall>p\<in>set (add_update x (?r ! owner x)). fst p = x \<or> fst p \<in> fst ` set (?r ! owner x)"
        by blast
      moreover have "\<forall>g\<in>fst ` set (?r ! owner x). owner g = owner x"
        using P d by (auto simp: remote_ok_def)
      ultimately have "\<forall>p\<in>set (add_update x (?r ! owner x)). owner (fst p) = owner x" by metis
      then have "remote_ok owner n host ?r'"
        using P False d by (simp add: remote_ok_def nth_list_update)
      moreover have "remove_node owner host x st1 = Inr (st1\<lparr>ih_remote := ?r'\<rparr>)"
        using False d by (simp add: remove_node_def)
      moreover have "row_owed ?r' y = row_owed ?r y + (if y = x then 1 else 0)" for y
        by (rule row_owed_update [OF d lt])
      ultimately show ?thesis using P False x(1) by (auto simp: ind_def)
    qed
  qed
  then obtain st' where st': "fold_res (remove_node owner host) xs st = Inr st'" "?P xs st'" by blast
  have "ih_freq st' x \<le> ih_freq st x \<and>
       ih_freq st' x + row_owed (ih_remote st) x + ind (set xs) x = ih_freq st x + row_owed (ih_remote st') x"
    for x
    using st'(2) room(1) by (cases "x \<in> set xs") (force simp: ind_def)+
  with st' show ?thesis by blast
qed

text \<open>The state of a host in its loop; \<open>rest\<close> counts the sets and debts of the other hosts.\<close>

definition removal_inv :: "(nat \<Rightarrow> nat) \<Rightarrow> nat \<Rightarrow> nat \<Rightarrow> (nat \<Rightarrow> nat) \<Rightarrow> inf_host \<Rightarrow> bool" where
  "removal_inv owner n host others st \<longleftrightarrow> remote_ok owner n host (ih_remote st) \<and>
     (\<forall>s\<in>set (ih_sets st). finite s \<and> (\<forall>x\<in>s. owner x < n)) \<and>
     (\<forall>x. ih_freq st x \<le> u64_max \<and>
        ih_freq st x = row_with (ih_sets st) x + row_owed (ih_remote st) x + others x)"

lemma removal_invI:
  assumes "remote_ok owner n host (ih_remote st)"
    and "\<forall>s\<in>set (ih_sets st). finite s \<and> (\<forall>x\<in>s. owner x < n)"
    and "\<And>x. ih_freq st x \<le> u64_max \<and>
      ih_freq st x = row_with (ih_sets st) x + row_owed (ih_remote st) x + others x"
  shows "removal_inv owner n host others st"
  unfolding removal_inv_def using assms(1,2) assms(3) by (intro conjI allI) blast+

lemma row_with_update:
  "i < length row \<Longrightarrow> row_with (row[i := s]) x + ind (row ! i) x = row_with row x + ind s x"
  using sum_list_update_nat [of i "map (\<lambda>s. ind s x) row" "ind s x"]
  by (simp add: row_with_def map_update)

lemma remove_set_ok:
  assumes inv: "removal_inv owner n host others st" and i: "i < length (ih_sets st)"
    and enum: "enum_ok enum"
  shows "\<exists>st'. remove_set owner enum host m i st = Inr st' \<and> removal_inv owner n host others st' \<and>
    ih_sets st' = (ih_sets st)[i := without m (ih_sets st ! i)]"
proof (cases "m \<in> ih_sets st ! i")
  case False
  then show ?thesis using inv i by (intro exI [of _ st]) (simp add: remove_set_def without_def)
next
  case True
  let ?s = "ih_sets st ! i"
  have s: "finite ?s" "\<forall>x\<in>?s. owner x < n"
    using inv nth_mem [OF i] unfolding removal_inv_def by blast+
  then have xs: "set (enum ?s) = ?s" "distinct (enum ?s)" using enum by (auto simp: enum_ok_def)
  have acc: "ih_freq st x \<le> u64_max \<and>
      ih_freq st x = row_with (ih_sets st) x + row_owed (ih_remote st) x + others x" for x
    using inv unfolding removal_inv_def by blast
  have row: "row_with ((ih_sets st)[i := {}]) x + ind ?s x = row_with (ih_sets st) x" for x
    using row_with_update [OF i, of "{}" x] by (simp add: ind_def)
  have "row_owed (ih_remote st) x < ih_freq st x" if "x \<in> ?s" for x
  proof -
    have "ind ?s x = 1" using that by (simp add: ind_def)
    then show ?thesis using acc [of x] row [of x] by linarith
  qed
  then obtain st1 where run: "fold_res (remove_node owner host) (enum ?s) st = Inr st1"
    and sets: "ih_sets st1 = ih_sets st" and remote: "remote_ok owner n host (ih_remote st1)"
    and acc1: "\<And>x. ih_freq st1 x \<le> ih_freq st x \<and>
       ih_freq st1 x + row_owed (ih_remote st) x + ind ?s x = ih_freq st x + row_owed (ih_remote st1) x"
    using remove_nodes_ok [OF xs(2), of owner n host st] s(2) inv acc unfolding xs(1)
    by (auto simp: removal_inv_def)
  let ?st = "st1\<lparr>ih_sets := (ih_sets st)[i := {}]\<rparr>"
  have proj: "ih_remote ?st = ih_remote st1" "ih_sets ?st = (ih_sets st)[i := {}]"
    "ih_freq ?st = ih_freq st1" by simp_all
  have new: "ih_freq st1 x \<le> u64_max \<and> ih_freq st1 x =
      row_with ((ih_sets st)[i := {}]) x + row_owed (ih_remote st1) x + others x" for x
    using acc [of x] acc1 [of x] row [of x] by linarith
  have old: "\<forall>s\<in>set ((ih_sets st)[i := {}]). finite s \<and> (\<forall>x\<in>s. owner x < n)"
    using inv set_update_subset_insert [of "ih_sets st" i "{}"] by (fastforce simp: removal_inv_def)
  have "removal_inv owner n host others ?st"
    by (rule removal_invI) (unfold proj, fact remote, fact old, fact new)
  moreover have "remove_set owner enum host m i st = Inr ?st"
    using True i run sets by (simp add: remove_set_def)
  ultimately show ?thesis using True by (intro exI [of _ ?st]) (simp add: without_def)
qed

section \<open>One host\<close>

lemma remove_loop_ok:
  assumes rt: "galois_ok rt" and inv: "removal_inv owner n host others st" and enum: "enum_ok enum"
  shows "\<exists>st'. do_all rt k (remove_set owner enum host m) [0..<length (ih_sets st)] st = Inr st' \<and>
    removal_inv owner n host others st' \<and> ih_sets st' = map (without m) (ih_sets st)"
proof -
  let ?n = "length (ih_sets st)"
  let ?P = "\<lambda>ys st'. removal_inv owner n host others st' \<and> length (ih_sets st') = ?n \<and>
    (\<forall>j<?n. ih_sets st' ! j = (if j \<in> set ys then without m (ih_sets st ! j) else ih_sets st ! j))"
  have "\<exists>ys st'. mset ys = mset [0..<?n] \<and>
      do_all rt k (remove_set owner enum host m) [0..<?n] st = Inr st' \<and> ?P ys st'"
  proof (rule do_all_rule [OF rt])
    show "?P [] st" using inv by simp
  next
    fix ys i and st1 :: inf_host
    assume sub: "mset (ys @ [i]) \<subseteq># mset [0..<?n]" and i: "i \<in> set [0..<?n]" and P: "?P ys st1"
    have fresh: "i \<notin> set ys" by (rule do_all_fresh [OF sub]) simp
    have i': "i < length (ih_sets st1)" using i P by simp
    obtain st2 where run: "remove_set owner enum host m i st1 = Inr st2"
      "removal_inv owner n host others st2"
      "ih_sets st2 = (ih_sets st1)[i := without m (ih_sets st1 ! i)]"
      using remove_set_ok [OF _ i' enum, of owner n host others m] P by blast
    then have "?P (ys @ [i]) st2" using P i' fresh by (auto simp: nth_list_update)
    with run(1) show "\<exists>st2. remove_set owner enum host m i st1 = Inr st2 \<and> ?P (ys @ [i]) st2" by blast
  qed
  then obtain ys st' where st': "mset ys = mset [0..<?n]"
    "do_all rt k (remove_set owner enum host m) [0..<?n] st = Inr st'" "?P ys st'" by blast
  have "set ys = {0..<?n}" using mset_eq_setD [OF st'(1)] by simp
  then have "ih_sets st' = map (without m) (ih_sets st)"
    using st'(3) by (intro nth_equalityI) auto
  with st'(2,3) show ?thesis by blast
qed

section \<open>All hosts\<close>

definition counted_on :: "inf_net \<Rightarrow> nat \<Rightarrow> nat \<Rightarrow> nat" where
  "counted_on net h x = row_with (in_sets net ! h) x + row_owed (in_remote net ! h) x"

definition inf_ok :: "(nat \<Rightarrow> nat) \<Rightarrow> nat \<Rightarrow> inf_net \<Rightarrow> bool" where
  "inf_ok owner n net \<longleftrightarrow> length (in_sets net) = n \<and> length (in_remote net) = n \<and>
     (\<forall>h<n. remote_ok owner n h (in_remote net ! h) \<and>
        (\<forall>s\<in>set (in_sets net ! h). finite s \<and> (\<forall>x\<in>s. owner x < n))) \<and>
     (\<forall>x. in_freq net x \<le> u64_max \<and> in_freq net x = (\<Sum>h<n. counted_on net h x))"

lemma inf_okI:
  assumes "length (in_sets net) = n" "length (in_remote net) = n"
    and "\<And>h. h < n \<Longrightarrow> remote_ok owner n h (in_remote net ! h) \<and>
      (\<forall>s\<in>set (in_sets net ! h). finite s \<and> (\<forall>x\<in>s. owner x < n))"
    and "\<And>x. in_freq net x \<le> u64_max \<and> in_freq net x = (\<Sum>h<n. counted_on net h x)"
  shows "inf_ok owner n net"
  unfolding inf_ok_def using assms by (intro conjI allI impI) blast+

lemma remove_host_ok:
  assumes rt: "galois_ok rt" and ok: "inf_ok owner n net" and enum: "enum_ok enum" and h: "h < n"
  shows "\<exists>net'. remove_host rt k owner enum m h net = Inr net' \<and> inf_ok owner n net' \<and>
    in_sets net' = (in_sets net)[h := map (without m) (in_sets net ! h)]"
proof -
  let ?others = "\<lambda>x. \<Sum>j\<in>{..<n} - {h}. counted_on net j x"
  let ?st = "\<lparr>ih_freq = in_freq net, ih_sets = in_sets net ! h, ih_remote = in_remote net ! h\<rparr>"
  have split: "(\<Sum>j<n. f j) = f h + (\<Sum>j\<in>{..<n} - {h}. f j)" for f :: "nat \<Rightarrow> nat"
    using h by (subst sum.remove [of _ h]) auto
  have "in_freq net x \<le> u64_max \<and> in_freq net x =
      row_with (in_sets net ! h) x + row_owed (in_remote net ! h) x + ?others x" for x
    using ok split [of "\<lambda>j. counted_on net j x"] unfolding inf_ok_def counted_on_def by metis
  then have "removal_inv owner n h ?others ?st"
    by (intro removal_invI, unfold inf_host.simps) (use ok h in \<open>simp_all add: inf_ok_def\<close>)
  from remove_loop_ok [OF rt this enum, of k m] obtain st' where
    run: "do_all rt k (remove_set owner enum h m) [0..<length (in_sets net ! h)] ?st = Inr st'"
    and inv: "removal_inv owner n h ?others st'" and sets: "ih_sets st' = map (without m) (in_sets net ! h)"
    by auto
  let ?net = "net\<lparr>in_freq := ih_freq st', in_sets := (in_sets net)[h := ih_sets st'],
         in_remote := (in_remote net)[h := ih_remote st']\<rparr>"
  have len: "length (in_sets net) = n" "length (in_remote net) = n" using ok by (simp_all add: inf_ok_def)
  have at_h: "in_sets ?net ! h = ih_sets st'" "in_remote ?net ! h = ih_remote st'" using h len by simp_all
  have elsewhere: "in_sets ?net ! j = in_sets net ! j" "in_remote ?net ! j = in_remote net ! j"
    if "j \<noteq> h" for j using that by simp_all
  have "inf_ok owner n ?net"
  proof (rule inf_okI)
    fix x
    have "(\<Sum>j\<in>{..<n} - {h}. counted_on ?net j x) = ?others x"
      by (intro sum.cong refl) (simp add: counted_on_def)
    moreover have "counted_on ?net h x = row_with (ih_sets st') x + row_owed (ih_remote st') x"
      unfolding counted_on_def at_h ..
    moreover have "ih_freq st' x \<le> u64_max \<and> ih_freq st' x =
        row_with (ih_sets st') x + row_owed (ih_remote st') x + ?others x"
      using inv unfolding removal_inv_def by blast
    ultimately show "in_freq ?net x \<le> u64_max \<and> in_freq ?net x = (\<Sum>j<n. counted_on ?net j x)"
      using split [of "\<lambda>j. counted_on ?net j x"] by simp
  next
    fix j
    assume j: "j < n"
    show "remote_ok owner n j (in_remote ?net ! j) \<and>
      (\<forall>s\<in>set (in_sets ?net ! j). finite s \<and> (\<forall>x\<in>s. owner x < n))"
    proof (cases "j = h")
      case True
      show ?thesis unfolding True at_h using inv unfolding removal_inv_def by blast
    next
      case False
      show ?thesis unfolding elsewhere [OF False] using ok j unfolding inf_ok_def by blast
    qed
  qed (simp_all add: len)
  moreover have "remove_host rt k owner enum m h net = Inr ?net"
    by (simp add: remove_host_def run)
  ultimately show ?thesis using sets by (intro exI [of _ ?net]) simp
qed

end
