(* ===== verification/Wf4Greedy.thy ===== *)
theory Wf4Greedy
  imports Wf4Removal
begin

text \<open>
  The updates delivered (\<open>RemoveNodesFromRemotes\<close>), one round of removal, and the loop that
  chooses nodes: the choice is greedy maximum coverage of the sets, and within the known
  factor of the best choice.
\<close>

section \<open>The messages\<close>

lemma length_pairs: "length (concat (map (\<lambda>(gid, c). [gid, c]) al)) = 2 * length al"
  by (induction al) auto

lemma nth_pairs:
  "i < length al \<Longrightarrow> concat (map (\<lambda>(gid, c). [gid, c]) al) ! (2 * i) = fst (al ! i) \<and>
    concat (map (\<lambda>(gid, c). [gid, c]) al) ! (2 * i + 1) = snd (al ! i)"
proof (induction al arbitrary: i)
  case (Cons p al)
  then show ?case by (cases i; cases p) auto
qed simp

lemma apply_message_ok:
  assumes rt: "galois_ok rt" and room: "\<forall>x. owed al x \<le> F x \<and> F x \<le> u64_max"
  shows "\<exists>F'. apply_message rt k (seal_buffer (serialize_map al)) F = Inr F' \<and>
    (\<forall>x. F' x + owed al x = F x)"
proof (cases "al = []")
  case True
  then show ?thesis
    by (simp add: apply_message_def seal_buffer_def serialize_map_def buf_size_def)
next
  case False
  let ?data = "concat (map (\<lambda>(gid, c). [gid, c]) al)" and ?n = "length al"
  have len: "length ?data = 2 * ?n" by (rule length_pairs)
  let ?P = "\<lambda>ys F'. \<forall>x. F' x + owed (map ((!) al) ys) x = F x"
  have sub_le: "owed (map ((!) al) ys) x \<le> owed al x" if part: "mset ys \<subseteq># mset [0..<?n]" for ys x
  proof -
    obtain Z where Z: "mset [0..<?n] = mset ys + Z"
      using part unfolding mset_subset_eq_exists_conv by blast
    obtain zs where "mset zs = Z" using ex_mset by blast
    with Z have perm: "mset [0..<?n] = mset (ys @ zs)" by simp
    have "mset al = image_mset ((!) al) (mset [0..<?n])"
      by (simp only: mset_map [symmetric] map_nth)
    then have "mset al = mset (map ((!) al) (ys @ zs))"
      unfolding perm by (simp only: mset_map)
    then have "owed al x = owed (map ((!) al) (ys @ zs)) x" by (rule owed_mset)
    then show ?thesis by (simp add: owed_append)
  qed
  have "\<exists>ys F'. mset ys = mset [0..<?n] \<and> do_all rt k (apply_update ?data) [0..<?n] F = Inr F' \<and> ?P ys F'"
  proof (rule do_all_rule [OF rt])
    show "?P [] F" by simp
  next
    fix ys i and F1 :: "nat \<Rightarrow> nat"
    assume sub: "mset (ys @ [i]) \<subseteq># mset [0..<?n]" and i: "i \<in> set [0..<?n]" and P: "?P ys F1"
    let ?g = "fst (al ! i)" and ?v = "snd (al ! i)"
    have i': "i < ?n" using i by simp
    have get: "vec_get ?data (i * 2) = Inr ?g" "vec_get ?data (i * 2 + 1) = Inr ?v"
      using nth_pairs [OF i'] len i' by (simp_all add: mult.commute)
    have step: "owed (map ((!) al) (ys @ [i])) x = owed (map ((!) al) ys) x + (if x = ?g then ?v else 0)" for x
      by (simp add: owed_append) (simp add: owed_def)
    have "owed (map ((!) al) ys) ?g + ?v \<le> F ?g"
      using step [of ?g] sub_le [OF sub, of ?g] room by (metis (full_types) le_trans)
    moreover have "F1 ?g + owed (map ((!) al) ys) ?g = F ?g" using P by blast
    moreover have "F ?g \<le> u64_max" using room by blast
    ultimately have v: "?v \<le> F1 ?g" "F1 ?g \<le> u64_max" by linarith+
    have "?P (ys @ [i]) (atomic_subtract ?g ?v F1)"
    proof
      fix x
      have "F1 x + owed (map ((!) al) ys) x = F x" using P by blast
      then show "atomic_subtract ?g ?v F1 x + owed (map ((!) al) (ys @ [i])) x = F x"
        unfolding step using v by (auto simp: atomic_subtract_def u64_sub_small)
    qed
    then show "\<exists>F2. apply_update ?data i F1 = Inr F2 \<and> ?P (ys @ [i]) F2"
      using get by (simp add: apply_update_def)
  qed
  then obtain ys F' where ys: "mset ys = mset [0..<?n]"
    and run: "do_all rt k (apply_update ?data) [0..<?n] F = Inr F'" and P: "?P ys F'" by blast
  have "mset (map ((!) al) ys) = image_mset ((!) al) (mset [0..<?n])" by (simp only: mset_map ys)
  then have "mset (map ((!) al) ys) = mset al" by (simp only: mset_map [symmetric] map_nth)
  then have "\<forall>x. F' x + owed al x = F x" using P owed_mset by metis
  moreover have "apply_message rt k (seal_buffer (serialize_map al)) F = Inr F'"
  proof -
    have "\<not> 8 * length (?n # ?data) < 16" using len False by (cases al) simp_all
    then show ?thesis
      by (simp only: apply_message_def seal_buffer_def serialize_map_def buf_size_def if_False
          list.distinct message.case list.sel run)
  qed
  ultimately show ?thesis by blast
qed

section \<open>All deliveries\<close>

lemma fold_res_nested:
  "fold_res (\<lambda>h. fold_res (f h) ys) xs s = fold_res (\<lambda>p. f (fst p) (snd p)) (List.product xs ys) s"
proof (induction xs arbitrary: s)
  case (Cons x xs)
  have "fold_res (\<lambda>p. f (fst p) (snd p)) (map (Pair x) ys) s = fold_res (f x) ys s" for s
    by (induction ys arbitrary: s) (auto intro: res_bind_cong)
  then show ?case by (simp add: fold_res_append Cons.IH cong: res_bind_cong)
qed simp

definition delivered :: "updates list list \<Rightarrow> (nat \<times> nat) list \<Rightarrow> nat \<Rightarrow> nat" where
  "delivered remote hs x = (\<Sum>p\<leftarrow>hs. if snd p = fst p then 0 else owed (remote ! snd p ! fst p) x)"

lemma deliveries_ok:
  assumes rt: "galois_ok rt" and room: "\<forall>x. delivered remote hs x \<le> F x \<and> F x \<le> u64_max"
  shows "\<exists>F'. fold_res (\<lambda>p. deliver rt k remote (fst p) (snd p)) hs F = Inr F' \<and>
    (\<forall>x. F' x + delivered remote hs x = F x)"
proof (rule fold_res_rule)
  show "\<forall>x. F x + delivered remote [] x = F x" by (simp add: delivered_def)
next
  fix ys p zs and F1 :: "nat \<Rightarrow> nat"
  assume split: "hs = ys @ p # zs" and P: "\<forall>x. F1 x + delivered remote ys x = F x"
  obtain h s where p: "p = (h, s)" by (cases p)
  show "\<exists>F2. deliver rt k remote (fst p) (snd p) F1 = Inr F2 \<and>
    (\<forall>x. F2 x + delivered remote (ys @ [p]) x = F x)"
  proof (cases "s = h")
    case True
    then show ?thesis using P by (simp add: deliver_def p delivered_def)
  next
    case False
    let ?al = "remote ! s ! h"
    have step: "delivered remote (ys @ [p]) x = delivered remote ys x + owed ?al x" for x
      using False by (simp add: delivered_def p)
    have "delivered remote (ys @ [p]) x \<le> delivered remote hs x" for x
      by (simp add: delivered_def split)
    then have "owed ?al x \<le> F1 x \<and> F1 x \<le> u64_max" for x
      using room P step by (metis add_le_cancel_left add.commute le_add1 le_trans)
    then obtain F2 where "apply_message rt k (seal_buffer (serialize_map ?al)) F1 = Inr F2"
      "\<forall>x. F2 x + owed ?al x = F1 x" using apply_message_ok [OF rt, of ?al F1 k] by blast
    then show ?thesis using P False step
      by (simp add: deliver_def p) (metis add.assoc add.commute)
  qed
qed

lemma delivered_all:
  assumes "\<forall>h<n. length (remote ! h) = n \<and> remote ! h ! h = []"
  shows "delivered remote (List.product [0..<n] [0..<n]) x = (\<Sum>h<n. row_owed (remote ! h) x)"
proof -
  have "delivered remote (List.product xs ys) x =
      (\<Sum>d\<leftarrow>xs. \<Sum>s\<leftarrow>ys. if s = d then 0 else owed (remote ! s ! d) x)" for xs ys
  proof (induction xs)
    case (Cons d xs)
    have "(\<Sum>p\<leftarrow>map (Pair d) ys. if snd p = fst p then 0 else owed (remote ! snd p ! fst p) x) =
        (\<Sum>s\<leftarrow>ys. if s = d then 0 else owed (remote ! s ! d) x)"
      unfolding map_map comp_def fst_conv snd_conv ..
    then show ?case using Cons.IH by (simp only: delivered_def product.simps map_append sum_list_append
          list.map sum_list.Cons)
  qed (simp add: delivered_def)
  then have "delivered remote (List.product [0..<n] [0..<n]) x =
      (\<Sum>d<n. \<Sum>s<n. if s = d then 0 else owed (remote ! s ! d) x)"
    by (simp add: interv_sum_list_conv_sum_set_nat lessThan_atLeast0)
  also have "\<dots> = (\<Sum>d<n. \<Sum>s<n. owed (remote ! s ! d) x)"
    using assms by (intro sum.cong refl) auto
  also have "\<dots> = (\<Sum>s<n. \<Sum>d<n. owed (remote ! s ! d) x)" by (rule sum.swap)
  also have "\<dots> = (\<Sum>s<n. row_owed (remote ! s) x)"
    using assms by (intro sum.cong refl) (simp add: row_owed_def)
  finally show ?thesis .
qed

section \<open>One round\<close>

lemma sets_with_rows: "sets_with sets x = (\<Sum>h<length sets. row_with (sets ! h) x)"
proof -
  have "sets_with sets x = (\<Sum>row\<leftarrow>sets. row_with row x)"
    unfolding slot_count_sets_with [symmetric] by (simp add: slot_count_def row_with_def)
  then show ?thesis by (simp add: sum_list_sum_nth atLeast0LessThan)
qed

lemma remove_hosts_ok:
  assumes rt: "galois_ok rt" and ok: "inf_ok owner n net" and enum: "enum_ok enum"
  shows "\<exists>net'. fold_res (remove_host rt k owner enum m) [0..<n] net = Inr net' \<and>
    inf_ok owner n net' \<and> in_sets net' = map (map (without m)) (in_sets net)"
proof -
  let ?P = "\<lambda>ys net'. inf_ok owner n net' \<and> (\<forall>h<n. in_sets net' ! h =
    (if h \<in> set ys then map (without m) (in_sets net ! h) else in_sets net ! h))"
  have "\<exists>net'. fold_res (remove_host rt k owner enum m) [0..<n] net = Inr net' \<and> ?P [0..<n] net'"
  proof (rule fold_res_rule)
    show "?P [] net" using ok by simp
  next
    fix ys h zs and net1 :: inf_net
    assume split: "[0..<n] = ys @ h # zs" and P: "?P ys net1"
    have "set [0..<n] = set (ys @ h # zs)" "distinct (ys @ h # zs)"
      unfolding split [symmetric] by simp_all
    then have h: "h < n" "h \<notin> set ys" by auto
    obtain net2 where run: "remove_host rt k owner enum m h net1 = Inr net2" "inf_ok owner n net2"
      "in_sets net2 = (in_sets net1)[h := map (without m) (in_sets net1 ! h)]"
      using remove_host_ok [OF rt _ enum h(1)] P by blast
    have "length (in_sets net1) = n" using P by (simp add: inf_ok_def)
    then have "\<forall>j<n. in_sets net2 ! j =
        (if j \<in> set (ys @ [h]) then map (without m) (in_sets net ! j) else in_sets net ! j)"
      using P h run(3) by (simp add: nth_list_update)
    with run(1,2) show "\<exists>net2. remove_host rt k owner enum m h net1 = Inr net2 \<and> ?P (ys @ [h]) net2"
      by blast
  qed
  then obtain net' where net': "fold_res (remove_host rt k owner enum m) [0..<n] net = Inr net'"
    "?P [0..<n] net'" by blast
  have "in_sets net' = map (map (without m)) (in_sets net)"
    using net'(2) ok by (intro nth_equalityI) (auto simp: inf_ok_def)
  with net' show ?thesis by blast
qed

text \<open>Nothing is owed: the frequencies are the numbers of sets.\<close>

definition settled :: "inf_net \<Rightarrow> bool" where
  "settled net \<longleftrightarrow> (\<forall>x. in_freq net x = sets_with (in_sets net) x)"

lemma remove_influenced_ok:
  assumes rt: "galois_ok rt" and ok: "inf_ok owner n net" and enum: "enum_ok enum"
  shows "\<exists>net'. remove_influenced rt k owner enum n m net = Inr net' \<and> inf_ok owner n net' \<and>
    in_sets net' = map (map (without m)) (in_sets net) \<and> settled net'"
proof -
  obtain net1 where run: "fold_res (remove_host rt k owner enum m) [0..<n] net = Inr net1"
    and ok1: "inf_ok owner n net1" and sets: "in_sets net1 = map (map (without m)) (in_sets net)"
    using remove_hosts_ok [OF rt ok enum] by blast
  let ?remote = "in_remote net1" and ?hs = "List.product [0..<n] [0..<n]"
  have shape: "\<forall>h<n. length (?remote ! h) = n \<and> ?remote ! h ! h = []" and len: "length (in_sets net1) = n"
    using ok1 by (simp_all add: inf_ok_def remote_ok_def)
  have freq: "in_freq net1 x \<le> u64_max \<and> in_freq net1 x = (\<Sum>h<n. counted_on net1 h x)" for x
    using ok1 unfolding inf_ok_def by blast
  have total: "in_freq net1 x = sets_with (in_sets net1) x + delivered ?remote ?hs x" for x
    using freq [of x] unfolding delivered_all [OF shape] sets_with_rows len counted_on_def
    by (simp add: sum.distrib)
  then have "\<forall>x. delivered ?remote ?hs x \<le> in_freq net1 x \<and> in_freq net1 x \<le> u64_max"
    using freq by (metis le_add2)
  from deliveries_ok [OF rt this, of k] obtain F where
    F: "fold_res (\<lambda>p. deliver rt k ?remote (fst p) (snd p)) ?hs (in_freq net1) = Inr F"
    "\<forall>x. F x + delivered ?remote ?hs x = in_freq net1 x" by blast
  let ?net = "net1\<lparr>in_freq := F, in_remote :=
      map (\<lambda>h. map (\<lambda>d. if d = h then ?remote ! h ! d else []) [0..<n]) [0..<n]\<rparr>"
  have result: "remove_influenced rt k owner enum n m net = Inr ?net"
    using F(1) by (simp add: remove_influenced_def run remove_from_remotes_def
        fold_res_nested [of "deliver rt k ?remote"])
  have "F x = sets_with (in_sets net1) x" for x
    using F(2) total [of x] by (metis add_right_cancel)
  then have "settled ?net" by (simp add: settled_def)
  have empty: "in_remote ?net ! h = replicate n []" if "h < n" for h
    using that shape by (intro nth_equalityI) auto
  have "inf_ok owner n ?net"
  proof (rule inf_okI)
    fix h
    assume h: "h < n"
    show "remote_ok owner n h (in_remote ?net ! h) \<and>
      (\<forall>s\<in>set (in_sets ?net ! h). finite s \<and> (\<forall>x\<in>s. owner x < n))"
      unfolding empty [OF h] using ok1 h by (simp add: remote_ok_def inf_ok_def)
  next
    fix x
    have "counted_on ?net h x = row_with (in_sets net1 ! h) x" if "h < n" for h
      unfolding counted_on_def empty [OF that] by (simp add: row_owed_def)
    then have "(\<Sum>h<n. counted_on ?net h x) = sets_with (in_sets net1) x"
      unfolding sets_with_rows len by (intro sum.cong) auto
    moreover have "F x \<le> u64_max" using F(2) freq [of x] by (metis le_add1 le_trans)
    ultimately show "in_freq ?net x \<le> u64_max \<and> in_freq ?net x = (\<Sum>h<n. counted_on ?net h x)"
      using \<open>\<And>x. F x = sets_with (in_sets net1) x\<close> by simp
  qed (simp_all add: len)
  with result \<open>settled ?net\<close> sets show ?thesis by (intro exI [of _ ?net]) simp
qed

section \<open>Greedy maximum coverage\<close>

definition hits :: "nat set list \<Rightarrow> nat set \<Rightarrow> nat" where
  "hits L A = length (filter (\<lambda>s. s \<inter> A \<noteq> {}) L)"

fun greedy :: "nat set \<Rightarrow> nat set list \<Rightarrow> nat list \<Rightarrow> bool" where
  "greedy U L [] \<longleftrightarrow> True"
| "greedy U L (m # ms) \<longleftrightarrow> m \<in> U \<and> 0 < hits L {m} \<and> (\<forall>x\<in>U. hits L {x} \<le> hits L {m}) \<and>
     greedy U (map (without m) L) ms"

lemma sets_with_hits: "sets_with sets x = hits (concat sets) {x}"
  by (simp add: sets_with_def hits_def)

lemma hits_without: "hits L (insert m A) = hits L {m} + hits (map (without m) L) A"
  by (induction L) (auto simp: hits_def without_def)

lemma hits_sub: "hits L A \<le> hits L {m} + hits (map (without m) L) A"
  by (induction L) (auto simp: hits_def without_def)

lemma hits_union: "finite A \<Longrightarrow> hits L A \<le> (\<Sum>a\<in>A. hits L {a})"
proof (induction A arbitrary: L rule: finite_induct)
  case (insert a A)
  have "hits (map (without a) L) A \<le> hits L A"
    by (induction L) (auto simp: hits_def without_def)
  then show ?case using insert hits_without [of L a A] by (simp add: le_trans add_le_mono)
qed (simp add: hits_def)

text \<open>The classical bound: \<open>j\<close> greedy nodes against the best \<open>k\<close>.\<close>

lemma greedy_bound:
  assumes "greedy U L ms" "A \<subseteq> U" "finite A" "card A \<le> k" "best \<le> hits L A"
  shows "k ^ length ms * (best - hits L (set ms)) \<le> (k - 1) ^ length ms * best"
  using assms(1,5)
proof (induction ms arbitrary: L best)
  case (Cons m ms)
  let ?L = "map (without m) L" and ?g = "hits L {m}"
  have "hits L {a} \<le> ?g" if "a \<in> A" for a using Cons.prems(1) assms(2) that by auto
  then have "(\<Sum>a\<in>A. hits L {a}) \<le> (\<Sum>a\<in>A. ?g)" by (rule sum_mono)
  also have "\<dots> = card A * ?g" by simp
  also have "\<dots> \<le> k * ?g" using assms(4) by simp
  finally have "hits L A \<le> k * ?g" using hits_union [OF assms(3), of L] by linarith
  then have best: "best \<le> k * ?g" using Cons.prems(2) by linarith
  have "best - ?g \<le> hits ?L A" using Cons.prems(2) hits_sub [of L A m] by linarith
  moreover have "greedy U ?L ms" using Cons.prems(1) by simp
  ultimately have IH: "k ^ length ms * (best - ?g - hits ?L (set ms)) \<le> (k - 1) ^ length ms * (best - ?g)"
    using Cons.IH by blast
  have step: "k * (best - ?g) \<le> (k - 1) * best"
    using best by (cases k) (auto simp: diff_mult_distrib2)
  have "k ^ length (m # ms) * (best - hits L (set (m # ms))) =
      k * (k ^ length ms * (best - ?g - hits ?L (set ms)))"
    by (simp add: hits_without [of L m "set ms"] ac_simps)
  also have "\<dots> \<le> k * ((k - 1) ^ length ms * (best - ?g))" using IH by simp
  also have "\<dots> = (k - 1) ^ length ms * (k * (best - ?g))" by simp
  also have "\<dots> \<le> (k - 1) ^ length ms * ((k - 1) * best)" using step by simp
  finally show ?case by (simp add: ac_simps)
qed simp

section \<open>The loop\<close>

definition all_masters :: "nat list list \<Rightarrow> nat set" where
  "all_masters masters = \<Union>(set ` set masters)"

text \<open>What the loop returns from a settled network: greedy choices, or too few covered sets.\<close>

definition greedy_result :: "nat set \<Rightarrow> nat set list \<Rightarrow> nat \<Rightarrow> nat list \<Rightarrow> nat list res \<Rightarrow> bool" where
  "greedy_result U L i nodes r \<longleftrightarrow>
     (\<exists>ms. r = Inr (nodes @ ms) \<and> length ms = i \<and> greedy U L ms) \<or>
     (r = Inl Indeterminate \<and> (\<exists>ms. length ms < i \<and> greedy U L ms \<and>
        (\<forall>x\<in>U. hits L (insert x (set ms)) = hits L (set ms))))"

lemma greedy_result_step:
  assumes "m \<in> U" "0 < hits L {m}" "\<forall>x\<in>U. hits L {x} \<le> hits L {m}"
    and "greedy_result U (map (without m) L) i (nodes @ [m]) r"
  shows "greedy_result U L (Suc i) nodes r"
  using assms(4) unfolding greedy_result_def
proof (elim disjE exE conjE)
  fix ms
  assume "r = Inr ((nodes @ [m]) @ ms)" "length ms = i" "greedy U (map (without m) L) ms"
  then show "(\<exists>ms. r = Inr (nodes @ ms) \<and> length ms = Suc i \<and> greedy U L ms) \<or>
     (r = Inl Indeterminate \<and> (\<exists>ms. length ms < Suc i \<and> greedy U L ms \<and>
        (\<forall>x\<in>U. hits L (insert x (set ms)) = hits L (set ms))))"
    using assms(1-3) by (intro disjI1 exI [of _ "m # ms"]) simp
next
  fix ms
  assume r: "r = Inl Indeterminate" and ms: "length ms < i" "greedy U (map (without m) L) ms"
    and none: "\<forall>x\<in>U. hits (map (without m) L) (insert x (set ms)) = hits (map (without m) L) (set ms)"
  have "hits L (insert x (set (m # ms))) = hits L (set (m # ms))" if "x \<in> U" for x
  proof -
    have "insert x (set (m # ms)) = insert m (insert x (set ms))" by auto
    moreover have "set (m # ms) = insert m (set ms)" by simp
    ultimately show ?thesis
      using none that hits_without [of L m "insert x (set ms)"] hits_without [of L m "set ms"] by metis
  qed
  then show "(\<exists>ms. r = Inr (nodes @ ms) \<and> length ms = Suc i \<and> greedy U L ms) \<or>
     (r = Inl Indeterminate \<and> (\<exists>ms. length ms < Suc i \<and> greedy U L ms \<and>
        (\<forall>x\<in>U. hits L (insert x (set ms)) = hits L (set ms))))"
    using r ms assms(1-3) by (intro disjI2 conjI exI [of _ "m # ms"]) simp_all
qed

lemma most_of_settled:
  assumes rt: "galois_ok rt" and thr: "\<forall>i. thr i < threads" and set: "settled net"
  shows "(\<exists>m\<in>all_masters masters. get_most_influential rt k threads thr (in_freq net) masters = Inr m \<and>
      0 < hits (concat (in_sets net)) {m} \<and>
      (\<forall>x\<in>all_masters masters. hits (concat (in_sets net)) {x} \<le> hits (concat (in_sets net)) {m})) \<or>
    get_most_influential rt k threads thr (in_freq net) masters = Inl Indeterminate \<and>
      (\<forall>x\<in>all_masters masters. hits (concat (in_sets net)) {x} = 0)"
  using most_influential_ok [OF rt thr, where k = k and freq = "in_freq net" and masters = masters] set
  unfolding settled_def sets_with_hits all_masters_def [symmetric] by simp

lemma choose_loop_ok:
  assumes rt: "galois_ok rt" and thr: "\<forall>i. thr i < threads" and enum: "enum_ok enum"
    and ok: "inf_ok owner (length masters) net"
  shows "greedy_result (all_masters masters) (map (without m) (concat (in_sets net))) i nodes
    (res_map fst (choose_loop rt threads thr owner enum masters i m nodes net))"
  using ok
proof (induction i arbitrary: m nodes net)
  case 0
  then show ?case by (simp add: greedy_result_def)
next
  case (Suc i)
  obtain net1 where run: "remove_influenced rt i owner enum (length masters) m net = Inr net1"
    and ok1: "inf_ok owner (length masters) net1" and set1: "settled net1"
    and sets: "in_sets net1 = map (map (without m)) (in_sets net)"
    using remove_influenced_ok [OF rt Suc.prems enum] by blast
  let ?L = "map (without m) (concat (in_sets net))" and ?U = "all_masters masters"
  have L: "concat (in_sets net1) = ?L" by (simp add: sets map_concat)
  show ?case
    using most_of_settled [OF rt thr set1, of masters i] unfolding L
  proof (elim disjE bexE conjE)
    fix m1
    assume m1: "m1 \<in> ?U" "get_most_influential rt i threads thr (in_freq net1) masters = Inr m1"
      "0 < hits ?L {m1}" "\<forall>x\<in>?U. hits ?L {x} \<le> hits ?L {m1}"
    have "greedy_result ?U (map (without m1) ?L) i (nodes @ [m1])
        (res_map fst (choose_loop rt threads thr owner enum masters i m1 (nodes @ [m1]) net1))"
      using Suc.IH [OF ok1, of m1 "nodes @ [m1]"] unfolding L .
    from greedy_result_step [OF m1(1,3,4) this] show ?thesis by (simp add: run m1(2))
  next
    assume none: "get_most_influential rt i threads thr (in_freq net1) masters = Inl Indeterminate"
      "\<forall>x\<in>?U. hits ?L {x} = 0"
    then have "greedy_result ?U ?L (Suc i) nodes (Inl Indeterminate)"
      by (simp add: greedy_result_def) (auto simp: hits_def intro!: exI [of _ "[]"])
    then show ?thesis by (simp add: run none(1))
  qed
qed

section \<open>From the sets to the nodes\<close>

lemma hits_le_length: "hits L A \<le> length L"
  by (simp add: hits_def)

lemma start_inf_ok:
  assumes sets: "length sets = length masters" "\<forall>s\<in>set (concat sets). finite s \<and> (\<forall>x\<in>s. owner x < length masters)"
    and freq: "\<forall>x. freq x = sets_with sets x" "length (concat sets) \<le> u64_max"
  shows "inf_ok owner (length masters) \<lparr>in_freq = freq, in_sets = sets,
    in_remote = replicate (length masters) (replicate (length masters) [])\<rparr>"
proof -
  let ?n = "length masters" and ?L = "concat sets"
  let ?net = "\<lparr>in_freq = freq, in_sets = sets, in_remote = replicate ?n (replicate ?n [])\<rparr>"
  have "inf_ok owner ?n ?net"
  proof (rule inf_okI)
    fix x
    have "(\<Sum>h<?n. counted_on ?net h x) = sets_with sets x"
      unfolding sets_with_rows sets(1) by (intro sum.cong refl) (simp add: counted_on_def row_owed_def)
    moreover have "freq x \<le> u64_max"
      using freq hits_le_length [of ?L "{x}"] by (simp add: sets_with_hits)
    ultimately show "in_freq ?net x \<le> u64_max \<and> in_freq ?net x = (\<Sum>h<?n. counted_on ?net h x)"
      using freq(1) by simp
  next
    fix h
    assume h: "h < ?n"
    then have "sets ! h \<in> set sets" using sets(1) by simp
    then have "\<forall>s\<in>set (sets ! h). finite s \<and> (\<forall>x\<in>s. owner x < ?n)"
      using sets(2) unfolding set_concat by blast
    with h show "remote_ok owner ?n h (in_remote ?net ! h) \<and>
        (\<forall>s\<in>set (in_sets ?net ! h). finite s \<and> (\<forall>x\<in>s. owner x < ?n))"
      by (simp add: remote_ok_def)
  qed (simp_all add: sets(1))
  then show ?thesis .
qed

lemma get_influential_nodes_ok:
  assumes rt: "galois_ok rt" and thr: "\<forall>i. thr i < threads" and enum: "enum_ok enum"
    and k: "0 < num_nodes" "num_nodes \<le> u64_max"
    and sets: "length sets = length masters" "\<forall>s\<in>set (concat sets). finite s \<and> (\<forall>x\<in>s. owner x < length masters)"
    and freq: "\<forall>x. freq x = sets_with sets x" "length (concat sets) \<le> u64_max"
  shows "greedy_result (all_masters masters) (concat sets) num_nodes []
    (get_influential_nodes rt threads thr owner enum masters freq sets num_nodes)"
proof -
  let ?n = "length masters" and ?U = "all_masters masters" and ?L = "concat sets"
  let ?net = "\<lparr>in_freq = freq, in_sets = sets, in_remote = replicate ?n (replicate ?n [])\<rparr>"
  have set: "settled ?net" using freq(1) by (simp add: settled_def)
  have "inf_ok owner ?n ?net" by (rule start_inf_ok [OF sets freq])
  from choose_loop_ok [OF rt thr enum this]
  have loop: "greedy_result ?U (map (without m) ?L) i nodes
      (res_map fst (choose_loop rt threads thr owner enum masters i m nodes ?net))" for i m nodes by simp
  obtain i where i: "num_nodes = Suc i" using k(1) by (cases num_nodes) auto
  have sub: "u64_sub num_nodes 1 = i" using k(2) by (subst u64_sub_small) (simp_all add: i)
  show ?thesis
    using most_of_settled [OF rt thr set, of masters num_nodes] unfolding inf_net.simps
  proof (elim disjE bexE conjE)
    fix m
    assume m: "m \<in> ?U" "get_most_influential rt num_nodes threads thr freq masters = Inr m"
      "0 < hits ?L {m}" "\<forall>x\<in>?U. hits ?L {x} \<le> hits ?L {m}"
    have "greedy_result ?U (map (without m) ?L) i ([] @ [m])
        (res_map fst (choose_loop rt threads thr owner enum masters i m [m] ?net))" using loop by simp
    from greedy_result_step [OF m(1,3,4) this] show ?thesis
      by (simp only: get_influential_nodes_def choose_nodes_def m(2) res_bind_simps sub i [symmetric])
  next
    assume none: "get_most_influential rt num_nodes threads thr freq masters = Inl Indeterminate"
      "\<forall>x\<in>?U. hits ?L {x} = 0"
    then have "greedy_result ?U ?L num_nodes [] (Inl Indeterminate)"
      using k(1) by (simp add: greedy_result_def) (auto simp: hits_def intro!: exI [of _ "[]"])
    then show ?thesis by (simp add: get_influential_nodes_def choose_nodes_def none(1))
  qed
qed

text \<open>Everything a node of the graph reaches is a node of the graph.\<close>

lemma rooted_within:
  assumes "graph_within g U" "r \<in> U" "rooted g r A"
  shows "A \<subseteq> U" "finite A"
proof -
  have "x \<in> U" if "(r, x) \<in> (rrr_rel g)\<^sup>*" for x
    using that assms(1,2) by (induction rule: rtrancl_induct) (auto simp: rrr_rel_def graph_within_def)
  then show "A \<subseteq> U" using assms(3) by (auto simp: rooted_def)
  then show "finite A" using assms(1) by (auto simp: graph_within_def intro: finite_subset)
qed

text \<open>Choosing from generated sets.\<close>

lemma influential_choice:
  assumes rt: "galois_ok rt" and part: "partitioned g U masters" and uni: "uniform_ok uniform"
    and enum: "enum_ok enum" and gs: "gs \<le> u64_max" and thr: "\<forall>i. thr i < threads"
    and k: "0 < num_nodes" "num_nodes \<le> u64_max"
  shows "\<exists>F slots. get_reachable_sets rt g enum draw uniform masters gs seed epochs = Inr (F, slots) \<and>
    greedy_result (all_masters masters) (concat slots) num_nodes []
      (get_influential_nodes rt threads thr (rg_owner g) enum masters F slots num_nodes)"
proof -
  have n: "0 < length masters" and g: "graph_within g U" "hosts_of g U (length masters)"
    using part by (auto simp: partitioned_def)
  obtain F slots where run: "get_reachable_sets rt g enum draw uniform masters gs seed epochs = Inr (F, slots)"
    "map length slots = map (host_sets (length masters) gs) [0..<length masters]"
    and root: "\<forall>h<length slots. \<forall>i<length (slots ! h).
       rooted g (seed_root uniform seed masters (h, i)) (slots ! h ! i)"
    and freq: "\<forall>x. F x = sets_with slots x"
    using get_reachable_sets_ok [OF rt part uni enum, of draw gs seed epochs] by blast
  have len: "length slots = length masters" using arg_cong [OF run(2), of length] by simp
  have total: "length (concat slots) \<le> u64_max"
    unfolding length_concat run(2) host_sets_total [OF n gs] by (rule gs)
  have "finite s \<and> (\<forall>x\<in>s. rg_owner g x < length masters)" if "s \<in> set (concat slots)" for s
  proof -
    obtain row where row: "row \<in> set slots" "s \<in> set row" using \<open>s \<in> set (concat slots)\<close> by auto
    obtain h where h: "h < length slots" "row = slots ! h" using row(1) by (auto simp: in_set_conv_nth)
    obtain i where i: "i < length (slots ! h)" "s = slots ! h ! i" using row(2) h by (auto simp: in_set_conv_nth)
    have "rooted g (seed_root uniform seed masters (h, i)) s" using root h i by simp
    moreover have "seed_root uniform seed masters (h, i) \<in> U"
      using seed_root_in(1) [OF part uni, of "(h, i)"] h len by simp
    ultimately show ?thesis using rooted_within [OF g(1)] g(2) unfolding hosts_of_def by blast
  qed
  then have "greedy_result (all_masters masters) (concat slots) num_nodes []
      (get_influential_nodes rt threads thr (rg_owner g) enum masters F slots num_nodes)"
    by (intro get_influential_nodes_ok [OF rt thr enum k len _ freq total]) blast
  with run(1) show ?thesis by blast
qed

text \<open>Greedy choices are different nodes of the graph.\<close>

lemma greedy_within: "greedy U L ms \<Longrightarrow> set ms \<subseteq> U"
  by (induction ms arbitrary: L) auto

lemma hits_without_le: "hits (map (without m) L) {x} \<le> hits L {x}"
  by (induction L) (auto simp: hits_def without_def)

lemma greedy_hits: "greedy U L ms \<Longrightarrow> x \<in> set ms \<Longrightarrow> 0 < hits L {x}"
proof (induction ms arbitrary: L)
  case (Cons m ms)
  then show ?case using hits_without_le [of m L x] by (auto dest: Cons.IH)
qed simp

lemma greedy_distinct: "greedy U L ms \<Longrightarrow> distinct ms"
proof (induction ms arbitrary: L)
  case (Cons m ms)
  have "hits (map (without m) L) {m} = 0" by (auto simp: hits_def without_def filter_empty_conv)
  then show ?case using Cons greedy_hits [of U "map (without m) L" ms m] by auto
qed simp

end
