(* ===== verification/Wf4Market.thy ===== *)
theory Wf4Market
  imports Wf4Quiesce
begin

text \<open>
  \<open>TryQuiesceNode\<close> of wf4/src/quiesce.cpp access by access. A trader is one iteration of the
  parallel loop over the masters of a host; a step is the next access of one trader to what
  it shares with the others: the amounts sold and bought, and the proposals. A seller is
  checked by adding first and subtracting again when the sum is too high.
\<close>

datatype 'd phase =
    Start
  | Idle
  | Saw_bought 'd
  | Decided 'd
  | Added 'd 'd
  | Undo 'd
  | Accepted 'd

record 'd trader =
  tr_node :: nat
  tr_needed :: 'd
  tr_edges :: "(nat \<times> 'd trade_edge) list"
  tr_phase :: "'d phase"

record 'd shared =
  sh_sold :: "nat \<Rightarrow> 'd"
  sh_bought :: "nat \<Rightarrow> 'd"
  sh_desired :: "nat \<Rightarrow> 'd"
  sh_remote :: "nat \<Rightarrow> 'd proposed_edge list"

definition tr_seller :: "'d trader \<Rightarrow> nat" where
  "tr_seller t = fst (hd (tr_edges t))"

definition next_edge :: "'d trader \<Rightarrow> 'd trader" where
  "next_edge t = t\<lparr>tr_edges := tl (tr_edges t), tr_phase := Idle\<rparr>"

definition trader_step :: "(nat \<Rightarrow> nat) \<Rightarrow> nat \<Rightarrow> 'd::linordered_field shared \<Rightarrow> 'd trader \<Rightarrow>
    ('d shared \<times> 'd trader) option" where
  "trader_step owner host sh t = (let v = tr_seller t; u = tr_node t in
     case tr_phase t of
       Start \<Rightarrow> Some (sh, t\<lparr>tr_needed := sh_desired sh u - sh_bought sh u, tr_phase := Idle\<rparr>)
     | Idle \<Rightarrow>
         if tr_edges t = [] \<or> tr_needed t \<le> 0 then None
         else if te_type (snd (hd (tr_edges t))) \<noteq> PURCHASE then Some (sh, next_edge t)
         else Some (sh, t\<lparr>tr_phase := Saw_bought (sh_bought sh v)\<rparr>)
     | Saw_bought b \<Rightarrow>
         (let trade_delta = min (tr_needed t) (b - sh_sold sh v)
          in if trade_delta \<le> 0 then Some (sh, next_edge t)
             else Some (sh, t\<lparr>tr_phase := Decided trade_delta\<rparr>))
     | Decided d \<Rightarrow>
         (let seller_sold = sh_sold sh v + d
          in Some (sh\<lparr>sh_sold := (sh_sold sh)(v := seller_sold)\<rparr>, t\<lparr>tr_phase := Added d seller_sold\<rparr>))
     | Added d seller_sold \<Rightarrow>
         if seller_sold > sh_bought sh v then Some (sh, t\<lparr>tr_phase := Undo d\<rparr>)
         else Some (sh, t\<lparr>tr_phase := Accepted d\<rparr>)
     | Undo d \<Rightarrow>
         Some (sh\<lparr>sh_sold := (sh_sold sh)(v := sh_sold sh v - d)\<rparr>, next_edge t)
     | Accepted d \<Rightarrow>
         (let t' = (next_edge t)\<lparr>tr_needed := tr_needed t - d\<rparr>
          in if owner v = host
             then Some (sh\<lparr>sh_bought := (sh_bought sh)(u := sh_bought sh u + d)\<rparr>, t')
             else Some (sh\<lparr>sh_remote := (sh_remote sh)(owner v := add_proposed
                    \<lparr>pe_src = u, pe_dst = v, pe_weight = d\<rparr> (sh_remote sh (owner v)))\<rparr>, t')))"

type_synonym 'd market_state = "'d shared \<times> 'd trader list"

inductive market_step :: "(nat \<Rightarrow> nat) \<Rightarrow> nat \<Rightarrow> 'd::linordered_field market_state \<Rightarrow>
    'd market_state \<Rightarrow> bool" for owner host where
  "i < length ts \<Longrightarrow> trader_step owner host sh (ts ! i) = Some (sh', t') \<Longrightarrow>
    market_step owner host (sh, ts) (sh', ts[i := t'])"

inductive_cases market_stepE: "market_step owner host (sh, ts) s'"

definition market_start :: "nat list \<Rightarrow> (nat \<Rightarrow> (nat \<times> 'd::linordered_field trade_edge) list) \<Rightarrow>
    'd trader list" where
  "market_start masters edges =
     map (\<lambda>u. \<lparr>tr_node = u, tr_needed = 0, tr_edges = edges u, tr_phase = Start\<rparr>) masters"

definition market_done :: "'d::linordered_field market_state \<Rightarrow> bool" where
  "market_done s \<longleftrightarrow> (\<forall>t\<in>set (snd s). tr_phase t = Idle \<and> (tr_edges t = [] \<or> tr_needed t \<le> 0))"

section \<open>The loop ends\<close>

definition steps_left :: "'d trader \<Rightarrow> nat" where
  "steps_left t = (let n = 5 * length (tr_edges t) in
     case tr_phase t of Start \<Rightarrow> n + 1 | Idle \<Rightarrow> n | Saw_bought _ \<Rightarrow> n - 1 | Decided _ \<Rightarrow> n - 2
     | Added _ _ \<Rightarrow> n - 3 | Undo _ \<Rightarrow> n - 4 | Accepted _ \<Rightarrow> n - 4)"

text \<open>Phases that work on an edge have one; the amount traded is positive and still needed.\<close>

definition trader_ok :: "'d::linordered_field trader \<Rightarrow> bool" where
  "trader_ok t \<longleftrightarrow> (case tr_phase t of
     Start \<Rightarrow> True | Idle \<Rightarrow> True | Saw_bought _ \<Rightarrow> tr_edges t \<noteq> []
   | Decided d \<Rightarrow> tr_edges t \<noteq> [] \<and> 0 < d \<and> d \<le> tr_needed t
   | Added d _ \<Rightarrow> tr_edges t \<noteq> [] \<and> 0 < d \<and> d \<le> tr_needed t
   | Undo d \<Rightarrow> tr_edges t \<noteq> [] \<and> 0 < d \<and> d \<le> tr_needed t
   | Accepted d \<Rightarrow> tr_edges t \<noteq> [] \<and> 0 < d \<and> d \<le> tr_needed t)"

lemma trader_step_ok:
  assumes "trader_step owner host sh t = Some (sh', t')" "trader_ok t"
  shows "trader_ok t'" "steps_left t' < steps_left t" "tr_node t' = tr_node t"
  using assms
  by (cases "tr_phase t"; cases "tr_edges t";
      auto simp: trader_step_def trader_ok_def steps_left_def next_edge_def Let_def split: if_splits)+

lemma step_exists:
  assumes "\<not> market_done (sh, ts)"
  shows "\<exists>s'. market_step owner host (sh, ts) s'"
proof -
  obtain i where i: "i < length ts" "\<not> (tr_phase (ts ! i) = Idle \<and> (tr_edges (ts ! i) = [] \<or> tr_needed (ts ! i) \<le> 0))"
    using assms unfolding market_done_def by (metis in_set_conv_nth snd_conv)
  then have "\<exists>r. trader_step owner host sh (ts ! i) = Some r"
    by (cases "tr_phase (ts ! i)") (auto simp: trader_step_def Let_def)
  then show ?thesis using market_step.intros [OF i(1)] by (metis surj_pair)
qed

definition market_left :: "'d market_state \<Rightarrow> nat" where
  "market_left s = sum_list (map steps_left (snd s))"

lemma market_step_left:
  assumes "market_step owner host s s'" "\<forall>t\<in>set (snd s). trader_ok t"
  shows "market_left s' < market_left s" "\<forall>t\<in>set (snd s'). trader_ok t"
proof -
  obtain i sh ts sh' t' where s: "s = (sh, ts)" "s' = (sh', ts[i := t'])" "i < length ts"
    "trader_step owner host sh (ts ! i) = Some (sh', t')"
    using assms(1) by (cases rule: market_step.cases) auto
  have t: "trader_ok (ts ! i)" using assms(2) s by simp
  note step = trader_step_ok [OF s(4) t]
  have "sum_list (map steps_left (ts[i := t'])) + steps_left (ts ! i) = sum_list (map steps_left ts) + steps_left t'"
    using s(3) by (induction ts arbitrary: i) (auto split: nat.splits)
  then show "market_left s' < market_left s" using step(2) s by (simp add: market_left_def)
  have "set (ts[i := t']) \<subseteq> insert t' (set ts)" by (rule set_update_subset_insert)
  then show "\<forall>t\<in>set (snd s'). trader_ok t" using step(1) assms(2) s by auto
qed

section \<open>No seller sells more than it bought\<close>

text \<open>
  The additions to one seller that still stand, the latest first: the trader while it may
  still undo it, the amount, and the sum it saw. What a trader saw is at least what was sold
  then, counting only additions that still stand.
\<close>

type_synonym 'd additions = "(nat option \<times> 'd \<times> 'd) list"

definition added_total :: "'d::linordered_field additions \<Rightarrow> 'd" where
  "added_total l = sum_list (map (\<lambda>e. fst (snd e)) l)"

fun additions_fit :: "'d::linordered_field \<Rightarrow> 'd additions \<Rightarrow> bool" where
  "additions_fit base [] \<longleftrightarrow> True"
| "additions_fit base (e # l) \<longleftrightarrow>
     0 < fst (snd e) \<and> base + added_total (e # l) \<le> snd (snd e) \<and> additions_fit base l"

definition pending :: "'d trader \<Rightarrow> nat \<Rightarrow> 'd \<Rightarrow> 'd \<Rightarrow> bool" where
  "pending t v d s \<longleftrightarrow> tr_seller t = v \<and> (tr_phase t = Added d s \<or> tr_phase t = Undo d)"

definition pending_at :: "'d trader \<Rightarrow> nat \<Rightarrow> bool" where
  "pending_at t v \<longleftrightarrow> (\<exists>d s. pending t v d s)"

definition additions_ok :: "'d::linordered_field \<Rightarrow> nat \<Rightarrow> 'd additions \<Rightarrow> 'd market_state \<Rightarrow> bool" where
  "additions_ok base v l st \<longleftrightarrow>
     sh_sold (fst st) v = base + added_total l \<and> additions_fit base l \<and>
     (\<forall>e\<in>set l. fst e = None \<longrightarrow> snd (snd e) \<le> sh_bought (fst st) v) \<and>
     (\<forall>e\<in>set l. \<forall>i. fst e = Some i \<longrightarrow> i < length (snd st) \<and>
        pending (snd st ! i) v (fst (snd e)) (snd (snd e))) \<and>
     (\<forall>i<length (snd st). pending_at (snd st ! i) v \<longrightarrow> Some i \<in> fst ` set l) \<and>
     distinct (filter (\<lambda>w. w \<noteq> None) (map fst l))"

lemma added_total_simps [simp]:
  "added_total [] = 0" "added_total (e # l) = fst (snd e) + added_total l"
  "added_total (l @ l') = added_total l + added_total l'"
  by (simp_all add: added_total_def)

lemma additions_fit_total: "additions_fit base l \<Longrightarrow> 0 \<le> added_total l"
  by (induction l) auto

lemma additions_fit_drop:
  "additions_fit base (xs @ e # ys) \<Longrightarrow> additions_fit base (xs @ ys)"
proof (induction xs)
  case (Cons x xs)
  have "0 < fst (snd e)" using Cons.prems by (induction xs) auto
  then show ?case using Cons by auto
qed simp

lemma additions_fit_rename:
  "additions_fit base (xs @ (w, d, s) # ys) \<Longrightarrow> additions_fit base (xs @ (w', d, s) # ys)"
  by (induction xs) auto

lemma additions_all_settled:
  assumes "additions_ok base v l st" "\<forall>e\<in>set l. fst e = None"
  shows "sh_sold (fst st) v \<le> max base (sh_bought (fst st) v)"
proof (cases l)
  case Nil
  then show ?thesis using assms by (simp add: additions_ok_def)
next
  case (Cons e l')
  have "base + added_total l \<le> snd (snd e)" "snd (snd e) \<le> sh_bought (fst st) v"
    "sh_sold (fst st) v = base + added_total l"
    using assms by (simp_all add: additions_ok_def Cons)
  then show ?thesis by (simp add: max_def)
qed

text \<open>A step that leaves the seller alone.\<close>

lemma additions_same:
  assumes ok: "additions_ok base v l (sh, ts)" and i: "i < length ts"
    and same: "sh_sold sh' v = sh_sold sh v" "sh_bought sh v \<le> sh_bought sh' v"
    and keep: "\<And>d s. pending (ts ! i) v d s \<Longrightarrow> pending t' v d s"
      "pending_at t' v \<Longrightarrow> pending_at (ts ! i) v"
  shows "additions_ok base v l (sh', ts[i := t'])"
proof -
  have "j < length (ts[i := t']) \<and> pending (ts[i := t'] ! j) v (fst (snd e)) (snd (snd e))"
    if "e \<in> set l" "fst e = Some j" for e j
    using ok that keep(1) i by (cases "j = i") (auto simp: additions_ok_def)
  moreover have "Some j \<in> fst ` set l" if "j < length ts" "pending_at (ts[i := t'] ! j) v" for j
    using ok that keep(2) i by (cases "j = i") (auto simp: additions_ok_def)
  moreover have "snd (snd e) \<le> sh_bought sh' v" if "e \<in> set l" "fst e = None" for e
    using ok that same(2) by (fastforce simp: additions_ok_def intro: order_trans)
  ultimately show ?thesis using ok same(1) by (simp add: additions_ok_def)
qed

text \<open>A trader resolves its addition: the entry goes, or stays without the trader.\<close>

lemma additions_resolve:
  assumes ok: "additions_ok base v l (sh, ts)" and i: "i < length ts"
    and was: "pending_at (ts ! i) v" and now: "\<not> pending_at t' v"
  obtains xs d s ys where "l = xs @ (Some i, d, s) # ys" "pending (ts ! i) v d s"
    "\<And>sh' zs. sh_sold sh' v = base + added_total (xs @ zs @ ys) \<Longrightarrow> sh_bought sh' = sh_bought sh \<Longrightarrow>
      additions_fit base (xs @ zs @ ys) \<Longrightarrow> \<forall>e\<in>set zs. fst e = None \<and> snd (snd e) \<le> sh_bought sh v \<Longrightarrow>
      additions_ok base v (xs @ zs @ ys) (sh', ts[i := t'])"
proof -
  have "Some i \<in> fst ` set l" using ok i was by (simp add: additions_ok_def)
  then obtain d s where e: "(Some i, d, s) \<in> set l" by auto
  then obtain xs ys where l: "l = xs @ (Some i, d, s) # ys" by (auto simp: in_set_conv_decomp)
  have mine: "pending (ts ! i) v d s" using ok e by (fastforce simp: additions_ok_def)
  have once: "Some i \<notin> fst ` set (xs @ ys)" and dist: "distinct (filter (\<lambda>w. w \<noteq> None) (map fst (xs @ ys)))"
    using ok unfolding additions_ok_def l by auto
  have "additions_ok base v (xs @ zs @ ys) (sh', ts[i := t'])"
    if new: "sh_sold sh' v = base + added_total (xs @ zs @ ys)" "sh_bought sh' = sh_bought sh"
      "additions_fit base (xs @ zs @ ys)" "\<forall>e\<in>set zs. fst e = None \<and> snd (snd e) \<le> sh_bought sh v"
    for sh' :: "'a shared" and zs
    unfolding additions_ok_def
  proof (intro conjI)
    show "\<forall>e\<in>set (xs @ zs @ ys). fst e = None \<longrightarrow> snd (snd e) \<le> sh_bought (fst (sh', ts[i := t'])) v"
      using ok new by (auto simp: additions_ok_def l)
    show "\<forall>e\<in>set (xs @ zs @ ys). \<forall>j. fst e = Some j \<longrightarrow> j < length (snd (sh', ts[i := t'])) \<and>
        pending (snd (sh', ts[i := t']) ! j) v (fst (snd e)) (snd (snd e))"
    proof (intro ballI allI impI)
      fix e j
      assume e: "e \<in> set (xs @ zs @ ys)" "fst e = Some j"
      then have "e \<in> set (xs @ ys)" using new(4) by auto
      moreover from this have "j \<noteq> i" using once e(2) by force
      moreover have "j < length ts \<and> pending (ts ! j) v (fst (snd e)) (snd (snd e))"
        using ok \<open>e \<in> set (xs @ ys)\<close> e(2) unfolding additions_ok_def l by fastforce
      ultimately show "j < length (snd (sh', ts[i := t'])) \<and>
        pending (snd (sh', ts[i := t']) ! j) v (fst (snd e)) (snd (snd e))" by simp
    qed
    show "\<forall>j<length (snd (sh', ts[i := t'])). pending_at (snd (sh', ts[i := t']) ! j) v \<longrightarrow>
        Some j \<in> fst ` set (xs @ zs @ ys)"
    proof (intro allI impI)
      fix j
      assume j: "j < length (snd (sh', ts[i := t']))" "pending_at (snd (sh', ts[i := t']) ! j) v"
      have "j \<noteq> i" using j now i by (metis nth_list_update_eq snd_conv)
      then have "Some j \<in> fst ` set l" using ok j by (simp add: additions_ok_def)
      then show "Some j \<in> fst ` set (xs @ zs @ ys)" using \<open>j \<noteq> i\<close> by (auto simp: l)
    qed
    have "filter (\<lambda>w. w \<noteq> None) (map fst zs) = []" using new(4) by (auto simp: filter_empty_conv)
    then show "distinct (filter (\<lambda>w. w \<noteq> None) (map fst (xs @ zs @ ys)))" using dist by simp
  qed (use new in simp_all)
  from that [OF l mine this] show thesis by blast
qed

lemma additions_step:
  assumes ok: "additions_ok base v l (sh, ts)" and i: "i < length ts" and t: "trader_ok (ts ! i)"
    and step: "trader_step owner host sh (ts ! i) = Some (sh', t')"
  shows "\<exists>l'. additions_ok base v l' (sh', ts[i := t'])"
proof -
  let ?t = "ts ! i"
  have quiet: ?thesis
    if "sh_sold sh' v = sh_sold sh v" "sh_bought sh v \<le> sh_bought sh' v"
      "\<And>d s. pending ?t v d s \<Longrightarrow> pending t' v d s" "pending_at t' v \<Longrightarrow> pending_at ?t v"
    using additions_same [OF ok i that] by blast
  have kept: "sh_bought sh v \<le> sh_bought sh' v"
    using step t by (cases "tr_phase ?t") (auto simp: trader_step_def trader_ok_def Let_def split: if_splits)
  consider (other) "tr_seller ?t \<noteq> v" | (decided) d where "tr_seller ?t = v" "tr_phase ?t = Decided d"
    | (added) d s where "tr_seller ?t = v" "tr_phase ?t = Added d s"
    | (undo) d where "tr_seller ?t = v" "tr_phase ?t = Undo d"
    | (rest) "\<forall>d s. tr_phase ?t \<noteq> Decided d \<and> tr_phase ?t \<noteq> Added d s \<and> tr_phase ?t \<noteq> Undo d"
    by (cases "tr_phase ?t") auto
  then show ?thesis
  proof cases
    case other
    have "\<not> pending_at t' v"
      using step other by (cases "tr_phase ?t")
        (auto simp: trader_step_def pending_at_def pending_def next_edge_def Let_def tr_seller_def split: if_splits)
    moreover have "sh_sold sh' v = sh_sold sh v"
      using step other by (cases "tr_phase ?t") (auto simp: trader_step_def Let_def split: if_splits)
    ultimately show ?thesis using other kept by (intro quiet) (auto simp: pending_def)
  next
    case rest
    have "\<not> pending_at t' v"
      using step rest by (cases "tr_phase ?t")
        (auto simp: trader_step_def pending_at_def pending_def next_edge_def Let_def split: if_splits)
    moreover have "sh_sold sh' v = sh_sold sh v"
      using step rest by (cases "tr_phase ?t") (auto simp: trader_step_def Let_def split: if_splits)
    ultimately show ?thesis using rest kept by (intro quiet) (auto simp: pending_def)
  next
    case decided
    let ?s = "sh_sold sh v + d"
    have new: "sh' = sh\<lparr>sh_sold := (sh_sold sh)(v := ?s)\<rparr>" "t' = ?t\<lparr>tr_phase := Added d ?s\<rparr>"
      using step decided by (auto simp: trader_step_def Let_def)
    have fresh: "Some i \<notin> fst ` set l"
    proof
      assume "Some i \<in> fst ` set l"
      then obtain e where "e \<in> set l" "fst e = Some i" by auto
      then have "pending ?t v (fst (snd e)) (snd (snd e))" using ok by (simp add: additions_ok_def)
      then show False using decided by (simp add: pending_def)
    qed
    have d: "0 < d" using t decided by (simp add: trader_ok_def)
    have sold: "sh_sold sh v = base + added_total l" using ok by (simp add: additions_ok_def)
    have pend: "pending t' v d ?s" using decided by (simp add: new pending_def tr_seller_def)
    have at_i: "ts[i := t'] ! i = t'" using i by simp
    have "additions_ok base v ((Some i, d, ?s) # l) (sh', ts[i := t'])"
      unfolding additions_ok_def
    proof (intro conjI)
      show "\<forall>e\<in>set ((Some i, d, ?s) # l). \<forall>j. fst e = Some j \<longrightarrow> j < length (snd (sh', ts[i := t'])) \<and>
          pending (snd (sh', ts[i := t']) ! j) v (fst (snd e)) (snd (snd e))"
      proof (intro ballI allI impI)
        fix e j
        assume e: "e \<in> set ((Some i, d, ?s) # l)" "fst e = Some j"
        show "j < length (snd (sh', ts[i := t'])) \<and>
          pending (snd (sh', ts[i := t']) ! j) v (fst (snd e)) (snd (snd e))"
        proof (cases "e \<in> set l")
          case True
          then have "j \<noteq> i" using fresh e(2) by force
          then show ?thesis using ok True e(2) by (simp add: additions_ok_def)
        next
          case False
          then show ?thesis using e pend i at_i by simp
        qed
      qed
      show "\<forall>j<length (snd (sh', ts[i := t'])). pending_at (snd (sh', ts[i := t']) ! j) v \<longrightarrow>
          Some j \<in> fst ` set ((Some i, d, ?s) # l)"
      proof (intro allI impI)
        fix j
        assume j: "j < length (snd (sh', ts[i := t']))" "pending_at (snd (sh', ts[i := t']) ! j) v"
        then show "Some j \<in> fst ` set ((Some i, d, ?s) # l)"
          using ok by (cases "j = i") (simp_all add: additions_ok_def)
      qed
      show "distinct (filter (\<lambda>w. w \<noteq> None) (map fst ((Some i, d, ?s) # l)))"
        using ok fresh by (simp add: additions_ok_def)
    qed (use ok d sold in \<open>auto simp: additions_ok_def new\<close>)
    then show ?thesis ..
  next
    case added
    show ?thesis
    proof (cases "s > sh_bought sh v")
      case True
      then have "sh' = sh" "t' = ?t\<lparr>tr_phase := Undo d\<rparr>"
        using step added by (auto simp: trader_step_def Let_def)
      then show ?thesis
        using added by (intro quiet) (auto simp: pending_at_def pending_def tr_seller_def)
    next
      case False
      then have new: "sh' = sh" "t' = ?t\<lparr>tr_phase := Accepted d\<rparr>"
        using step added by (auto simp: trader_step_def Let_def)
      have "pending_at ?t v" "\<not> pending_at t' v"
        using added by (auto simp: new pending_at_def pending_def)
      from additions_resolve [OF ok i this] obtain xs d' s' ys where
        l: "l = xs @ (Some i, d', s') # ys" and mine: "pending ?t v d' s'"
        and keep: "\<And>sh' zs. sh_sold sh' v = base + added_total (xs @ zs @ ys) \<Longrightarrow>
          sh_bought sh' = sh_bought sh \<Longrightarrow> additions_fit base (xs @ zs @ ys) \<Longrightarrow>
          \<forall>e\<in>set zs. fst e = None \<and> snd (snd e) \<le> sh_bought sh v \<Longrightarrow>
          additions_ok base v (xs @ zs @ ys) (sh', ts[i := t'])" by blast
      have s': "s' = s" using mine added by (simp add: pending_def)
      have "additions_ok base v (xs @ [(None, d', s')] @ ys) (sh', ts[i := t'])"
        using ok False by (intro keep) (auto simp: new l s' additions_ok_def dest: additions_fit_rename)
      then show ?thesis ..
    qed
  next
    case undo
    have new: "sh' = sh\<lparr>sh_sold := (sh_sold sh)(v := sh_sold sh v - d)\<rparr>" "t' = next_edge ?t"
      using step undo by (auto simp: trader_step_def Let_def)
    have "pending_at ?t v" "\<not> pending_at t' v"
      using undo by (auto simp: new pending_at_def pending_def next_edge_def)
    from additions_resolve [OF ok i this] obtain xs d' s' ys where
      l: "l = xs @ (Some i, d', s') # ys" and mine: "pending ?t v d' s'"
      and keep: "\<And>sh' zs. sh_sold sh' v = base + added_total (xs @ zs @ ys) \<Longrightarrow>
        sh_bought sh' = sh_bought sh \<Longrightarrow> additions_fit base (xs @ zs @ ys) \<Longrightarrow>
        \<forall>e\<in>set zs. fst e = None \<and> snd (snd e) \<le> sh_bought sh v \<Longrightarrow>
        additions_ok base v (xs @ zs @ ys) (sh', ts[i := t'])" by blast
    have d': "d' = d" using mine undo by (simp add: pending_def)
    have "additions_ok base v (xs @ [] @ ys) (sh', ts[i := t'])"
      using ok by (intro keep) (auto simp: new l d' additions_ok_def dest: additions_fit_drop)
    then show ?thesis ..
  qed
qed

section \<open>Runs\<close>

definition market_ok :: "(nat \<Rightarrow> 'd::linordered_field) \<Rightarrow> 'd market_state \<Rightarrow> bool" where
  "market_ok sold0 s \<longleftrightarrow> (\<forall>t\<in>set (snd s). trader_ok t) \<and> (\<forall>v. \<exists>l. additions_ok (sold0 v) v l s)"

lemma market_ok_step:
  assumes "market_step owner host s s'" "market_ok sold0 s"
  shows "market_ok sold0 s'"
proof -
  obtain i sh ts sh' t' where s: "s = (sh, ts)" "s' = (sh', ts[i := t'])" "i < length ts"
    "trader_step owner host sh (ts ! i) = Some (sh', t')"
    using assms(1) by (cases rule: market_step.cases) auto
  have t: "trader_ok (ts ! i)" using assms(2) s by (simp add: market_ok_def)
  have "\<exists>l. additions_ok (sold0 v) v l s'" for v
    using assms(2) additions_step [OF _ s(3) t s(4)] unfolding market_ok_def s(1,2) by blast
  moreover have "\<forall>t\<in>set (snd s'). trader_ok t"
    using market_step_left(2) [OF assms(1)] assms(2) by (simp add: market_ok_def)
  ultimately show ?thesis by (simp add: market_ok_def)
qed

lemma market_start_ok:
  "market_ok (sh_sold sh) (sh, market_start masters edges)"
proof -
  have "additions_ok (sh_sold sh v) v [] (sh, market_start masters edges)" for v
    by (auto simp: additions_ok_def market_start_def pending_at_def pending_def)
  then show ?thesis by (auto simp: market_ok_def market_start_def trader_ok_def)
qed

lemma market_reach_ok:
  assumes "(market_step owner host)\<^sup>*\<^sup>* (sh, market_start masters edges) s"
  shows "market_ok (sh_sold sh) s"
  using assms by (induction rule: rtranclp_induct) (auto intro: market_start_ok market_ok_step)

lemma market_never_oversells:
  assumes "(market_step owner host)\<^sup>*\<^sup>* (sh, market_start masters edges) s" "market_done s"
  shows "sh_sold (fst s) v \<le> max (sh_sold sh v) (sh_bought (fst s) v)"
proof -
  obtain l where ok: "additions_ok (sh_sold sh v) v l s"
    using market_reach_ok [OF assms(1)] by (auto simp: market_ok_def)
  have "fst e = None" if "e \<in> set l" for e
  proof (rule ccontr)
    assume "fst e \<noteq> None"
    then obtain i where i: "i < length (snd s)" "pending (snd s ! i) v (fst (snd e)) (snd (snd e))"
      using ok \<open>e \<in> set l\<close> by (auto simp: additions_ok_def)
    then have "tr_phase (snd s ! i) = Idle" using assms(2) by (simp add: market_done_def)
    with i(2) show False by (simp add: pending_def)
  qed
  with additions_all_settled [OF ok] show ?thesis by simp
qed

section \<open>No buyer buys more than it desires\<close>

definition buyers_ok :: "'d::linordered_field shared \<Rightarrow> nat list \<Rightarrow> 'd market_state \<Rightarrow> bool" where
  "buyers_ok sh0 masters s \<longleftrightarrow> map tr_node (snd s) = masters \<and> sh_desired (fst s) = sh_desired sh0 \<and>
     (\<forall>v. sh_bought (fst s) v \<le> max (sh_bought sh0 v) (sh_desired sh0 v)) \<and>
     (\<forall>t\<in>set (snd s). trader_ok t \<and> (tr_phase t \<noteq> Start \<longrightarrow>
        sh_bought (fst s) (tr_node t) + tr_needed t \<le> sh_desired sh0 (tr_node t)))"

lemma buyers_step:
  assumes step: "market_step owner host s s'" and ok: "buyers_ok sh0 masters s"
    and dist: "distinct masters"
  shows "buyers_ok sh0 masters s'"
proof -
  obtain i sh ts sh' t' where s: "s = (sh, ts)" "s' = (sh', ts[i := t'])" "i < length ts"
    and run: "trader_step owner host sh (ts ! i) = Some (sh', t')"
    using step by (cases rule: market_step.cases) auto
  let ?t = "ts ! i" and ?u = "tr_node (ts ! i)"
  have t: "trader_ok ?t" and budget: "tr_phase ?t \<noteq> Start \<Longrightarrow>
      sh_bought sh ?u + tr_needed ?t \<le> sh_desired sh0 ?u"
    and des: "sh_desired sh = sh_desired sh0" and nodes: "map tr_node ts = masters"
    using ok s(3) by (auto simp: buyers_ok_def s(1))
  have node: "tr_node t' = ?u" and t'_ok: "trader_ok t'"
    using trader_step_ok [OF run t] by auto
  have des': "sh_desired sh' = sh_desired sh"
    using run by (cases "tr_phase ?t") (auto simp: trader_step_def Let_def split: if_splits)
  have others: "sh_bought sh' v = sh_bought sh v" if "v \<noteq> ?u" for v
    using run that by (cases "tr_phase ?t") (auto simp: trader_step_def Let_def split: if_splits)
  have mine: "(sh_bought sh' ?u = sh_bought sh ?u \<or> sh_bought sh' ?u \<le> sh_desired sh0 ?u) \<and>
      sh_bought sh' ?u + tr_needed t' \<le> sh_desired sh0 ?u"
    using run t budget des by (cases "tr_phase ?t")
      (auto simp: trader_step_def trader_ok_def next_edge_def Let_def split: if_splits)
  have "sh_bought sh' v \<le> max (sh_bought sh0 v) (sh_desired sh0 v)" for v
  proof -
    have "sh_bought sh v \<le> max (sh_bought sh0 v) (sh_desired sh0 v)" using ok by (simp add: buyers_ok_def s(1))
    then show ?thesis using others [of v] mine by (cases "v = ?u") (auto simp: le_max_iff_disj)
  qed
  moreover have "trader_ok r \<and> (tr_phase r \<noteq> Start \<longrightarrow>
      sh_bought sh' (tr_node r) + tr_needed r \<le> sh_desired sh0 (tr_node r))"
    if member: "r \<in> set (ts[i := t'])" for r
  proof -
    obtain j where j: "j < length ts" "r = ts[i := t'] ! j" using member by (auto simp: in_set_conv_nth)
    show ?thesis
    proof (cases "j = i")
      case True
      then show ?thesis using j s(3) mine t'_ok node by simp
    next
      case False
      have r: "r = ts ! j" using j False by simp
      have "masters ! j \<noteq> masters ! i"
        using dist False j(1) s(3) nodes by (metis length_map nth_eq_iff_index_eq)
      then have "tr_node r \<noteq> ?u" using nodes j(1) s(3) r by (metis nth_map)
      moreover have "r \<in> set ts" using r j(1) by simp
      ultimately show ?thesis using ok others by (simp add: buyers_ok_def s(1))
    qed
  qed
  moreover have "map tr_node (ts[i := t']) = masters"
    using nodes node s(3) by (metis list_update_id map_update)
  ultimately show ?thesis using des des' by (simp add: buyers_ok_def s(2))
qed

lemma market_never_overbuys:
  assumes "(market_step owner host)\<^sup>*\<^sup>* (sh, market_start masters edges) s" "distinct masters"
  shows "sh_bought (fst s) v \<le> max (sh_bought sh v) (sh_desired sh v)"
proof -
  have "buyers_ok sh masters s"
    using assms(1)
  proof (induction rule: rtranclp_induct)
    case base
    show ?case by (auto simp: buyers_ok_def market_start_def trader_ok_def comp_def)
  next
    case (step s s')
    then show ?case using buyers_step assms(2) by blast
  qed
  then show ?thesis by (simp add: buyers_ok_def)
qed

section \<open>Every run ends\<close>

lemma market_run_bound:
  assumes "(market_step owner host ^^ n) (sh, market_start masters edges) s"
  shows "n \<le> (\<Sum>u\<leftarrow>masters. 5 * length (edges u) + 1)"
proof -
  let ?s0 = "(sh, market_start masters edges)"
  have ok: "\<forall>t\<in>set (snd ?s0). trader_ok t" by (auto simp: market_start_def trader_ok_def)
  have "market_left s + n \<le> market_left ?s0 \<and> (\<forall>t\<in>set (snd s). trader_ok t)"
    using assms
  proof (induction n arbitrary: s)
    case 0
    then show ?case using ok by simp
  next
    case (Suc n)
    then obtain s1 where "(market_step owner host ^^ n) ?s0 s1" "market_step owner host s1 s" by auto
    with Suc.IH [of s1] market_step_left [of owner host s1 s] show ?case by simp
  qed
  moreover have "market_left ?s0 = (\<Sum>u\<leftarrow>masters. 5 * length (edges u) + 1)"
    by (simp add: market_left_def market_start_def comp_def steps_left_def)
  ultimately show ?thesis by simp
qed

lemma market_finishes:
  "\<forall>t\<in>set (snd s). trader_ok t \<Longrightarrow> \<exists>s'. (market_step owner host)\<^sup>*\<^sup>* s s' \<and> market_done s'"
proof (induction "market_left s" arbitrary: s rule: less_induct)
  case less
  show ?case
  proof (cases "market_done s")
    case False
    obtain sh ts where s: "s = (sh, ts)" by (cases s)
    obtain s1 where step: "market_step owner host s s1" using step_exists False s by blast
    from less.hyps [OF market_step_left [OF step less.prems]] obtain s' where
      "(market_step owner host)\<^sup>*\<^sup>* s1 s'" "market_done s'" by blast
    with step show ?thesis by (meson converse_rtranclp_into_rtranclp)
  qed blast
qed

end
