(* ===== verification/Wf4Properties.thy ===== *)
theory Wf4Properties
  imports Wf4Main Wf4Greedy Wf4Market Wf4Wire
begin

text \<open>
  The properties of the workflow: import and projection, edge statistics, edge
  probabilities, reverse reachable sets, influential nodes, cancellation and quiescence.
\<close>

section \<open>Import\<close>

text \<open>
  The node file and the edge files agree on device identifiers: for a device with the
  decimal identifier n, the node parser makes the vertex that the uses parser makes the
  destination of a person's edge and the cyber parser makes an endpoint, and it lies in the
  upper half of the 64-bit range. (\<open>encode\<close> is the graph library's, and reads a decimal.)
\<close>

theorem device_ids_agree:
  assumes "n \<le> u64_max" "p \<le> u64_max" "encode (show_u64 n) = n"
  shows "\<exists>node uses_edge.
    node_parse_line init encode (''Device'' # show_u64 n # remaining) = Inr (ParsedNode node) \<and>
    uses_parse_line [show_u64 p, show_u64 n] = Inr (ParsedEdges [uses_edge]) \<and>
    fe_src uses_edge = p \<and> fe_dst uses_edge = fn_id (node :: 'd::zero full_node) \<and>
    fe_dst_type (uses_edge :: 'd full_edge) = DEVICE \<and> fn_type node = Some DEVICE \<and>
    half_max \<le> fn_id node \<and> fn_id node < 2 * half_max \<and>
    (\<forall>tokens cyber_edge. take 2 tokens = [show_u64 n, show_u64 n] \<longrightarrow>
       full_edge_typed COMMUNICATION tokens = Inr (cyber_edge :: 'd full_edge) \<longrightarrow>
       fe_src cyber_edge = fn_id node \<and> fe_dst cyber_edge = fn_id node)"
proof -
  let ?node = "full_node_new init (device_id n) DEVICE :: 'd full_node"
  let ?e = "(full_edge_init p n)\<lparr>fe_type := USES, fe_src_type := PERSON, fe_dst_type := DEVICE,
    fe_dst := device_id n\<rparr> :: 'd full_edge"
  have "node_parse_line init encode (''Device'' # show_u64 n # remaining) = Inr (ParsedNode ?node)"
    using assms(3) by (simp add: node_parse_line_cases)
  moreover have "uses_parse_line [show_u64 p, show_u64 n] = Inr (ParsedEdges [?e])"
    using assms(1,2) by (simp add: uses_parse_line_def full_edge_typed_def stoull_at_def vec_get_def)
  moreover have "fe_src cyber_edge = device_id n \<and> fe_dst cyber_edge = device_id n"
    if "take 2 tokens = [show_u64 n, show_u64 n]"
      "full_edge_typed COMMUNICATION tokens = Inr (cyber_edge :: 'd full_edge)" for tokens cyber_edge
  proof -
    have "vec_get tokens 0 = Inr (show_u64 n)" "vec_get tokens 1 = Inr (show_u64 n)"
      using that(1) by (cases tokens; cases "tl tokens"; simp add: vec_get_def numeral_2_eq_2)+
    then show ?thesis
      using full_edge_typed_cases(5) [OF that(2)] assms(1) by (auto simp: stoull_at_def)
  qed
  ultimately show ?thesis
    using device_id_range [of n]
    by (intro exI [of _ ?node] exI [of _ ?e]) (simp add: full_node_new_def full_edge_init_def)
qed

theorem device_ids_agree_witness:
  "\<exists>node uses_edge.
    node_parse_line 0 read_digits (''Device'' # show_u64 7 # []) = Inr (ParsedNode node) \<and>
    uses_parse_line [show_u64 3, show_u64 7] = Inr (ParsedEdges [uses_edge]) \<and>
    fe_src (uses_edge :: nat full_edge) = 3 \<and> fe_dst uses_edge = fn_id (node :: nat full_node)"
proof -
  have "(7::nat) \<le> u64_max" "(3::nat) \<le> u64_max" by (simp_all add: u64_max_def)
  from device_ids_agree [where 'd = nat and init = 0 and remaining = "[]" and encode = read_digits, OF this read_show]
  show ?thesis by blast
qed

text \<open>
  Projecting the graph never reads an amount or a type that no parser set: of the edges
  the parsers make, exactly the trades about topic 8486 with a positive amount to a person
  are kept, and a kept edge has its amount and a zero weight.
\<close>

theorem projection_keeps_trades:
  fixes e :: "'d::linordered_field full_edge"
  assumes parsed: "full_edge_commercial stod tokens = Inr e \<or>
      (\<exists>ty\<in>{USES, FRIEND, COMMUNICATION}. full_edge_typed ty tokens = Inr e)"
    and dst: "fn_type dst = Some ty"
  shows "keep_edge dst e = Inr (ty = PERSON \<and> fe_topic e = 8486 \<and> (\<exists>a>0. fe_amount e = Some a)) \<and>
    (keep_edge dst e = Inr True \<longrightarrow> (\<exists>t. trade_of (project_edge e) = Some t \<and>
       te_type t = SALE \<and> te_amount t > 0 \<and> te_weight t = 0))"
proof (cases "full_edge_commercial stod tokens = Inr e")
  case True
  then obtain a where e: "fe_amount e = Some a" "fe_weight e = Some 0" "fe_type e = SALE"
    by (auto simp: full_edge_commercial_def res_bind_Inr_iff full_edge_init_def)
  then show ?thesis
    using dst by (auto simp: keep_edge_def keep_node_def trade_of_def project_edge_def)
next
  case False
  then obtain ty' where ty': "ty' \<in> {USES, FRIEND, COMMUNICATION}" "full_edge_typed ty' tokens = Inr e"
    using parsed by blast
  have "keep_edge dst e = Inr False" "fe_topic e = 0"
    using ty'(1) full_edge_typed_cases(1-3) [OF ty'(2)] by (auto simp: keep_edge_def)
  then show ?thesis by simp
qed

definition sample_line :: "string list" where
  "sample_line = [''Sale'', show_u64 1, show_u64 2, show_u64 8486, ''05:01:2019'', '''', '''', ''12.5'']"

theorem projection_keeps_trades_witness:
  "\<exists>e. full_edge_commercial (\<lambda>_. Inr (25 / 2 :: rat)) sample_line = Inr e \<and>
    keep_edge (full_node_new 0 2 PERSON) e =
      Inr (PERSON = PERSON \<and> fe_topic e = 8486 \<and> (\<exists>a>0. fe_amount e = Some a))"
proof -
  obtain e where e: "full_edge_commercial (\<lambda>_. Inr (25 / 2 :: rat)) sample_line = Inr e"
    by (simp add: full_edge_commercial_def sample_line_def vec_get_def stoull_at_def u64_max_def)
  have "fn_type (full_node_new 0 2 PERSON :: rat full_node) = Some PERSON" by (simp add: full_node_new_def)
  with projection_keeps_trades [OF disjI1 [OF e] this] e show ?thesis by blast
qed

text \<open>
  The edge statistics count what they say: all edges of the masters, the trades among
  them, the trades of persons, and the persons with at least one trade; an edge whose
  destination cannot be looked up counts as an edge only.
\<close>

theorem count_edges_counts:
  assumes "\<forall>n\<in>set masters. edges_readable (snd n)"
  shows "count_edges masters = Inr
    \<lparr>c_edges = sum_list (map (\<lambda>n. length (snd n)) masters),
     c_person_nodes = length (filter (\<lambda>n. fst n = PERSON \<and> trades (snd n) > 0) masters),
     c_trading_edges = sum_list (map (\<lambda>n. trades (snd n)) masters),
     c_trading_person_edges = sum_list (map (\<lambda>n. trades (snd n)) (filter (\<lambda>n. fst n = PERSON) masters))\<rparr>"
  using count_node_loop [OF assms] by (simp add: count_edges_def)

definition sample_masters :: "(types \<times> (rat full_edge \<times> bool) list) list" where
  "sample_masters =
     [(PERSON, [(full_edge_values 1 2 SALE PERSON PERSON 5 8486, False),
                (full_edge_values 1 3 SALE PERSON PERSON 5 8486, True)]),
      (DEVICE, [(full_edge_values 4 2 SALE PERSON PERSON 5 7, False)])]"

theorem count_edges_counts_witness:
  "count_edges sample_masters = Inr \<lparr>c_edges = 3, c_person_nodes = 1, c_trading_edges = 1,
     c_trading_person_edges = 1\<rparr>"
proof -
  have "\<forall>n\<in>set sample_masters. edges_readable (snd n)"
    by (auto simp: sample_masters_def edges_readable_def is_trade_def full_edge_values_def)
  from count_edges_counts [OF this] show ?thesis
    by (simp add: sample_masters_def trades_def is_trade_def full_edge_values_def full_edge_init_def)
qed

section \<open>Edge probabilities\<close>

text \<open>
  C9: After the two loops and the synchronisation, on every host and for every master, a sale
  carries the share of its amount in all sales of the seller, a purchase its share in the
  sales of the seller at its other end if there are any, and every other edge its old weight;
  so the weights of a seller's sales add up to one. Of the two printed totals, one adds up the
  weights that were set, the other the amounts of all edges. (Doubles are exact here.)
\<close>

theorem edge_probabilities_shared:
  fixes hs :: "'d::linordered_field host list"
  assumes rt: "galois_ok rt" and sync: "sync_sold_ok owner sync" and fresh: "fresh_hosts owner hs"
  shows "\<exists>hs'. calculate_edge_probabilities rt sync hs = Inr hs' \<and> length hs' = length hs \<and>
    calculate_with_totals rt sync hs = Inr (hs', edge_totals owner hs) \<and>
    (\<forall>i<length hs. \<forall>u\<in>set (h_masters (hs ! i)).
       h_edges (hs' ! i) u =
         map (\<lambda>p. (fst p, (snd p)\<lparr>te_weight := edge_probability owner hs u p\<rparr>)) (h_edges (hs ! i) u) \<and>
       ((\<exists>p\<in>set (h_edges (hs ! i) u). te_type (snd p) = SALE) \<longrightarrow>
          (\<Sum>p\<leftarrow>h_edges (hs' ! i) u. if te_type (snd p) = SALE then te_weight (snd p) else 0) = 1))"
proof -
  obtain hs' where run: "calculate_with_totals rt sync hs = Inr (hs', edge_totals owner hs)" and hs': "length hs' = length hs"
    "\<And>i u. i < length hs \<Longrightarrow> u \<in> set (h_masters (hs ! i)) \<Longrightarrow> h_edges (hs' ! i) u =
      map (\<lambda>p. (fst p, (snd p)\<lparr>te_weight := edge_probability owner hs u p\<rparr>)) (h_edges (hs ! i) u)"
    using edge_totals_ok [OF rt sync fresh] by blast
  have "(\<Sum>p\<leftarrow>h_edges (hs' ! i) u. if te_type (snd p) = SALE then te_weight (snd p) else 0) = 1"
    if i: "i < length hs" and u: "u \<in> set (h_masters (hs ! i))"
      and p: "p \<in> set (h_edges (hs ! i) u)" "te_type (snd p) = SALE" for i u p
  proof -
    let ?es = "h_edges (hs ! i) u" and ?t = "type_total SALE (h_edges (hs ! i) u)"
    have own: "owner u = i" and "\<forall>p\<in>set ?es. te_amount (snd p) > 0"
      using fresh i u by (auto simp: fresh_hosts_def)
    then have t: "?t > 0" using type_total_pos p by blast
    have "(\<Sum>p\<leftarrow>h_edges (hs' ! i) u. if te_type (snd p) = SALE then te_weight (snd p) else 0) =
        (\<Sum>p\<leftarrow>?es. if te_type (snd p) = SALE then te_amount (snd p) / ?t else 0)"
      unfolding hs'(2) [OF i u] map_map
      by (intro arg_cong [of _ _ sum_list] map_cong refl)
        (simp add: edge_probability_def edges_of_def own)
    also have "\<dots> = ?t / ?t" using sale_weights_sum [of ?t ?es] t by simp
    finally show ?thesis using t by simp
  qed
  moreover have "calculate_edge_probabilities rt sync hs = Inr hs'" using run by (simp add: calculate_edge_probabilities_def)
  ultimately show ?thesis using hs' run by blast
qed

definition sample_edge :: "types \<Rightarrow> nat \<Rightarrow> nat \<Rightarrow> rat \<Rightarrow> nat \<times> rat trade_edge" where
  "sample_edge ty u v a = (v, \<lparr>te_type = ty, te_amount = a, te_weight = 0, te_src = u, te_dst = v\<rparr>)"

definition sample_node :: "rat \<Rightarrow> rat \<Rightarrow> rat \<Rightarrow> rat network_node" where
  "sample_node sold bought desired = \<lparr>nn_id = 0, nn_frequency = 0, nn_sold = sold,
     nn_bought = bought, nn_desired = desired\<rparr>"

text \<open>Two hosts: node 0 on the first sells to node 1 on the second, which buys from it.\<close>

definition sample_hosts :: "rat host list" where
  "sample_hosts =
     [\<lparr>h_node = \<lambda>_. sample_node 0 0 0, h_masters = [0],
        h_edges = (\<lambda>u. if u = 0 then [sample_edge SALE 0 1 3, sample_edge SALE 0 1 1] else []),
        h_sold_bits = {}, h_bought_bits = {}\<rparr>,
      \<lparr>h_node = \<lambda>_. sample_node 0 0 0, h_masters = [1],
        h_edges = (\<lambda>u. if u = 1 then [sample_edge PURCHASE 1 0 3] else []),
        h_sold_bits = {}, h_bought_bits = {}\<rparr>]"

theorem edge_probabilities_shared_witness:
  "\<exists>hs'. calculate_with_totals backward_rt (sync_sold id) sample_hosts =
      Inr (hs', \<lparr>total_edge_weights = 7 / 4, total_sales = 7\<rparr>) \<and>
    map (\<lambda>p. te_weight (snd p)) (h_edges (hs' ! 0) 0) = [3 / 4, 1 / 4] \<and>
    map (\<lambda>p. te_weight (snd p)) (h_edges (hs' ! 1) 1) = [3 / 4]"
proof -
  have "fresh_hosts id sample_hosts"
    by (auto simp: fresh_hosts_def sample_hosts_def sample_edge_def sample_node_def less_Suc_eq)
  from edge_probabilities_shared [OF galois_ok_backward sync_sold_ok_witness this] obtain hs' where
    run: "calculate_with_totals backward_rt (sync_sold id) sample_hosts = Inr (hs', edge_totals id sample_hosts)"
    and edges: "\<forall>i<length sample_hosts. \<forall>u\<in>set (h_masters (sample_hosts ! i)). h_edges (hs' ! i) u =
      map (\<lambda>p. (fst p, (snd p)\<lparr>te_weight := edge_probability id sample_hosts u p\<rparr>)) (h_edges (sample_hosts ! i) u)"
    by blast
  have "h_edges (hs' ! 0) 0 = map (\<lambda>p. (fst p, (snd p)\<lparr>te_weight := edge_probability id sample_hosts 0 p\<rparr>))
      (h_edges (sample_hosts ! 0) 0)"
    "h_edges (hs' ! 1) 1 = map (\<lambda>p. (fst p, (snd p)\<lparr>te_weight := edge_probability id sample_hosts 1 p\<rparr>))
      (h_edges (sample_hosts ! 1) 1)"
    using edges by (simp_all add: sample_hosts_def)
  moreover have "edge_totals id sample_hosts = \<lparr>total_edge_weights = 7 / 4, total_sales = 7\<rparr>"
    by (simp add: edge_totals_def sum_edges_def gets_weight_def edge_probability_def edges_of_def type_total_def
        sample_hosts_def sample_edge_def)
  ultimately show ?thesis
    using run by (simp add: edge_probability_def edges_of_def type_total_def sample_hosts_def sample_edge_def)
qed

section \<open>Reverse reachable sets\<close>

text \<open>
  C22: A message of partial sets is read back as it was sent, whatever the order in which
  the hash sets are enumerated, and a message without sets is read as none.
\<close>

theorem partial_sets_received:
  assumes "enum_ok enum" "\<forall>p\<in>set ps. finite (ps_reached p) \<and> finite (ps_frontier p)"
  shows "read_message (seal_buffer (concat (map (serialize_set enum) ps))) = Inr ps"
  using assms by (rule read_sealed)

theorem partial_sets_received_witness:
  "read_message (seal_buffer (concat (map (serialize_set sorted_list_of_set)
    [new_partial_set 4 1 7, \<lparr>ps_id = 5, ps_owner = 1, ps_reached = {1, 2, 3}, ps_frontier = {}\<rparr>]))) =
    Inr [new_partial_set 4 1 7, \<lparr>ps_id = 5, ps_owner = 1, ps_reached = {1, 2, 3}, ps_frontier = {}\<rparr>]"
  by (rule partial_sets_received [OF enum_ok_sorted]) (simp add: new_partial_set_def)


definition sample_graph :: "rat rrr_graph" where
  "sample_graph = \<lparr>rg_owner = \<lambda>x. x mod 2, rg_out = \<lambda>x. if x < 3 then [(x + 1, 1 / 2)] else []\<rparr>"

definition sample_uniform :: "nat \<Rightarrow> nat \<Rightarrow> nat \<Rightarrow> nat" where
  "sample_uniform seed stream b = min stream b"

lemma sample_partitioned: "partitioned sample_graph {..<4} [[0, 2], [1, 3]]"
proof -
  have "graph_within sample_graph {..<4}" by (auto simp: graph_within_def sample_graph_def)
  then show ?thesis
    by (auto simp: partitioned_def hosts_of_def sample_graph_def less_Suc_eq u64_max_def)
qed

lemma sample_uniform_ok: "uniform_ok sample_uniform"
  by (simp add: uniform_ok_def sample_uniform_def)


end
