(* ===== verification/Wf4Verify.thy ===== *)
theory Wf4Verify
  imports Wf4Market Wf4Greedy
begin

text \<open>
  The checks the workflow has of itself: \<open>verifyState\<close> (wf4/src/quiesce.cpp), whose call is
  commented out, and \<open>verifyInfluentialNodesDebug\<close> (wf4/src/influence\_maximization.cpp). The
  complaints are lists of what is printed.
\<close>

section \<open>verifyState\<close>

datatype 'd complaint =
    Sold_more_than_bought nat 'd 'd
  | Bought_more_than_desired nat 'd 'd

definition verify_node :: "(nat \<Rightarrow> nat) \<Rightarrow> (nat \<Rightarrow> nat \<Rightarrow> bool) \<Rightarrow> nat \<Rightarrow> 'd::linordered_field host \<Rightarrow> nat \<Rightarrow>
    'd complaint list" where
  "verify_node owner is_local host H gid =
     (if is_local host gid
      then let data = h_node H gid in
        (if nn_bought data > 0 \<and> nn_sold data > nn_bought data + 1 / 100
         then [Sold_more_than_bought (nn_id data) (nn_sold data) (nn_bought data)] else []) @
        (if owner gid = host \<and> nn_bought data > nn_desired data + 1 / 100
         then [Bought_more_than_desired (nn_id data) (nn_bought data) (nn_desired data)] else [])
      else [])"

text \<open>The loop is over the local numbers of the nodes, which it takes for global ones.\<close>

definition verify_state :: "galois_rt \<Rightarrow> (nat \<Rightarrow> nat) \<Rightarrow> (nat \<Rightarrow> nat \<Rightarrow> bool) \<Rightarrow> nat \<Rightarrow> nat \<Rightarrow>
    'd::linordered_field host \<Rightarrow> 'd complaint list res" where
  "verify_state rt owner is_local host local_nodes H =
     do_all rt 0 (\<lambda>gid printed. Inr (printed @ verify_node owner is_local host H gid)) [0..<local_nodes] []"

lemma verify_state_silent:
  assumes "galois_ok rt"
    and "\<And>v. 0 < nn_bought (h_node H v) \<Longrightarrow> nn_sold (h_node H v) \<le> nn_bought (h_node H v) + 1 / 100"
    and "\<And>v. owner v = host \<Longrightarrow> nn_bought (h_node H v) \<le> nn_desired (h_node H v) + 1 / 100"
  shows "verify_state rt owner is_local host n H = Inr []"
proof -
  obtain gids where "verify_state rt owner is_local host n H =
      fold_res (\<lambda>gid printed. Inr (printed @ verify_node owner is_local host H gid)) gids []"
    using do_all_as_perm [OF assms(1)] unfolding verify_state_def by metis
  moreover have "verify_node owner is_local host H gid = []" for gid
    using assms(2,3) [of gid] by (auto simp: verify_node_def Let_def not_less)
  ultimately show ?thesis by (induction gids) simp_all
qed

text \<open>A host whose amounts are those of the shared state.\<close>

definition shared_of :: "'d host \<Rightarrow> 'd shared" where
  "shared_of H = \<lparr>sh_sold = \<lambda>v. nn_sold (h_node H v), sh_bought = \<lambda>v. nn_bought (h_node H v),
     sh_desired = \<lambda>v. nn_desired (h_node H v), sh_remote = \<lambda>_. []\<rparr>"

definition with_shared :: "'d shared \<Rightarrow> 'd host \<Rightarrow> 'd host" where
  "with_shared sh H = H\<lparr>h_node := \<lambda>v. (h_node H v)\<lparr>nn_sold := sh_sold sh v, nn_bought := sh_bought sh v\<rparr>\<rparr>"

text \<open>A run of the traders of a host only adds to what was bought.\<close>

lemma market_bought_grows:
  assumes "(market_step owner host)\<^sup>*\<^sup>* (sh, market_start masters edges) s"
  shows "sh_bought sh v \<le> sh_bought (fst s) v \<and> (\<forall>t\<in>set (snd s). trader_ok t)"
  using assms
proof (induction rule: rtranclp_induct)
  case base
  show ?case by (auto simp: market_start_def trader_ok_def)
next
  case (step s s')
  obtain i sh1 ts sh' t' where s: "s = (sh1, ts)" "s' = (sh', ts[i := t'])" "i < length ts"
    "trader_step owner host sh1 (ts ! i) = Some (sh', t')"
    using step.hyps(2) by (cases rule: market_step.cases) auto
  have "trader_ok (ts ! i)" using step.IH s by simp
  then have "sh_bought sh1 v \<le> sh_bought sh' v"
    using s(4) by (cases "tr_phase (ts ! i)")
      (auto simp: trader_step_def trader_ok_def Let_def split: if_splits)
  then show ?case
    using step.IH market_step_left(2) [OF step.hyps(2)] s by simp
qed

lemma quiesced_host_silent:
  fixes H :: "'d::linordered_field host"
  assumes rt: "galois_ok rt" and dist: "distinct (h_masters H)"
    and run: "(market_step owner host)\<^sup>*\<^sup>* (shared_of H, market_start (h_masters H) (h_edges H)) s" "market_done s"
    and before: "\<forall>v. nn_sold (h_node H v) \<le> nn_bought (h_node H v) + 1 / 100"
      "\<forall>v. owner v = host \<longrightarrow> nn_bought (h_node H v) \<le> nn_desired (h_node H v) + 1 / 100"
  shows "verify_state rt owner is_local host n (with_shared (fst s) H) = Inr []"
proof (rule verify_state_silent [OF rt])
  fix v
  have "sh_sold (fst s) v \<le> max (nn_sold (h_node H v)) (sh_bought (fst s) v)"
    using market_never_oversells [OF run, of v] by (simp add: shared_of_def)
  moreover have "nn_bought (h_node H v) \<le> sh_bought (fst s) v"
    using market_bought_grows [OF run(1), of v] by (simp add: shared_of_def)
  ultimately show "nn_sold (h_node (with_shared (fst s) H) v) \<le> nn_bought (h_node (with_shared (fst s) H) v) + 1 / 100"
    using before(1) [rule_format, of v] by (auto simp: with_shared_def max_def split: if_splits)
  have "sh_bought (fst s) v \<le> max (nn_bought (h_node H v)) (nn_desired (h_node H v))"
    using market_never_overbuys [OF run(1) dist, of v] by (simp add: shared_of_def)
  then show "nn_bought (h_node (with_shared (fst s) H) v) \<le> nn_desired (h_node (with_shared (fst s) H) v) + 1 / 100"
    if "owner v = host"
    using before(2) [rule_format, OF that] by (auto simp: with_shared_def max_def split: if_splits)
qed

section \<open>verifyInfluentialNodesDebug\<close>

text \<open>
  The nodes whose identifier is above the threshold are counted where they are owned and
  summed over the hosts; host 0 complains if they are more than a tenth.
\<close>

definition non_influential_on :: "(nat \<Rightarrow> nat) \<Rightarrow> (nat \<Rightarrow> nat) \<Rightarrow> nat \<Rightarrow> nat list \<Rightarrow> nat \<Rightarrow> nat" where
  "non_influential_on owner id_of threshold influential_nodes host =
     fold (\<lambda>v n. if owner v = host \<and> id_of v > threshold then u64_add n 1 else n) influential_nodes 0"

definition verify_influential_nodes :: "(nat \<Rightarrow> nat) \<Rightarrow> (nat \<Rightarrow> nat) \<Rightarrow> nat \<Rightarrow> nat \<Rightarrow> nat list \<Rightarrow>
    (nat \<times> nat) option" where
  "verify_influential_nodes owner id_of num_hosts threshold influential_nodes =
     (if threshold = 0 then None
      else let n = fold (\<lambda>h n. u64_add n (non_influential_on owner id_of threshold influential_nodes h)) [0..<num_hosts] 0
           in if n > length influential_nodes div 10 then Some (n, length influential_nodes) else None)"

lemma non_influential_on_count:
  "m + length nodes \<le> u64_max \<Longrightarrow>
    fold (\<lambda>v n. if owner v = host \<and> id_of v > threshold then u64_add n 1 else n) nodes m =
      m + length (filter (\<lambda>v. owner v = host \<and> id_of v > threshold) nodes)"
  by (induction nodes arbitrary: m) (simp_all add: u64_add_small)

lemma fold_u64_sum:
  "m + (\<Sum>h\<leftarrow>hs. f h) \<le> u64_max \<Longrightarrow> fold (\<lambda>h n. u64_add n (f h)) hs m = m + (\<Sum>h\<leftarrow>hs. f h)"
  by (induction hs arbitrary: m) (simp_all add: u64_add_small add.assoc)

lemma sum_over_owners:
  assumes "\<forall>v\<in>set nodes. owner v < n"
  shows "(\<Sum>h\<leftarrow>[0..<n]. length (filter (\<lambda>v. owner v = h \<and> P v) nodes)) = length (filter P nodes)"
  using assms
proof (induction nodes)
  case (Cons v nodes)
  have "(\<Sum>h<n. if owner v = h then 1 else 0) = (1::nat)" using Cons.prems by (simp add: sum.delta)
  then have one: "(\<Sum>h\<leftarrow>[0..<n]. if owner v = h \<and> P v then 1 else 0) = (if P v then 1 else 0 :: nat)"
    by (simp add: interv_sum_list_conv_sum_set_nat atLeast0LessThan)
  have "(\<Sum>h\<leftarrow>[0..<n]. length (filter (\<lambda>v. owner v = h \<and> P v) (v # nodes))) =
      (\<Sum>h\<leftarrow>[0..<n]. (if owner v = h \<and> P v then 1 else 0) + length (filter (\<lambda>v. owner v = h \<and> P v) nodes))"
    by (intro arg_cong [where f = sum_list] map_cong) auto
  also have "\<dots> = (if P v then 1 else 0) + length (filter P nodes)"
    unfolding sum_list_addf one using Cons by simp
  finally show ?case by simp
qed simp

text \<open>The check counts every chosen node once, at its owner.\<close>

lemma verify_influential_nodes_counts:
  assumes "\<forall>v\<in>set nodes. owner v < num_hosts" and "length nodes \<le> u64_max"
  shows "verify_influential_nodes owner id_of num_hosts threshold nodes =
    (let n = length (filter (\<lambda>v. id_of v > threshold) nodes)
     in if threshold \<noteq> 0 \<and> n > length nodes div 10 then Some (n, length nodes) else None)"
proof -
  have on: "non_influential_on owner id_of threshold nodes h =
      length (filter (\<lambda>v. owner v = h \<and> id_of v > threshold) nodes)" for h
    using non_influential_on_count [of 0 nodes] assms(2) by (simp add: non_influential_on_def)
  have "(\<Sum>h\<leftarrow>[0..<num_hosts]. length (filter (\<lambda>v. owner v = h \<and> id_of v > threshold) nodes)) \<le> u64_max"
    using sum_over_owners [OF assms(1)] assms(2) length_filter_le by (metis order_trans)
  then have "fold (\<lambda>h n. u64_add n (non_influential_on owner id_of threshold nodes h)) [0..<num_hosts] 0 =
      length (filter (\<lambda>v. id_of v > threshold) nodes)"
    using fold_u64_sum [of 0 "\<lambda>h. length (filter (\<lambda>v. owner v = h \<and> id_of v > threshold) nodes)" "[0..<num_hosts]"]
      sum_over_owners [OF assms(1)] by (simp add: on)
  then show ?thesis by (simp add: verify_influential_nodes_def Let_def)
qed

section \<open>The sets that remain\<close>

definition withouts :: "nat list \<Rightarrow> nat set \<Rightarrow> nat set" where
  "withouts ms s = (if set ms \<inter> s \<noteq> {} then {} else s)"

lemma withouts_simps [simp]:
  "withouts [] s = s" "withouts ms (without m s) = withouts (m # ms) s"
  by (auto simp: withouts_def without_def)

lemma choose_loop_sets:
  assumes rt: "galois_ok rt" and enum: "enum_ok enum" and "inf_ok owner (length masters) net"
    and "choose_loop rt threads thr owner enum masters i m nodes net = Inr (found, net')"
  shows "\<exists>ms. found = nodes @ ms \<and> in_sets net' = map (map (withouts (butlast (m # ms)))) (in_sets net)"
  using assms(3-)
proof (induction i arbitrary: m nodes net)
  case 0
  then show ?case by (simp add: map_idI)
next
  case (Suc i)
  obtain net1 where run: "remove_influenced rt i owner enum (length masters) m net = Inr net1"
    and ok1: "inf_ok owner (length masters) net1" and sets: "in_sets net1 = map (map (without m)) (in_sets net)"
    using remove_influenced_ok [OF rt Suc.prems(1) enum] by blast
  obtain m1 where "choose_loop rt threads thr owner enum masters i m1 (nodes @ [m1]) net1 = Inr (found, net')"
    using Suc.prems(2) run by (auto simp: res_bind_Inr_iff)
  from Suc.IH [OF ok1 this] obtain ms where
    "found = (nodes @ [m1]) @ ms" "in_sets net' = map (map (withouts (butlast (m1 # ms)))) (in_sets net1)" by blast
  then show ?case by (intro exI [of _ "m1 # ms"]) (simp add: sets comp_def)
qed

text \<open>
  The number printed for a host leaves the sets of the last chosen node in: the loop removes the
  sets of a node only before it chooses the next one.
\<close>

lemma uninfluenced_sets_count:
  assumes rt: "galois_ok rt" and enum: "enum_ok enum"
    and sets: "length sets = length masters" "\<forall>s\<in>set (concat sets). finite s \<and> (\<forall>x\<in>s. owner x < length masters)"
    and freq: "\<forall>x. freq x = sets_with sets x" "length (concat sets) \<le> u64_max"
    and run: "choose_nodes rt threads thr owner enum masters freq sets num_nodes = Inr (nodes, net)"
    and h: "h < length sets"
  shows "uninfluenced_sets net h = length (filter (\<lambda>s. s \<noteq> {} \<and> set (butlast nodes) \<inter> s = {}) (sets ! h))"
proof -
  have small: "length (sets ! h) \<le> u64_max"
    using freq(2) h elem_le_sum_list [of h "map length sets"] by (simp add: length_concat)
  obtain m where loop: "choose_loop rt threads thr owner enum masters (u64_sub num_nodes 1) m [m]
      \<lparr>in_freq = freq, in_sets = sets, in_remote = replicate (length masters) (replicate (length masters) [])\<rparr> = Inr (nodes, net)"
    using run by (auto simp: choose_nodes_def res_bind_Inr_iff)
  have left: "in_sets net = map (map (withouts (butlast nodes))) sets"
    using choose_loop_sets [OF rt enum start_inf_ok [OF sets freq] loop] by auto
  have count: "fold (\<lambda>s n. if s \<noteq> {} then u64_add n 1 else n) xs n = n + length (filter (\<lambda>s. s \<noteq> {}) xs)"
    if "n + length xs \<le> u64_max" for xs :: "nat set list" and n
    using that by (induction xs arbitrary: n) (simp_all add: u64_add_small)
  have "(\<lambda>s. s \<noteq> {}) \<circ> withouts (butlast nodes) = (\<lambda>s. s \<noteq> {} \<and> set (butlast nodes) \<inter> s = {})"
    by (auto simp: withouts_def fun_eq_iff)
  then show ?thesis
    using count [of 0 "map (withouts (butlast nodes)) (sets ! h)"] small h
    by (simp add: uninfluenced_sets_def left filter_map)
qed

end
