(* ===== verification/Wf4Outcomes.thy ===== *)
theory Wf4Outcomes
  imports Wf4Settle Wf4Properties Wf4Verify
begin

text \<open>
  The properties of the choice of influential nodes, of cancellations and of quiescence.
\<close>

section \<open>Influential nodes\<close>

text \<open>
  C3: The influential nodes chosen from the generated sets are a greedy cover: each is in the
  most sets that contain none of the nodes chosen before it (of all masters on all hosts),
  and in at least one. If at some round no set is left, the choice reads a node that was
  never initialised instead.
\<close>

theorem influential_nodes_greedy:
  assumes rt: "galois_ok rt" and part: "partitioned g U masters" and uni: "uniform_ok uniform"
    and enum: "enum_ok enum" and gs: "gs \<le> u64_max" and thr: "\<forall>i. thr i < threads"
    and k: "0 < num_nodes" "num_nodes \<le> u64_max"
  shows "\<exists>F slots. get_reachable_sets rt g enum draw uniform masters gs seed epochs = Inr (F, slots) \<and>
    greedy_result (all_masters masters) (concat slots) num_nodes []
      (get_influential_nodes rt threads thr (rg_owner g) enum masters F slots num_nodes)"
  using assms by (rule influential_choice)

theorem influential_nodes_greedy_witness:
  "\<exists>F slots. get_reachable_sets backward_rt sample_graph sorted_list_of_set (\<lambda>_ _ k. of_nat k / 4)
      sample_uniform [[0, 2], [1, 3]] 5 42 3 = Inr (F, slots) \<and>
    greedy_result {0, 1, 2, 3} (concat slots) 2 []
      (get_influential_nodes backward_rt 2 (\<lambda>i. i mod 2) (\<lambda>x. x mod 2) sorted_list_of_set
        [[0, 2], [1, 3]] F slots 2)"
proof -
  have a: "(5::nat) \<le> u64_max" "\<forall>i. i mod 2 < (2::nat)" "0 < (2::nat)" "(2::nat) \<le> u64_max"
    by (simp_all add: u64_max_def)
  have "all_masters [[0, 2], [1, 3]] = {0, 1, 2, 3}" by (auto simp: all_masters_def)
  moreover have "rg_owner sample_graph = (\<lambda>x. x mod 2)" by (simp add: sample_graph_def)
  ultimately show ?thesis
    using influential_nodes_greedy [OF galois_ok_backward sample_partitioned sample_uniform_ok
        enum_ok_sorted a, of "\<lambda>_ _ k. of_nat k / 4" 42 3] by simp
qed


definition sample_sets :: "nat set list list" where
  "sample_sets = [[{0, 1}, {1}], [{1, 2}, {3}]]"

lemma sample_sets_ok:
  "length sample_sets = length [[0, 2], [1, 3::nat]]"
  "\<forall>s\<in>set (concat sample_sets). finite s \<and> (\<forall>x\<in>s. x mod 2 < length [[0, 2], [1, 3::nat]])"
  "length (concat sample_sets) \<le> u64_max"
  by (simp_all add: sample_sets_def u64_max_def)


text \<open>
  C24: All hosts choose the same node. Whichever host reduces the maxima, and in whichever order
  the messages of the others reach it, it finds the same result: a node of the highest frequency
  among the masters of all hosts, if any is counted, and an uninitialised one otherwise.
\<close>

theorem hosts_choose_alike:
  assumes "galois_ok rt" and "\<forall>i. thr i < threads"
  shows "\<exists>r. (\<forall>host<length masters. \<forall>senders. mset senders = mset (filter (\<lambda>s. s \<noteq> host) [0..<length masters]) \<longrightarrow>
      get_most_influential_on senders host rt k threads thr freq masters = r) \<and>
    ((\<exists>m\<in>all_masters masters. r = Inr m \<and> 0 < freq m \<and> (\<forall>x\<in>all_masters masters. freq x \<le> freq m)) \<or>
      r = Inl Indeterminate \<and> (\<forall>x\<in>all_masters masters. freq x = 0))"
proof (intro exI [of _ "get_most_influential rt k threads thr freq masters"] conjI allI impI)
  fix host senders
  assume "host < length masters" "mset senders = mset (filter (\<lambda>s. s \<noteq> host) [0..<length masters])"
  then show "get_most_influential_on senders host rt k threads thr freq masters =
      get_most_influential rt k threads thr freq masters" by (rule hosts_agree)
qed (use most_influential_ok [OF assms] in \<open>auto simp: all_masters_def\<close>)

theorem hosts_choose_alike_witness:
  "\<exists>m\<in>{0, 1, 2, 3}. get_most_influential_on [2, 0] 1 backward_rt 0 2 (\<lambda>i. i mod 2) id [[0, 2], [1], [3]] = Inr m \<and>
    get_most_influential_on [0, 1] 2 backward_rt 0 2 (\<lambda>i. i mod 2) id [[0, 2], [1], [3]] = Inr m \<and> 3 \<le> m"
proof -
  have thr: "\<forall>i. i mod 2 < (2::nat)" by simp
  have masters: "all_masters [[0, 2], [1], [3]] = {0, 1, 2, 3}" by (auto simp: all_masters_def)
  obtain r where r: "\<forall>host<3. \<forall>senders. mset senders = mset (filter (\<lambda>s. s \<noteq> host) [0..<3]) \<longrightarrow>
      get_most_influential_on senders host backward_rt 0 2 (\<lambda>i. i mod 2) id [[0, 2], [1], [3]] = r"
    and m: "\<exists>m\<in>{0, 1, 2, 3}. r = Inr m \<and> 0 < id m \<and> (\<forall>x\<in>{0, 1, 2, 3}. id x \<le> id m)"
    using hosts_choose_alike [OF galois_ok_backward thr, of "[[0, 2], [1], [3]]" 0 id] unfolding masters
    by (auto simp: numeral_3_eq_3)
  have "[0..<3] = [0, 1, 2::nat]" by (simp add: upt_rec)
  then have "mset [2, 0::nat] = mset (filter (\<lambda>s. s \<noteq> 1) [0..<3])"
    "mset [0, 1::nat] = mset (filter (\<lambda>s. s \<noteq> 2) [0..<3])" by simp_all
  with r have "get_most_influential_on [2, 0] 1 backward_rt 0 2 (\<lambda>i. i mod 2) id [[0, 2], [1], [3]] = r"
    "get_most_influential_on [0, 1] 2 backward_rt 0 2 (\<lambda>i. i mod 2) id [[0, 2], [1], [3]] = r" by simp_all
  with m show ?thesis by auto
qed

text \<open>
  C8: Removing the sets of a chosen node keeps the books: after the loops of all hosts and
  the exchange of the updates, exactly the sets with the node are empty, nothing is owed, no
  counter has wrapped below zero, and every frequency is again the number of sets with the
  node.
\<close>

theorem removal_keeps_frequencies:
  assumes "galois_ok rt" "inf_ok owner n net" "enum_ok enum"
  shows "\<exists>net'. remove_influenced rt k owner enum n m net = Inr net' \<and> inf_ok owner n net' \<and>
    in_sets net' = map (map (\<lambda>s. if m \<in> s then {} else s)) (in_sets net) \<and>
    (\<forall>x. in_freq net' x = sets_with (in_sets net') x)"
  using remove_influenced_ok [OF assms, of k m] unfolding settled_def without_def [abs_def] by blast

definition sample_inf :: inf_net where
  "sample_inf = \<lparr>in_freq = sets_with sample_sets, in_sets = sample_sets,
     in_remote = [[[], []], [[], []]]\<rparr>"

theorem removal_keeps_frequencies_witness:
  "\<exists>net'. remove_influenced backward_rt 0 (\<lambda>x. x mod 2) sorted_list_of_set 2 1 sample_inf = Inr net' \<and>
    in_sets net' = [[{}, {}], [{}, {3}]] \<and> in_freq net' 3 = 1 \<and> in_freq net' 0 = 0"
proof -
  have "inf_ok (\<lambda>x. x mod 2) 2 sample_inf"
  proof (rule inf_okI)
    fix x
    have "sets_with sample_sets x \<le> u64_max"
      using hits_le_length [of "concat sample_sets" "{x}"] sample_sets_ok(3) by (simp add: sets_with_hits)
    moreover have "(\<Sum>h<2. counted_on sample_inf h x) = sets_with sample_sets x"
      by (simp add: sets_with_rows counted_on_def sample_inf_def sample_sets_def row_owed_def
          numeral_2_eq_2)
    ultimately show "in_freq sample_inf x \<le> u64_max \<and> in_freq sample_inf x = (\<Sum>h<2. counted_on sample_inf h x)"
      by (simp add: sample_inf_def)
  qed (auto simp: sample_inf_def sample_sets_def remote_ok_def less_2_cases_iff)
  from removal_keeps_frequencies [OF galois_ok_backward this enum_ok_sorted, of 0 1] obtain net' where
    run: "remove_influenced backward_rt 0 (\<lambda>x. x mod 2) sorted_list_of_set 2 1 sample_inf = Inr net'"
    and sets: "in_sets net' = map (map (\<lambda>s. if 1 \<in> s then {} else s)) (in_sets sample_inf)"
    and freq: "\<forall>x. in_freq net' x = sets_with (in_sets net') x" by blast
  have left: "in_sets net' = [[{}, {}], [{}, {3}]]"
    unfolding sets by (simp add: sample_inf_def sample_sets_def)
  have "in_freq net' 3 = 1 \<and> in_freq net' 0 = 0"
    using freq unfolding left by (simp add: sets_with_def)
  with run left show ?thesis by blast
qed

section \<open>Cancellation\<close>

text \<open>
  C5: Cancelling nodes does exactly this on the graph of all hosts: every local copy of a
  cancelled node ends with nothing sold, bought or desired, and the master of any other node
  has bought less by the amounts of all sales to it from cancelled nodes, and sold less by
  the amounts of all their purchases from it, wherever those nodes and its mirrors are.
  (Copies show nothing negative before; the reducing synchronisation is Gluon's.)
\<close>

theorem cancellation_effect:
  fixes hosts :: "'d::linordered_field host list"
  assumes rt: "galois_ok rt" and ready: "cancel_ready owner is_local nodes hosts"
    and gb: "gluon_adds owner nn_bought h_bought_bits nn_sold h_sold_bits gluon_bought"
    and gs: "gluon_adds owner nn_sold h_sold_bits nn_bought h_bought_bits gluon_sold"
  shows "\<exists>hs. cancel_nodes rt owner is_local gluon_bought gluon_sold nodes hosts = Inr hs \<and>
    (\<forall>h<length hosts. \<forall>v\<in>set nodes. is_local h v \<longrightarrow> nn_sold (h_node (hs ! h) v) = 0 \<and>
       nn_bought (h_node (hs ! h) v) = 0 \<and> nn_desired (h_node (hs ! h) v) = 0) \<and>
    (\<forall>v. v \<notin> set nodes \<and> owner v < length hosts \<longrightarrow>
       nn_bought (h_node (hs ! owner v) v) =
         nn_bought (h_node (hosts ! owner v) v) - cancelled_total owner hosts nodes SALE v \<and>
       nn_sold (h_node (hs ! owner v) v) =
         nn_sold (h_node (hosts ! owner v) v) - cancelled_total owner hosts nodes PURCHASE v)"
  using cancel_nodes_ok [OF rt ready gb gs] by blast

definition trading_hosts :: "rat host list" where
  "trading_hosts = map (\<lambda>H. H\<lparr>h_node := \<lambda>v. if v = 0 then sample_node 4 9 9 else sample_node 0 6 8\<rparr>)
     sample_hosts"

theorem cancellation_effect_witness:
  "\<exists>hs. cancel_nodes backward_rt id (\<lambda>_ _. True) (gluon_add_bought id) (gluon_add_sold id) [0] trading_hosts =
      Inr hs \<and> nn_bought (h_node (hs ! 1) 1) = 2 \<and> nn_sold (h_node (hs ! 1) 1) = 0 \<and>
    nn_bought (h_node (hs ! 0) 0) = 0"
proof -
  have "cancel_ready id (\<lambda>_ _. True) [0] trading_hosts"
    by (auto simp: cancel_ready_def trading_hosts_def sample_hosts_def positive_host_def positive_def
        sample_edge_def sample_node_def less_Suc_eq)
  from cancellation_effect [OF galois_ok_backward this gluon_adds_witness] obtain hs where
    run: "cancel_nodes backward_rt id (\<lambda>_ _. True) (gluon_add_bought id) (gluon_add_sold id) [0] trading_hosts =
      Inr hs"
    and zero: "\<forall>h<length trading_hosts. \<forall>v\<in>set [0]. True \<longrightarrow> nn_sold (h_node (hs ! h) v) = 0 \<and>
       nn_bought (h_node (hs ! h) v) = 0 \<and> nn_desired (h_node (hs ! h) v) = 0"
    and rest: "\<forall>v. v \<notin> set [0] \<and> id v < length trading_hosts \<longrightarrow>
       nn_bought (h_node (hs ! id v) v) =
         nn_bought (h_node (trading_hosts ! id v) v) - cancelled_total id trading_hosts [0] SALE v \<and>
       nn_sold (h_node (hs ! id v) v) =
         nn_sold (h_node (trading_hosts ! id v) v) - cancelled_total id trading_hosts [0] PURCHASE v"
    by blast
  have two: "length trading_hosts = 2" by (simp add: trading_hosts_def sample_hosts_def)
  have "cancelled_total id trading_hosts [0] SALE 1 = 4" "cancelled_total id trading_hosts [0] PURCHASE 1 = 0"
    by (simp_all add: cancelled_total_def two numeral_2_eq_2 cancelled_edges_def edge_total_def
        trading_hosts_def sample_hosts_def sample_edge_def)
  moreover have "nn_bought (h_node (trading_hosts ! 1) 1) = 6" "nn_sold (h_node (trading_hosts ! 1) 1) = 0"
    by (simp_all add: trading_hosts_def sample_hosts_def sample_node_def)
  ultimately have "nn_bought (h_node (hs ! 1) 1) = 2" "nn_sold (h_node (hs ! 1) 1) = 0"
    using rest [rule_format, of 1] two by simp_all
  moreover have "nn_bought (h_node (hs ! 0) 0) = 0" using zero two by simp
  ultimately show ?thesis using run by blast
qed

section \<open>Quiescence\<close>

text \<open>
  C6: However the accesses of the iterations of TryQuiesceNode interleave, when all
  iterations of a host are done no node on it has sold more than it has bought, unless it
  had already sold that much before; the additions that are taken back again never make a
  seller accept too much.
\<close>

theorem quiescence_never_oversells:
  fixes sh :: "'d::linordered_field shared"
  assumes "(market_step owner host)\<^sup>*\<^sup>* (sh, market_start masters edges) s" "market_done s"
  shows "sh_sold (fst s) v \<le> max (sh_sold sh v) (sh_bought (fst s) v)"
  using assms by (rule market_never_oversells)

text \<open>Two buyers of one seller.\<close>

definition sample_market :: "rat shared" where
  "sample_market = \<lparr>sh_sold = (\<lambda>_. 0), sh_bought = (\<lambda>v. if v = 2 then 5 else 0),
     sh_desired = (\<lambda>v. if v < 2 then 4 else 0), sh_remote = (\<lambda>_. [])\<rparr>"

definition sample_trades :: "nat \<Rightarrow> (nat \<times> rat trade_edge) list" where
  "sample_trades u = (if u < 2 then [sample_edge PURCHASE u 2 1] else [])"

lemma sample_market_finishes:
  "\<exists>s. (market_step (\<lambda>_. 0) 0)\<^sup>*\<^sup>* (sample_market, market_start [0, 1, 2] sample_trades) s \<and> market_done s"
  by (rule market_finishes) (auto simp: market_start_def trader_ok_def)

theorem quiescence_never_oversells_witness:
  "\<exists>s. (market_step (\<lambda>_. 0) 0)\<^sup>*\<^sup>* (sample_market, market_start [0, 1, 2] sample_trades) s \<and>
    market_done s \<and> sh_sold (fst s) 2 \<le> max 0 (sh_bought (fst s) 2)"
proof -
  obtain s where s: "(market_step (\<lambda>_. 0) 0)\<^sup>*\<^sup>* (sample_market, market_start [0, 1, 2] sample_trades) s"
    "market_done s" using sample_market_finishes by blast
  from quiescence_never_oversells [OF this, of 2] s show ?thesis
    by (intro exI [of _ s]) (simp add: sample_market_def)
qed

text \<open>
  However the accesses interleave, at no moment has a node bought more than it desires,
  unless it had already bought that much before.
\<close>

theorem quiescence_never_overbuys:
  fixes sh :: "'d::linordered_field shared"
  assumes "(market_step owner host)\<^sup>*\<^sup>* (sh, market_start masters edges) s" "distinct masters"
  shows "sh_bought (fst s) v \<le> max (sh_bought sh v) (sh_desired sh v)"
  using assms by (rule market_never_overbuys)

theorem quiescence_never_overbuys_witness:
  "\<exists>s. (market_step (\<lambda>_. 0) 0)\<^sup>*\<^sup>* (sample_market, market_start [0, 1, 2] sample_trades) s \<and>
    market_done s \<and> sh_bought (fst s) 0 \<le> 4 \<and> sh_bought (fst s) 2 \<le> 5"
proof -
  obtain s where s: "(market_step (\<lambda>_. 0) 0)\<^sup>*\<^sup>* (sample_market, market_start [0, 1, 2] sample_trades) s"
    "market_done s" using sample_market_finishes by blast
  have "distinct [0, 1, 2::nat]" by simp
  from quiescence_never_overbuys [OF s(1) this, of 0] quiescence_never_overbuys [OF s(1) this, of 2] s
  show ?thesis by (intro exI [of _ s]) (simp add: sample_market_def)
qed

text \<open>
  C25: The check the program has of its own state stays silent: if no node of a host has sold more
  than it bought, and none of its own has bought more than it desires (up to the tolerance of
  the check), then after any interleaving of the iterations of TryQuiesceNode on the host
  \<open>verifyState\<close> prints nothing.
\<close>

theorem quiescence_passes_check:
  fixes H :: "'d::linordered_field host"
  assumes "galois_ok rt" and "distinct (h_masters H)"
    and "(market_step owner host)\<^sup>*\<^sup>* (shared_of H, market_start (h_masters H) (h_edges H)) s" "market_done s"
    and "\<forall>v. nn_sold (h_node H v) \<le> nn_bought (h_node H v) + 1 / 100"
    and "\<forall>v. owner v = host \<longrightarrow> nn_bought (h_node H v) \<le> nn_desired (h_node H v) + 1 / 100"
  shows "verify_state rt owner is_local host n (with_shared (fst s) H) = Inr []"
  using assms by (rule quiesced_host_silent)

text \<open>Two buyers of one seller on one host.\<close>

definition market_host :: "rat host" where
  "market_host = \<lparr>h_node = \<lambda>v. if v = 2 then sample_node 0 5 5 else if v < 2 then sample_node 0 0 4 else sample_node 0 0 0,
     h_masters = [0, 1, 2], h_edges = (\<lambda>u. if u < 2 then [sample_edge PURCHASE u 2 1] else []),
     h_sold_bits = {}, h_bought_bits = {}\<rparr>"

theorem quiescence_passes_check_witness:
  "\<exists>s. (market_step (\<lambda>_. 0) 0)\<^sup>*\<^sup>* (shared_of market_host,
      market_start (h_masters market_host) (h_edges market_host)) s \<and>
    verify_state backward_rt (\<lambda>_. 0) (\<lambda>_ _. True) 0 3 (with_shared (fst s) market_host) = Inr []"
proof -
  obtain s where s: "(market_step (\<lambda>_. 0) 0)\<^sup>*\<^sup>* (shared_of market_host,
      market_start (h_masters market_host) (h_edges market_host)) s" "market_done s"
    using market_finishes [of "(shared_of market_host, market_start (h_masters market_host) (h_edges market_host))"
        "\<lambda>_. 0" 0] by (force simp: market_start_def trader_ok_def)
  have "distinct (h_masters market_host)" by (simp add: market_host_def)
  moreover have "\<forall>v. nn_sold (h_node market_host v) \<le> nn_bought (h_node market_host v) + 1 / 100"
    "\<forall>v. 0 = (0::nat) \<longrightarrow> nn_bought (h_node market_host v) \<le> nn_desired (h_node market_host v) + 1 / 100"
    by (simp_all add: market_host_def sample_node_def)
  ultimately show ?thesis
    using quiescence_passes_check [OF galois_ok_backward _ s, of "\<lambda>_ _. True" 3] s(1) by blast
qed

text \<open>
  C27: The iterations end under every schedule: a run of n accesses has n at most the sum over
  the masters of five times the edges plus one, and a state that is not finished has a next
  access, so no iteration waits for another one.
\<close>

theorem quiescence_ends:
  fixes sh :: "'d::linordered_field shared"
  assumes "(market_step owner host ^^ n) (sh, market_start masters edges) s"
  shows "n \<le> (\<Sum>u\<leftarrow>masters. 5 * length (edges u) + 1) \<and>
    (market_done s \<or> (\<exists>s'. market_step owner host s s'))"
  using market_run_bound [OF assms] step_exists [of "fst s" "snd s" owner host] by auto

theorem quiescence_ends_witness:
  "(market_step (\<lambda>_. 0) 0 ^^ 0) (sample_market, market_start [0, 1, 2] sample_trades)
      (sample_market, market_start [0, 1, 2] sample_trades) \<and>
    (\<exists>s'. market_step (\<lambda>_. 0) 0 (sample_market, market_start [0, 1, 2] sample_trades) s')"
proof -
  have start: "(market_step (\<lambda>_. 0) 0 ^^ 0) (sample_market, market_start [0, 1, 2] sample_trades)
      (sample_market, market_start [0, 1, 2] sample_trades)" by simp
  have "\<not> market_done (sample_market, market_start [0, 1, 2] sample_trades)"
    by (simp add: market_done_def market_start_def)
  with quiescence_ends [OF start] start show ?thesis by blast
qed

text \<open>
  What Gluon documents of the two last synchronisations: a master keeps what it has, and no
  edge is touched.
\<close>

definition broadcasts :: "(nat \<Rightarrow> nat) \<Rightarrow> ('d host list \<Rightarrow> 'd host list) \<Rightarrow> bool" where
  "broadcasts owner sync \<longleftrightarrow> keeps_edges sync \<and>
     (\<forall>hs. \<forall>h<length hs. \<forall>v. owner v = h \<longrightarrow> h_node (sync hs ! h) v = h_node (hs ! h) v)"


definition lone_host :: "rat host" where
  "lone_host = \<lparr>h_node = \<lambda>v. if v = 0 then sample_node 0 1 5 else sample_node 0 9 9, h_masters = [0],
     h_edges = (\<lambda>u. if u = 0 then [sample_edge PURCHASE 0 1 1] else []), h_sold_bits = {}, h_bought_bits = {}\<rparr>"


text \<open>
  C32: A proposal loses its weight when it is sent: the receiver sees the endpoints as they
  were, but as weight the whole part of the amount times the smallest positive double
  2^(-1074), so every amount below 2^52 arrives as less than 2^(-1022) (quiesce.cpp:373
  stores the double as an integer, line 148 reads its bytes as a double).
\<close>

theorem proposals_lose_weight:
  fixes es :: "'d::floor_ceiling proposed_edge list"
  assumes small: "\<forall>e\<in>set es. 0 \<le> pe_weight e \<and> pe_weight e < 2 ^ 52"
  shows "\<exists>received :: 'd proposed_edge list. res_bind (serialize_set_edges es) (\<lambda>ws. incoming_edges (seal_buffer ws)) = Inr received \<and>
    map (\<lambda>e. (pe_src e, pe_dst e)) received = map (\<lambda>e. (pe_src e, pe_dst e)) es \<and>
    map pe_weight received = map (\<lambda>e. of_int \<lfloor>pe_weight e\<rfloor> / 2 ^ 1074) es \<and>
    (\<forall>e\<in>set received. pe_weight e * 2 ^ 1022 < 1)"
proof -
  let ?out = "\<lambda>e. \<lparr>pe_src = pe_src e, pe_dst = pe_dst e, pe_weight = of_int \<lfloor>pe_weight e\<rfloor> / (2 ^ 1074 :: 'd)\<rparr>"
  have "of_int \<lfloor>pe_weight e\<rfloor> / (2 ^ 1074 :: 'd) * 2 ^ 1022 < 1" if "e \<in> set es" for e
  proof -
    have "(of_int \<lfloor>pe_weight e\<rfloor> :: 'd) < 2 ^ 52" using small that by (meson le_less_trans of_int_floor_le)
    then have "of_int \<lfloor>pe_weight e\<rfloor> * 2 ^ 1022 < (2 ^ 52 * 2 ^ 1022 :: 'd)" by simp
    also have "\<dots> = 2 ^ 1074" by (simp only: power_add [symmetric]) simp
    finally show ?thesis by (simp add: divide_less_eq)
  qed
  then show ?thesis
    unfolding proposals_received [OF small] by (intro exI [of _ "map ?out es"]) auto
qed

theorem proposals_lose_weight_witness:
  "\<exists>received :: rat proposed_edge list.
    res_bind (serialize_set_edges [\<lparr>pe_src = 3, pe_dst = 8, pe_weight = 100 :: rat\<rparr>])
      (\<lambda>ws. incoming_edges (seal_buffer ws)) = Inr received \<and>
    map pe_weight received = [100 / 2 ^ 1074]"
proof -
  let ?es = "[\<lparr>pe_src = 3, pe_dst = 8, pe_weight = 100 :: rat\<rparr>]"
  have "\<forall>e\<in>set ?es. 0 \<le> pe_weight e \<and> pe_weight e < 2 ^ 52" by simp
  from proposals_lose_weight [OF this] obtain received :: "rat proposed_edge list" where
    sent: "res_bind (serialize_set_edges ?es) (\<lambda>ws. incoming_edges (seal_buffer ws)) = Inr received"
    and weights: "map pe_weight received = map (\<lambda>e. of_int \<lfloor>pe_weight e\<rfloor> / 2 ^ 1074) ?es" by blast
  have "map (\<lambda>e. of_int \<lfloor>pe_weight e\<rfloor> / 2 ^ 1074) ?es = [100 / 2 ^ 1074 :: rat]"
    by (simp only: list.map proposed_edge.simps floor_numeral of_int_numeral)
  with weights have "map pe_weight received = [100 / 2 ^ 1074]" by (rule trans)
  with sent show ?thesis by (intro exI conjI)
qed

end
