(* ===== verification/Wf4Pipeline.thy ===== *)
theory Wf4Pipeline
  imports Wf4Outcomes
begin

text \<open>
  The whole analysis as wf4/src/main.cpp runs it after the import: edge probabilities, reverse
  reachable sets, influential nodes, their cancellation, and quiescence, on all hosts. Each
  stage is the model of its own theory; here their interfaces meet.
\<close>

section \<open>The program\<close>

text \<open>The graph the traversal sees: on the owner of a node, its edges with their weights.\<close>

definition rrr_graph_of :: "(nat \<Rightarrow> nat) \<Rightarrow> 'd host list \<Rightarrow> 'd rrr_graph" where
  "rrr_graph_of owner hosts = \<lparr>rg_owner = owner,
     rg_out = (\<lambda>u. map (\<lambda>p. (fst p, te_weight (snd p))) (h_edges (hosts ! owner u) u))\<rparr>"

text \<open>What the program calls of Gluon, of the generators and of the hash sets.\<close>

record 'd environment =
  env_owner :: "nat \<Rightarrow> nat"
  env_is_local :: "nat \<Rightarrow> nat \<Rightarrow> bool"
  env_set_sold :: "'d host list \<Rightarrow> 'd host list"
  env_add_bought :: "'d host list \<Rightarrow> 'd host list"
  env_add_sold :: "'d host list \<Rightarrow> 'd host list"
  env_quiesce_sold :: "'d host list \<Rightarrow> 'd host list"
  env_quiesce_bought :: "'d host list \<Rightarrow> 'd host list"
  env_enum :: "nat set \<Rightarrow> nat list"
  env_draw :: "nat \<Rightarrow> nat \<Rightarrow> nat \<Rightarrow> 'd"
  env_uniform :: "nat \<Rightarrow> nat \<Rightarrow> nat \<Rightarrow> nat"
  env_thread :: "nat \<Rightarrow> nat"

definition find_influencers :: "galois_rt \<Rightarrow> 'd::linordered_field environment \<Rightarrow> options \<Rightarrow> 'd host list \<Rightarrow>
    nat list res" where
  "find_influencers rt env opts hosts =
     (let masters = map h_masters hosts in
      res_bind (get_reachable_sets rt (rrr_graph_of (env_owner env) hosts) (env_enum env) (env_draw env)
          (env_uniform env) masters (opt_rrr opts) (opt_seed opts) (opt_epochs opts)) (\<lambda>(freq, sets).
        get_influential_nodes rt (num_threads opts) (env_thread env) (env_owner env) (env_enum env)
          masters freq sets (opt_k opts)))"

definition wf4_main :: "galois_rt \<Rightarrow> 'd::floor_ceiling environment \<Rightarrow> options \<Rightarrow> 'd host list \<Rightarrow>
    (nat list \<times> 'd host list) res" where
  "wf4_main rt env opts hosts =
     res_bind (calculate_edge_probabilities rt (env_set_sold env) hosts) (\<lambda>hosts1.
     res_bind (find_influencers rt env opts hosts1) (\<lambda>influencers.
     res_bind (cancel_nodes rt (env_owner env) (env_is_local env) (env_add_bought env) (env_add_sold env)
         influencers hosts1) (\<lambda>hosts2.
       res_map (Pair influencers)
         (quiesce_graph rt (env_owner env) (env_quiesce_sold env) (env_quiesce_bought env) hosts2))))"

section \<open>Options\<close>

lemma strtoull_bound: "strtoull s \<le> u64_max"
  by (auto simp: strtoull_def stoull_bound split: sum.splits)

lemma parsed_options:
  assumes "parse_options args = Some opts"
  shows "0 < opt_k opts" "opt_k opts \<le> u64_max" "opt_rrr opts \<le> u64_max"
proof -
  have step: "opt_k po' \<le> u64_max \<and> opt_rrr po' \<le> u64_max"
    if "set_option p po = Some po'" "opt_k po \<le> u64_max" "opt_rrr po \<le> u64_max" for p po po'
    using that strtoull_bound by (auto simp: set_option_def split: prod.splits if_splits)
  have loop: "parse_loop ps po = Some po' \<Longrightarrow> opt_k po \<le> u64_max \<Longrightarrow> opt_rrr po \<le> u64_max \<Longrightarrow>
      opt_k po' \<le> u64_max \<and> opt_rrr po' \<le> u64_max" for ps po po'
    by (induction ps arbitrary: po) (auto split: option.splits dest: step)
  have "parse_loop args default_options = Some opts" "verify_options opts"
    using assms by (auto simp: parse_options_def split: option.splits if_splits)
  then show "0 < opt_k opts" "opt_k opts \<le> u64_max" "opt_rrr opts \<le> u64_max"
    using loop [of args default_options opts]
    by (auto simp: verify_options_def default_options_def u64_max_def)
qed

section \<open>What the import leaves, and what the first stage keeps\<close>

definition imported :: "'d::linordered_field environment \<Rightarrow> 'd host list \<Rightarrow> bool" where
  "imported env hs \<longleftrightarrow> hs \<noteq> [] \<and> fresh_hosts (env_owner env) hs \<and>
     (\<forall>h<length hs. positive_host (hs ! h) \<and> (\<forall>v. nn_bought (h_node (hs ! h) v) = 0) \<and>
        h_masters (hs ! h) \<noteq> [] \<and> length (h_masters (hs ! h)) \<le> u64_max \<and>
        (\<forall>u\<in>set (h_masters (hs ! h)). env_is_local env h u))"

text \<open>The documented behaviour of the environment the analysis relies on.\<close>

definition environment_ok :: "'d::linordered_field environment \<Rightarrow> nat \<Rightarrow> bool" where
  "environment_ok env threads \<longleftrightarrow> sync_sold_ok (env_owner env) (env_set_sold env) \<and>
     (\<forall>hs. \<forall>h<length hs. \<forall>v. nn_bought (h_node (env_set_sold env hs ! h) v) = nn_bought (h_node (hs ! h) v)) \<and>
     gluon_adds (env_owner env) nn_bought h_bought_bits nn_sold h_sold_bits (env_add_bought env) \<and>
     gluon_adds (env_owner env) nn_sold h_sold_bits nn_bought h_bought_bits (env_add_sold env) \<and>
     enum_ok (env_enum env) \<and> uniform_ok (env_uniform env) \<and> (\<forall>i. env_thread env i < threads)"

definition amounts_kept :: "'d::linordered_field host \<Rightarrow> 'd host \<Rightarrow> bool" where
  "amounts_kept H H' \<longleftrightarrow> h_masters H' = h_masters H \<and>
     (\<forall>u. map (\<lambda>p. te_amount (snd p)) (h_edges H' u) = map (\<lambda>p. te_amount (snd p)) (h_edges H u))"

definition nothing_negative :: "'d::linordered_field host \<Rightarrow> bool" where
  "nothing_negative H \<longleftrightarrow> (\<forall>v. 0 \<le> nn_bought (h_node H v) \<and> 0 \<le> nn_sold (h_node H v))"

lemma positive_iff_amounts:
  fixes es :: "(nat \<times> 'd::linordered_field trade_edge) list"
  shows "positive es \<longleftrightarrow> (\<forall>a\<in>set (map (\<lambda>p. te_amount (snd p)) es). 0 < a)"
  by (auto simp: positive_def)

lemma positive_host_kept: "positive_host H \<Longrightarrow> amounts_kept H H' \<Longrightarrow> positive_host H'"
  unfolding positive_host_def positive_iff_amounts amounts_kept_def by simp

lemma fill_edges_nonneg:
  assumes "nothing_negative H" "positive es"
  shows "nothing_negative (fold (fill_edge u) es H)"
  using assms
proof (induction es arbitrary: H)
  case (Cons p es)
  then have "nothing_negative (fill_edge u p H)"
    by (cases p) (auto simp: nothing_negative_def fill_edge_def positive_def Let_def upd_node_def
        atomic_add_sold_def atomic_add_bought_def add_nonneg_nonneg less_imp_le)
  then show ?case using Cons by (simp add: positive_def)
qed simp

lemma fill_host_nonneg:
  assumes "fill_host rt H = Inr H'" "nothing_negative H" "positive_host H"
  shows "nothing_negative H' \<and> h_edges H' = h_edges H \<and> h_masters H' = h_masters H"
proof -
  let ?I = "\<lambda>G. nothing_negative G \<and> h_edges G = h_edges H \<and> h_masters G = h_masters H"
  have keep: "?I G'" if I: "?I G" and step: "fill_node_values u G = Inr G'" for u G G'
  proof -
    have "nothing_negative (fold (fill_edge u) (h_edges G u) G)"
      using I assms(3) by (intro fill_edges_nonneg) (auto simp: positive_host_def)
    then show ?thesis
      using I step by (auto simp: fill_node_values_def Let_def fill_edges_facts nothing_negative_def split: if_splits)
  qed
  have "?I (H\<lparr>h_sold_bits := {}\<rparr>)" using assms(2) by (simp add: nothing_negative_def)
  with assms(1) [unfolded fill_host_def] show ?thesis
    by (rule do_all_preserve [where I = ?I]) (rule keep)
qed

lemma weigh_host_kept:
  assumes "weigh_host rt H = Inr r"
  shows "amounts_kept H (fst r) \<and> h_node (fst r) = h_node H"
proof -
  let ?I = "\<lambda>st. amounts_kept H (fst st) \<and> h_node (fst st) = h_node H"
  have same: "te_amount (snd (calc_weight f a p)) = te_amount (snd p)" for f and a :: 'a and p
    by (auto simp: calc_weight_def split: prod.splits)
  show ?thesis
    using assms unfolding weigh_host_def
    by (rule do_all_preserve [where I = ?I])
      (auto simp: amounts_kept_def calculate_edge_probability_def same comp_def Let_def)
qed

lemma weighed_hosts:
  fixes hs :: "'d::linordered_field host list"
  assumes run: "calculate_edge_probabilities rt (env_set_sold env) hs = Inr hs1"
    and env: "environment_ok env threads" and imp: "imported env hs" and h: "h < length hs"
  shows "length hs1 = length hs" "h_masters (hs1 ! h) = h_masters (hs ! h)" "positive_host (hs1 ! h)"
    "nothing_negative (hs1 ! h)"
proof -
  let ?sync = "env_set_sold env"
  obtain filled rs where a: "map_res (fill_host rt) hs = Inr filled"
    and b: "map_res (weigh_host rt) (?sync filled) = Inr rs" and hs1: "hs1 = map fst rs"
    using run by (auto simp: calculate_edge_probabilities_def calculate_with_totals_def res_bind_Inr_iff res_map_Inr_iff)
  note a = map_res_nth [OF a] and b = map_res_nth [OF b]
  have sync: "length (?sync filled) = length filled"
    and edges: "h_edges (?sync filled ! h) = h_edges (filled ! h)" "h_masters (?sync filled ! h) = h_masters (filled ! h)"
    and sold: "\<forall>v. nn_sold (h_node (?sync filled ! h) v) = (if env_owner env v < length filled \<and>
      v \<in> h_sold_bits (filled ! env_owner env v) then nn_sold (h_node (filled ! env_owner env v) v)
      else nn_sold (h_node (filled ! h) v))"
    and bought: "\<forall>v. nn_bought (h_node (?sync filled ! h) v) = nn_bought (h_node (filled ! h) v)"
    using env a h by (simp_all add: environment_ok_def sync_sold_ok_def)
  have fill: "nothing_negative (filled ! i) \<and> h_edges (filled ! i) = h_edges (hs ! i) \<and>
      h_masters (filled ! i) = h_masters (hs ! i)" if "i < length hs" for i
  proof (rule fill_host_nonneg)
    show "fill_host rt (hs ! i) = Inr (filled ! i)" using a that by simp
    show "nothing_negative (hs ! i)" "positive_host (hs ! i)"
      using imp that by (auto simp: imported_def fresh_hosts_def nothing_negative_def)
  qed
  show "length hs1 = length hs" using a b sync hs1 by simp
  have weigh: "amounts_kept (?sync filled ! h) (hs1 ! h) \<and> h_node (hs1 ! h) = h_node (?sync filled ! h)"
    using weigh_host_kept [of rt "?sync filled ! h" "rs ! h"] b sync a h hs1 by simp
  then show "h_masters (hs1 ! h) = h_masters (hs ! h)" using edges fill [OF h] by (simp add: amounts_kept_def)
  have "positive_host (?sync filled ! h)"
    using imp h edges(1) fill [OF h] by (simp add: imported_def positive_host_def)
  with weigh show "positive_host (hs1 ! h)" using positive_host_kept by blast
  have "0 \<le> nn_sold (h_node (filled ! i) v) \<and> 0 \<le> nn_bought (h_node (filled ! i) v)" if "i < length hs" for i v
    using fill [OF that] by (simp add: nothing_negative_def)
  with weigh sold bought a h show "nothing_negative (hs1 ! h)" by (simp add: nothing_negative_def)
qed

section \<open>The stages fit\<close>

lemma weighed_partitioned:
  fixes hs :: "'d::linordered_field host list"
  assumes rt: "galois_ok rt" and run: "calculate_edge_probabilities rt (env_set_sold env) hs = Inr hs1"
    and env: "environment_ok env threads" and imp: "imported env hs"
  shows "partitioned (rrr_graph_of (env_owner env) hs1) (all_masters (map h_masters hs1)) (map h_masters hs1)"
proof -
  let ?own = "env_owner env" and ?U = "all_masters (map h_masters hs1)"
  have fresh: "fresh_hosts ?own hs" using imp by (simp add: imported_def)
  have "hs \<noteq> []" using imp by (simp add: imported_def)
  then have len: "length hs1 = length hs" using weighed_hosts(1) [OF run env imp, of 0] by simp
  have masters: "h_masters (hs1 ! h) = h_masters (hs ! h)" if "h < length hs" for h
    using weighed_hosts(2) [OF run env imp that] .
  have edges: "map fst (h_edges (hs1 ! i) u) = map fst (h_edges (hs ! i) u)"
    if "i < length hs" "u \<in> set (h_masters (hs ! i))" for i u
  proof -
    have "sync_sold_ok ?own (env_set_sold env)" using env by (simp add: environment_ok_def)
    from edge_probabilities_ok [OF rt this fresh] run that show ?thesis by (auto simp: comp_def)
  qed
  have U: "u \<in> ?U \<longleftrightarrow> (\<exists>h<length hs. u \<in> set (h_masters (hs ! h)))" for u
    using masters len by (auto simp: all_masters_def in_set_conv_nth) (metis nth_mem)+
  have own: "?own u = h" if "h < length hs" "u \<in> set (h_masters (hs ! h))" for u h
    using fresh that by (simp add: fresh_hosts_def)
  have targets: "v \<in> ?U" if u: "u \<in> ?U" and e: "(v, w) \<in> set (rg_out (rrr_graph_of ?own hs1) u)" for u v w
  proof -
    obtain h where h: "h < length hs" "u \<in> set (h_masters (hs ! h))" using u U by blast
    have "v \<in> set (map fst (h_edges (hs1 ! h) u))"
      using e own [OF h] by (force simp: rrr_graph_of_def)
    then have "v \<in> fst ` set (h_edges (hs ! h) u)" using edges [OF h] by simp
    then show ?thesis using fresh h U unfolding fresh_hosts_def by fastforce
  qed
  have "finite ?U" by (simp add: all_masters_def)
  then have "graph_within (rrr_graph_of ?own hs1) ?U"
    using targets unfolding graph_within_def by (metis prod.collapse)
  moreover have "hosts_of (rrr_graph_of ?own hs1) ?U (length hs)"
    using U own by (auto simp: hosts_of_def rrr_graph_of_def)
  moreover have "h_masters (hs ! h) \<noteq> [] \<and> length (h_masters (hs ! h)) \<le> u64_max" if "h < length hs" for h
    using imp that by (simp add: imported_def)
  ultimately show ?thesis
    using \<open>hs \<noteq> []\<close> len masters U own by (auto simp: partitioned_def rrr_graph_of_def)
qed

lemma weighed_cancel_ready:
  fixes hs :: "'d::linordered_field host list"
  assumes run: "calculate_edge_probabilities rt (env_set_sold env) hs = Inr hs1"
    and env: "environment_ok env threads" and imp: "imported env hs"
    and nodes: "set nodes \<subseteq> all_masters (map h_masters hs1)"
  shows "cancel_ready (env_owner env) (env_is_local env) nodes hs1"
proof -
  have "hs \<noteq> []" using imp by (simp add: imported_def)
  then have len: "length hs1 = length hs" using weighed_hosts(1) [OF run env imp, of 0] by simp
  have "env_is_local env (env_owner env u) u" if u: "u \<in> set nodes" for u
  proof -
    have "u \<in> all_masters (map h_masters hs1)" using u nodes by blast
    then obtain H where "H \<in> set hs1" "u \<in> set (h_masters H)" by (auto simp: all_masters_def)
    then obtain h where h: "h < length hs" "u \<in> set (h_masters (hs1 ! h))"
      using len by (metis in_set_conv_nth)
    then have "u \<in> set (h_masters (hs ! h))" using weighed_hosts(2) [OF run env imp h(1)] by simp
    then show ?thesis using imp h(1) by (simp add: imported_def fresh_hosts_def)
  qed
  then show ?thesis
    using weighed_hosts [OF run env imp] len by (auto simp: cancel_ready_def nothing_negative_def)
qed

text \<open>The choice on the weighed graph: the nodes are masters, or the run has read past the sets.\<close>

lemma influencers_found:
  fixes hs :: "'d::linordered_field host list"
  assumes rt: "galois_ok rt" and run: "calculate_edge_probabilities rt (env_set_sold env) hs = Inr hs1"
    and env: "environment_ok env (num_threads opts)" and imp: "imported env hs"
    and opts: "0 < opt_k opts" "opt_k opts \<le> u64_max" "opt_rrr opts \<le> u64_max"
  shows "find_influencers rt env opts hs1 = Inl Indeterminate \<or>
    (\<exists>nodes. find_influencers rt env opts hs1 = Inr nodes \<and> length nodes = opt_k opts \<and>
       distinct nodes \<and> set nodes \<subseteq> all_masters (map h_masters hs1))"
proof -
  let ?ms = "map h_masters hs1" and ?g = "rrr_graph_of (env_owner env) hs1"
  have ok: "uniform_ok (env_uniform env)" "enum_ok (env_enum env)" "\<forall>i. env_thread env i < num_threads opts"
    using env by (auto simp: environment_ok_def)
  note part = weighed_partitioned [OF rt run env imp]
  obtain F slots where sets: "get_reachable_sets rt ?g (env_enum env) (env_draw env) (env_uniform env) ?ms
      (opt_rrr opts) (opt_seed opts) (opt_epochs opts) = Inr (F, slots)"
    and greedy: "greedy_result (all_masters ?ms) (concat slots) (opt_k opts) []
      (get_influential_nodes rt (num_threads opts) (env_thread env) (rg_owner ?g) (env_enum env) ?ms F slots (opt_k opts))"
    using influential_choice [OF rt part ok(1,2) opts(3) ok(3) opts(1,2)] by blast
  show ?thesis
    using sets greedy greedy_distinct greedy_within
    by (auto simp: find_influencers_def greedy_result_def rrr_graph_of_def)
qed

section \<open>The property\<close>


definition sample_env :: "rat environment" where
  "sample_env = \<lparr>env_owner = id, env_is_local = (\<lambda>_ _. True), env_set_sold = sync_sold id,
     env_add_bought = gluon_add_bought id, env_add_sold = gluon_add_sold id, env_quiesce_sold = id,
     env_quiesce_bought = id, env_enum = sorted_list_of_set, env_draw = (\<lambda>_ _ k. of_nat k / 4),
     env_uniform = sample_uniform, env_thread = (\<lambda>_. 0)\<rparr>"

definition sample_args :: "(char \<times> string) list" where
  "sample_args = [(CHR ''k'', ''1''), (CHR ''r'', ''3''), (CHR ''d'', ''data'')]"

lemma sample_parsed:
  "parse_options sample_args = Some (default_options\<lparr>opt_k := 1, opt_rrr := 3, input_directory := ''data''\<rparr>)"
proof -
  have "strtoull ''1'' = 1" "strtoull ''3'' = 3" by code_simp+
  then show ?thesis
    by (simp add: sample_args_def parse_options_def set_option_def default_options_def verify_options_def)
qed

lemma sample_env_ok: "environment_ok sample_env (Suc n)"
  using sync_sold_ok_witness [of id] gluon_adds_witness [of id] enum_ok_sorted sample_uniform_ok
  by (simp add: environment_ok_def sample_env_def) (simp add: sync_sold_def)

lemma sample_imported: "imported sample_env sample_hosts"
  by (auto simp: imported_def sample_env_def fresh_hosts_def sample_hosts_def sample_edge_def sample_node_def
      positive_host_def positive_def u64_max_def less_Suc_eq)


end
