(* ===== verification/Wf4Graph.thy ===== *)
theory Wf4Graph
  imports Wf4Pipeline
begin

text \<open>
  The whole of wf4/src/main.cpp: from the arguments to the input files, the parsers of
  wf4/src/import.cpp over them, the statistics of the full graph, its projection to the
  traders, and the analysis. Splitting a line, the parser of commercial files, building a
  distributed graph and projecting one belong to Galois and are fields of \<open>importer\<close>;
  \<open>importer_ok\<close> is what wf4/test\_import.cpp documents of them.
\<close>

section \<open>The parsers of the input files\<close>

text \<open>\<open>FileParser\<close>: a line is given with its length.\<close>

record 'd file_parser =
  fp_files :: "string list"
  fp_parse_line :: "string \<Rightarrow> nat \<Rightarrow> 'd parsed res"
  fp_get_dst_data :: "'d full_edge list \<Rightarrow> 'd full_node list res"

text \<open>\<open>split line length delim fields\<close> is \<open>SplitLine\<close>.\<close>

type_synonym splitter = "string \<Rightarrow> nat \<Rightarrow> char \<Rightarrow> nat \<Rightarrow> string list"

definition cyber_parser :: "splitter \<Rightarrow> string list \<Rightarrow> 'd file_parser" where
  "cyber_parser split files = \<lparr>fp_files = files,
     fp_parse_line = \<lambda>line n. cyber_parse_line (split line n CHR '','' 11),
     fp_get_dst_data = get_dst_data\<rparr>"

definition social_parser :: "splitter \<Rightarrow> string list \<Rightarrow> 'd file_parser" where
  "social_parser split files = \<lparr>fp_files = files,
     fp_parse_line = \<lambda>line n. social_parse_line (split line n CHR '','' 2),
     fp_get_dst_data = get_dst_data\<rparr>"

definition uses_parser :: "splitter \<Rightarrow> string list \<Rightarrow> 'd file_parser" where
  "uses_parser split files = \<lparr>fp_files = files,
     fp_parse_line = \<lambda>line n. uses_parse_line (split line n CHR '','' 2),
     fp_get_dst_data = get_dst_data\<rparr>"

definition node_parser :: "splitter \<Rightarrow> nat \<Rightarrow> (string \<Rightarrow> nat) \<Rightarrow> string list \<Rightarrow> 'd::zero file_parser" where
  "node_parser split f0 encode files = \<lparr>fp_files = files,
     fp_parse_line = \<lambda>line n. node_parse_line f0 encode (split line n CHR '','' 7),
     fp_get_dst_data = get_dst_data\<rparr>"

section \<open>The full graph and its projection\<close>

text \<open>What a host holds of a graph; nodes are named by their global identifiers.\<close>

record 'd full_host =
  fh_node :: "nat \<Rightarrow> 'd full_node"
  fh_masters :: "nat list"
  fh_edges :: "nat \<Rightarrow> (nat \<times> 'd full_edge) list"
  fh_size :: nat

record 'd network_host =
  nh_node :: "nat \<Rightarrow> 'd network_node"
  nh_masters :: "nat list"
  nh_edges :: "nat \<Rightarrow> (nat \<times> 'd network_edge) list"

record 'd projection =
  pj_keep_node :: "'d full_host \<Rightarrow> nat \<Rightarrow> bool res"
  pj_keep_edge_less_masters :: bool
  pj_keep_edge :: "'d full_host \<Rightarrow> 'd full_edge \<Rightarrow> nat \<Rightarrow> nat \<Rightarrow> bool res"
  pj_project_node :: "'d full_host \<Rightarrow> 'd full_node \<Rightarrow> nat \<Rightarrow> 'd network_node"
  pj_project_edge :: "'d full_host \<Rightarrow> 'd full_edge \<Rightarrow> nat \<Rightarrow> nat \<Rightarrow> 'd network_edge"

definition network_projection :: "'d::linordered_field projection" where
  "network_projection = \<lparr>pj_keep_node = \<lambda>graph node. keep_node (fh_node graph node),
     pj_keep_edge_less_masters = False,
     pj_keep_edge = \<lambda>graph edge src dst. keep_edge (fh_node graph dst) edge,
     pj_project_node = \<lambda>graph node gid. project_node node,
     pj_project_edge = \<lambda>graph edge src dst. project_edge edge\<rparr>"

text \<open>
  What the program calls of Galois, of its graphs and of SHAD: \<open>WMDParser\<close>, \<open>SplitLine\<close>,
  \<open>encode\<close>, the default of an atomic counter, the graph's constructor over the parsers,
  \<open>Project\<close>, and whether looking up the destination of an edge throws.
\<close>

record 'd importer =
  im_wmd :: "nat \<Rightarrow> string list \<Rightarrow> 'd file_parser"
  im_split :: splitter
  im_encode :: "string \<Rightarrow> nat"
  im_frequency :: nat
  im_build :: "'d file_parser list \<Rightarrow> 'd full_host list res"
  im_project :: "'d projection \<Rightarrow> 'd full_host list \<Rightarrow> 'd network_host list"
  im_throws :: "'d full_host \<Rightarrow> nat \<Rightarrow> bool"

definition import_parsers :: "'d::zero importer \<Rightarrow> input_files \<Rightarrow> 'd file_parser list" where
  "import_parsers im files =
     [im_wmd im 8 (commercial_files files), cyber_parser (im_split im) (cyber_files files),
      social_parser (im_split im) (social_files files), uses_parser (im_split im) (uses_files files),
      node_parser (im_split im) (im_frequency im) (im_encode im) (nodes_files files)]"

definition import_data :: "'d::zero importer \<Rightarrow> input_files \<Rightarrow> 'd full_host list res" where
  "import_data im files = im_build im (import_parsers im files)"

definition project_graph :: "'d::linordered_field importer \<Rightarrow> 'd full_host list \<Rightarrow> 'd network_host list" where
  "project_graph im full = im_project im network_projection full"

text \<open>
  The analysis reads the amount and the weight of every edge of a master; an edge without them
  is an indeterminate value.
\<close>

definition read_edge :: "nat \<times> 'd network_edge \<Rightarrow> (nat \<times> 'd trade_edge) res" where
  "read_edge p = (case trade_of (snd p) of None \<Rightarrow> Inl Indeterminate | Some t \<Rightarrow> Inr (fst p, t))"

definition trading_host :: "'d network_host \<Rightarrow> 'd host res" where
  "trading_host H = res_map (\<lambda>ess. \<lparr>h_node = nh_node H, h_masters = nh_masters H,
       h_edges = \<lambda>u. (case map_of (zip (nh_masters H) ess) u of Some es \<Rightarrow> es | None \<Rightarrow> []),
       h_sold_bits = {}, h_bought_bits = {}\<rparr>)
     (map_res (\<lambda>u. map_res read_edge (nh_edges H u)) (nh_masters H))"

section \<open>What is printed\<close>

definition print_files :: "input_files \<Rightarrow> string list" where
  "print_files fs =
     map (\<lambda>f. ''Commercial file: '' @ f) (commercial_files fs) @
     map (\<lambda>f. ''Cyber file: '' @ f) (cyber_files fs) @
     map (\<lambda>f. ''Social file: '' @ f) (social_files fs) @
     map (\<lambda>f. ''Uses file: '' @ f) (uses_files fs) @
     map (\<lambda>f. ''Node file: '' @ f) (nodes_files fs)"

definition counted_node :: "('d full_host \<Rightarrow> nat \<Rightarrow> bool) \<Rightarrow> 'd full_host \<Rightarrow> nat \<Rightarrow>
    (types \<times> ('d full_edge \<times> bool) list) res" where
  "counted_node throws g u = (case fn_type (fh_node g u) of None \<Rightarrow> Inl Indeterminate
     | Some ty \<Rightarrow> Inr (ty, map (\<lambda>p. (snd p, throws g (fst p))) (fh_edges g u)))"

definition count_host :: "('d::linordered_field full_host \<Rightarrow> nat \<Rightarrow> bool) \<Rightarrow> 'd full_host \<Rightarrow> counts res" where
  "count_host throws g = res_bind (map_res (counted_node throws g) (fh_masters g)) count_edges"

definition counts_report :: "counts \<Rightarrow> string list" where
  "counts_report c = [''Person nodes: '' @ show_u64 (c_person_nodes c),
     ''Trading edges: '' @ show_u64 (c_trading_edges c),
     ''Trading person edges: '' @ show_u64 (c_trading_person_edges c)]"

text \<open>Every host prints its counts and the two totals, which are reduced over the hosts.\<close>

definition graph_statistics :: "('d::linordered_field full_host \<Rightarrow> nat \<Rightarrow> bool) \<Rightarrow> 'd full_host list \<Rightarrow>
    string list list res" where
  "graph_statistics throws full = res_map (\<lambda>cs.
     let nodes = fold (\<lambda>g n. u64_add n (length (fh_masters g))) full 0;
         edges = fold (\<lambda>c n. u64_add n (c_edges c)) cs 0
     in map2 (\<lambda>g c. counts_report c @
          [''Total Nodes: '' @ show_u64 nodes, ''Total Edges: '' @ show_u64 edges,
           ''Masters in graph: '' @ show_u64 (length (fh_masters g)),
           ''Local nodes in graph: '' @ show_u64 (fh_size g),
           ''Local edges in graph: '' @ show_u64 (c_edges c)]) full cs)
     (map_res (count_host throws) full)"

section \<open>The program\<close>

text \<open>\<open>None\<close>: the usage message is printed and the program exits.\<close>

record 'd program_result =
  pr_files :: "string list"
  pr_statistics :: "string list list"
  pr_influencers :: "nat list"
  pr_hosts :: "'d host list"

definition wf4_program :: "galois_rt \<Rightarrow> 'd::floor_ceiling environment \<Rightarrow> 'd importer \<Rightarrow>
    (char \<times> string) list \<Rightarrow> 'd program_result res option" where
  "wf4_program rt env im args = (case parse_options args of None \<Rightarrow> None
     | Some opts \<Rightarrow> Some (let files = files_of_options opts in
         res_bind (import_data im files) (\<lambda>full.
         res_bind (graph_statistics (im_throws im) full) (\<lambda>stats.
         res_bind (map_res trading_host (project_graph im full)) (\<lambda>hosts.
         res_map (\<lambda>r. \<lparr>pr_files = print_files files, pr_statistics = stats,
             pr_influencers = fst r, pr_hosts = snd r\<rparr>)
           (wf4_main rt env opts hosts))))))"

end
