(* ===== verification/Wf4Load.thy ===== *)
theory Wf4Load
  imports Wf4Graph
begin

text \<open>
  What the import relies on (\<open>importer_ok\<close>, the documented behaviour of the graph library), and
  that what it then hands to the analysis is what the analysis needs: every edge of the
  projected graph is a trade with a positive amount, and its other end is a trader too.
\<close>

section \<open>What the graph library does\<close>

definition stored :: "(string \<Rightarrow> string list) \<Rightarrow> 'd file_parser list \<Rightarrow> 'd parsed res \<Rightarrow> bool" where
  "stored contents ps r \<longleftrightarrow> (\<exists>p\<in>set ps. \<exists>f\<in>set (fp_files p). \<exists>line\<in>set (contents f).
     fp_parse_line p line (length line) = r)"

text \<open>The edge of a purchase that goes with a sale.\<close>

definition inverse_edge :: "'d full_edge \<Rightarrow> 'd full_edge" where
  "inverse_edge e = e\<lparr>fe_type := PURCHASE, fe_src := fe_dst e, fe_dst := fe_src e,
     fe_src_type := fe_dst_type e, fe_dst_type := fe_src_type e\<rparr>"

text \<open>A line of sales gives the sale, as the program's constructor reads it, and its inverse.\<close>

definition wmd_ok :: "(string \<Rightarrow> 'd::zero res) \<Rightarrow> (nat \<Rightarrow> string list \<Rightarrow> 'd file_parser) \<Rightarrow> bool" where
  "wmd_ok stod wmd \<longleftrightarrow> (\<forall>k files line n es.
     fp_parse_line (wmd k files) line n = Inr (ParsedEdges es) \<longrightarrow>
     (\<exists>tokens e. full_edge_commercial stod tokens = Inr e \<and> es = [e, inverse_edge e]))"

text \<open>
  Hosts that hold a graph with the edges \<open>es\<close>: the masters are split among the hosts, a master
  has its edges, both ends of an edge are masters, and a node is the same on all hosts and as
  the constructor made it.
\<close>

definition holds_edges :: "(nat \<Rightarrow> nat) \<Rightarrow> (nat \<Rightarrow> nat) \<Rightarrow> 'd::zero full_edge set \<Rightarrow> 'd full_host list \<Rightarrow> bool" where
  "holds_edges owner gid es fs \<longleftrightarrow> fs \<noteq> [] \<and>
     (\<forall>i<length fs. distinct (fh_masters (fs ! i)) \<and> (\<forall>u\<in>set (fh_masters (fs ! i)). owner u = i \<and>
        (\<forall>p\<in>set (fh_edges (fs ! i) u). \<exists>e\<in>es. \<exists>s d. u = gid (fe_src e) \<and> fst p = gid (fe_dst e) \<and>
           snd p = e\<lparr>fe_src_glbid := s, fe_dst_glbid := d\<rparr>))) \<and>
     (\<forall>e\<in>es. \<forall>u\<in>{gid (fe_src e), gid (fe_dst e)}. owner u < length fs \<and> u \<in> set (fh_masters (fs ! owner u))) \<and>
     (\<forall>e\<in>es. \<exists>s d. (gid (fe_dst e), e\<lparr>fe_src_glbid := s, fe_dst_glbid := d\<rparr>) \<in>
        set (fh_edges (fs ! owner (gid (fe_src e))) (gid (fe_src e)))) \<and>
     (\<exists>node. \<forall>v. (\<exists>f0 n ty. node v = full_node_new f0 n ty) \<and> (\<forall>f\<in>set fs. fh_node f v = node v))"

definition build_ok :: "(nat \<Rightarrow> nat) \<Rightarrow> (nat \<Rightarrow> nat) \<Rightarrow> (string \<Rightarrow> string list) \<Rightarrow>
    ('d::zero file_parser list \<Rightarrow> 'd full_host list res) \<Rightarrow> bool" where
  "build_ok owner gid contents build \<longleftrightarrow> (\<forall>ps. (\<forall>e. \<not> stored contents ps (Inl e)) \<longrightarrow>
     (\<exists>fs. build ps = Inr fs \<and>
        holds_edges owner gid {e. \<exists>es. stored contents ps (Inr (ParsedEdges es)) \<and> e \<in> set es} fs))"

definition keeps_master :: "'d projection \<Rightarrow> 'd full_host \<Rightarrow> nat \<Rightarrow> bool" where
  "keeps_master pj g u \<longleftrightarrow> u \<in> set (fh_masters g) \<and> pj_keep_node pj g u = Inr True \<and>
     (pj_keep_edge_less_masters pj \<or> (\<exists>p\<in>set (fh_edges g u). pj_keep_edge pj g (snd p) u (fst p) = Inr True))"

definition kept_edges :: "'d projection \<Rightarrow> 'd full_host \<Rightarrow> nat \<Rightarrow> (nat \<times> 'd full_edge) list" where
  "kept_edges pj g u = filter (\<lambda>p. pj_keep_edge pj g (snd p) u (fst p) = Inr True) (fh_edges g u)"

definition decided :: "'d projection \<Rightarrow> 'd full_host \<Rightarrow> bool" where
  "decided pj g \<longleftrightarrow> (\<forall>u\<in>set (fh_masters g). (\<exists>b. pj_keep_node pj g u = Inr b) \<and>
     (\<forall>p\<in>set (fh_edges g u). \<exists>b. pj_keep_edge pj g (snd p) u (fst p) = Inr b))"

text \<open>The projection of one host; nodes may get new global identifiers, by \<open>ren\<close>.\<close>

definition projects :: "(nat \<Rightarrow> nat) \<Rightarrow> 'd projection \<Rightarrow> 'd full_host \<Rightarrow> 'd network_host \<Rightarrow> bool" where
  "projects ren pj g h \<longleftrightarrow> distinct (nh_masters h) \<and> set (nh_masters h) = ren ` {u. keeps_master pj g u} \<and>
     (\<forall>u. nh_node h (ren u) = pj_project_node pj g (fh_node g u) u) \<and>
     (\<forall>u. keeps_master pj g u \<longrightarrow> mset (nh_edges h (ren u)) =
        mset (map (\<lambda>p. (ren (fst p), pj_project_edge pj g (snd p) u (fst p))) (kept_edges pj g u)))"

definition project_ok :: "(nat \<Rightarrow> nat) \<Rightarrow> ('d projection \<Rightarrow> 'd full_host list \<Rightarrow> 'd network_host list) \<Rightarrow> bool" where
  "project_ok ren project \<longleftrightarrow> bij ren \<and> (\<forall>pj fs. (\<forall>g\<in>set fs. decided pj g) \<longrightarrow>
     length (project pj fs) = length fs \<and> (\<forall>i<length fs. projects ren pj (fs ! i) (project pj fs ! i)))"

definition importer_ok :: "(nat \<Rightarrow> nat) \<Rightarrow> (string \<Rightarrow> string list) \<Rightarrow> 'd::linordered_field importer \<Rightarrow> bool" where
  "importer_ok owner contents im \<longleftrightarrow> (\<exists>stod full_owner gid ren. wmd_ok stod (im_wmd im) \<and>
     build_ok full_owner gid contents (im_build im) \<and> project_ok ren (im_project im) \<and>
     (\<forall>u. owner (ren u) = full_owner u))"

section \<open>The edges of the parsers\<close>

text \<open>What the projection can rely on of an edge of a parser.\<close>

definition readable :: "'d::zero full_edge \<Rightarrow> bool" where
  "readable e \<longleftrightarrow> fe_topic e = 8486 \<longrightarrow> (\<exists>a. fe_amount e = Some a) \<and> fe_weight e = Some 0"

lemma commercial_edge:
  "full_edge_commercial stod tokens = Inr e \<Longrightarrow> fe_type e = SALE \<and> (\<exists>a. fe_amount e = Some a) \<and> fe_weight e = Some 0"
  unfolding full_edge_commercial_def res_bind_Inr_iff full_edge_init_def by force

lemma typed_edge:
  assumes "full_edge_typed ty tokens = Inr e" "ty \<in> {USES, FRIEND, COMMUNICATION}"
  shows "readable e \<and> fe_type e \<notin> {SALE, PURCHASE}"
  using full_edge_typed_cases(1,3) [OF assms(1)] assms(2) by (auto simp: readable_def)

text \<open>Every edge is readable, and a trade has its inverse.\<close>

lemma stored_edge:
  assumes wmd: "wmd_ok stod (im_wmd im)"
    and st: "stored contents (import_parsers im files) (Inr (ParsedEdges es))" and e: "e \<in> set es"
  shows "readable e \<and> (fe_type e \<in> {SALE, PURCHASE} \<longrightarrow> (\<exists>e'\<in>set es. fe_type e' \<in> {SALE, PURCHASE} \<and>
    fe_src e' = fe_dst e \<and> fe_dst e' = fe_src e \<and> fe_topic e' = fe_topic e \<and> fe_amount e' = fe_amount e))"
proof -
  obtain p line where p: "p \<in> set (import_parsers im files)" "fp_parse_line p line (length line) = Inr (ParsedEdges es)"
    using st by (auto simp: stored_def)
  have "p = im_wmd im 8 (commercial_files files) \<or>
      (\<exists>ty\<in>{USES, FRIEND, COMMUNICATION}. \<exists>tokens. full_edge_typed ty tokens = Inr e)"
    using p e by (auto simp: import_parsers_def cyber_parser_def social_parser_def uses_parser_def node_parser_def
        cyber_parse_line_def social_parse_line_def uses_parse_line_def node_parse_line_def
        res_map_Inr_iff res_bind_Inr_iff split: if_splits) blast
  then consider "p = im_wmd im 8 (commercial_files files)"
    | tokens ty where "ty \<in> {USES, FRIEND, COMMUNICATION}" "full_edge_typed ty tokens = Inr e" by blast
  then show ?thesis
  proof cases
    case 1
    then obtain tokens s where s: "full_edge_commercial stod tokens = Inr s" "es = [s, inverse_edge s]"
      using p(2) wmd unfolding wmd_ok_def by blast
    then show ?thesis using commercial_edge [OF s(1)] e by (auto simp: readable_def inverse_edge_def)
  next
    case 2
    then show ?thesis using typed_edge by blast
  qed
qed

section \<open>The projected graph\<close>

text \<open>A full graph over the edges \<open>es\<close>, in which every trade has its inverse.\<close>

definition mirrored :: "'d::zero full_edge set \<Rightarrow> bool" where
  "mirrored es \<longleftrightarrow> (\<forall>e\<in>es. readable e \<and> (fe_type e \<in> {SALE, PURCHASE} \<longrightarrow> (\<exists>e'\<in>es. fe_type e' \<in> {SALE, PURCHASE} \<and>
     fe_src e' = fe_dst e \<and> fe_dst e' = fe_src e \<and> fe_topic e' = fe_topic e \<and> fe_amount e' = fe_amount e)))"

lemma stored_mirrored:
  assumes "wmd_ok stod (im_wmd im)"
  shows "mirrored {e. \<exists>es. stored contents (import_parsers im files) (Inr (ParsedEdges es)) \<and> e \<in> set es}"
  unfolding mirrored_def
proof (intro ballI)
  fix e
  assume "e \<in> {e. \<exists>es. stored contents (import_parsers im files) (Inr (ParsedEdges es)) \<and> e \<in> set es}"
  then obtain es where st: "stored contents (import_parsers im files) (Inr (ParsedEdges es))" and e: "e \<in> set es" by blast
  from stored_edge [OF assms st e] st
  show "readable e \<and> (fe_type e \<in> {SALE, PURCHASE} \<longrightarrow> (\<exists>e'\<in>{e. \<exists>es. stored contents (import_parsers im files)
      (Inr (ParsedEdges es)) \<and> e \<in> set es}. fe_type e' \<in> {SALE, PURCHASE} \<and>
     fe_src e' = fe_dst e \<and> fe_dst e' = fe_src e \<and> fe_topic e' = fe_topic e \<and> fe_amount e' = fe_amount e))"
    by fast
qed

text \<open>An edge that is kept, in terms of the edge and the types of its ends.\<close>

definition trade_edge_ok :: "'d::linordered_field full_edge \<Rightarrow> bool" where
  "trade_edge_ok e \<longleftrightarrow> fe_type e \<in> {SALE, PURCHASE} \<and> fe_topic e = 8486 \<and> (\<exists>a>0. fe_amount e = Some a)"

lemma keep_edge_readable:
  assumes "readable e" "fn_type dst = Some ty"
  shows "keep_edge dst e = Inr (trade_edge_ok e \<and> ty = PERSON)"
  using assms by (auto simp: keep_edge_def keep_node_def readable_def trade_edge_ok_def split: option.splits)

lemma glbid_simps [simp]:
  "trade_edge_ok (e\<lparr>fe_src_glbid := s, fe_dst_glbid := d\<rparr>) = trade_edge_ok e"
  "readable (e\<lparr>fe_src_glbid := s, fe_dst_glbid := d\<rparr>) = readable e"
  by (simp_all add: trade_edge_ok_def readable_def)

lemma held_node:
  assumes "holds_edges owner gid es fs"
  obtains node where "\<And>g v. g \<in> set fs \<Longrightarrow> fh_node g v = node v" "\<And>v. \<exists>f0 n ty. node v = full_node_new f0 n ty"
  using assms unfolding holds_edges_def by blast

lemma held_decided:
  assumes holds: "holds_edges owner gid es fs" and mir: "mirrored es" and g: "g \<in> set fs"
  shows "decided network_projection g"
proof -
  obtain node where node: "\<And>v. fh_node g v = node v" "\<And>v. \<exists>f0 n ty. node v = full_node_new f0 n ty"
    using held_node [OF holds] g by metis
  have type: "\<exists>ty. fn_type (fh_node g v) = Some ty" for v
    using node(2) [of v] by (auto simp: node(1) full_node_new_def)
  have "readable (snd p)" if u: "u \<in> set (fh_masters g)" and p: "p \<in> set (fh_edges g u)" for u p
  proof -
    obtain i where i: "i < length fs" "fs ! i = g" using g by (auto simp: in_set_conv_nth)
    then obtain e s d where "e \<in> es" "snd p = e\<lparr>fe_src_glbid := s, fe_dst_glbid := d\<rparr>"
      using holds u p unfolding holds_edges_def by blast
    then show ?thesis using mir by (simp add: mirrored_def)
  qed
  then have "\<exists>b. keep_edge (fh_node g (fst p)) (snd p) = Inr b"
    if "u \<in> set (fh_masters g)" "p \<in> set (fh_edges g u)" for u p
    using that keep_edge_readable type by metis
  moreover have "\<exists>b. keep_node (fh_node g u) = Inr b" for u using type [of u] by (auto simp: keep_node_def)
  ultimately show ?thesis by (simp add: decided_def network_projection_def)
qed

lemma kept_edge_iff:
  assumes holds: "holds_edges owner gid es fs" and mir: "mirrored es" and g: "g \<in> set fs"
    and u: "u \<in> set (fh_masters g)" and p: "p \<in> set (fh_edges g u)"
  shows "pj_keep_edge network_projection g (snd p) u (fst p) = Inr True \<longleftrightarrow>
    trade_edge_ok (snd p) \<and> fn_type (fh_node g (fst p)) = Some PERSON"
proof -
  obtain i where i: "i < length fs" "fs ! i = g" using g by (auto simp: in_set_conv_nth)
  then obtain e s d where "e \<in> es" "snd p = e\<lparr>fe_src_glbid := s, fe_dst_glbid := d\<rparr>"
    using holds u p unfolding holds_edges_def by blast
  then have "readable (snd p)" using mir by (simp add: mirrored_def)
  moreover obtain ty where "fn_type (fh_node g (fst p)) = Some ty"
    using held_node [OF holds] g full_node_new_def by (metis full_node.select_convs(7))
  ultimately show ?thesis
    using keep_edge_readable [of "snd p" "fh_node g (fst p)" ty] by (simp add: network_projection_def)
qed

text \<open>The other end of a kept edge is kept too, on its own host.\<close>

lemma kept_edge_target:
  assumes holds: "holds_edges owner gid es fs" and mir: "mirrored es" and i: "i < length fs"
    and u: "keeps_master network_projection (fs ! i) u" and p: "p \<in> set (kept_edges network_projection (fs ! i) u)"
  shows "owner (fst p) < length fs \<and> keeps_master network_projection (fs ! owner (fst p)) (fst p)"
proof -
  let ?g = "fs ! i" and ?v = "fst p"
  obtain node where node: "\<And>g v. g \<in> set fs \<Longrightarrow> fh_node g v = node v" using held_node [OF holds] by metis
  have pe: "p \<in> set (fh_edges ?g u)" and um: "u \<in> set (fh_masters ?g)"
    and ok: "trade_edge_ok (snd p)" "fn_type (node ?v) = Some PERSON" and up: "fn_type (node u) = Some PERSON"
    using u p i kept_edge_iff [OF holds mir _ _, of ?g u p] node [of ?g]
    by (auto simp: keeps_master_def kept_edges_def network_projection_def keep_node_def split: option.splits)
  obtain e s d where e: "e \<in> es" "u = gid (fe_src e)" "?v = gid (fe_dst e)"
      "snd p = e\<lparr>fe_src_glbid := s, fe_dst_glbid := d\<rparr>"
    using holds i um pe unfolding holds_edges_def by blast
  have "fe_type e \<in> {SALE, PURCHASE}" using ok(1) e(4) by (simp add: trade_edge_ok_def)
  then obtain e' where e': "e' \<in> es" "fe_type e' \<in> {SALE, PURCHASE}" "fe_src e' = fe_dst e" "fe_dst e' = fe_src e"
      "fe_topic e' = fe_topic e" "fe_amount e' = fe_amount e"
    using mir e(1) unfolding mirrored_def by blast
  have ok': "trade_edge_ok e'" using ok(1) e(4) e' by (simp add: trade_edge_ok_def)
  have v: "owner ?v < length fs" "?v \<in> set (fh_masters (fs ! owner ?v))"
    using holds e(1,3) unfolding holds_edges_def by blast+
  obtain s' d' where q: "(u, e'\<lparr>fe_src_glbid := s', fe_dst_glbid := d'\<rparr>) \<in> set (fh_edges (fs ! owner ?v) ?v)"
    using holds e'(1,3,4) e(2,3) unfolding holds_edges_def by metis
  have "pj_keep_edge network_projection (fs ! owner ?v) (e'\<lparr>fe_src_glbid := s', fe_dst_glbid := d'\<rparr>) ?v u = Inr True"
    using kept_edge_iff [OF holds mir _ v(2) q] v(1) ok' up node [of "fs ! owner ?v"] by simp
  moreover have "pj_keep_node network_projection (fs ! owner ?v) ?v = Inr True"
    using v(1) ok(2) node [of "fs ! owner ?v"] by (simp add: network_projection_def keep_node_def)
  ultimately show ?thesis using v q unfolding keeps_master_def by force
qed

section \<open>The graph that is analysed\<close>

definition trade_at :: "nat \<times> 'd network_edge \<Rightarrow> nat \<times> 'd trade_edge" where
  "trade_at p = (fst p, the (trade_of (snd p)))"

lemma map_res_total: "(\<And>x. x \<in> set xs \<Longrightarrow> f x = Inr (g x)) \<Longrightarrow> map_res f xs = Inr (map g xs)"
  by (induction xs) simp_all

lemma trading_host_reads:
  assumes "\<And>u p. u \<in> set (nh_masters H) \<Longrightarrow> p \<in> set (nh_edges H u) \<Longrightarrow> trade_of (snd p) \<noteq> None"
  shows "trading_host H = Inr \<lparr>h_node = nh_node H, h_masters = nh_masters H,
    h_edges = \<lambda>u. if u \<in> set (nh_masters H) then map trade_at (nh_edges H u) else [],
    h_sold_bits = {}, h_bought_bits = {}\<rparr>"
proof -
  have "map_res read_edge (nh_edges H u) = Inr (map trade_at (nh_edges H u))" if "u \<in> set (nh_masters H)" for u
    using assms [OF that] by (intro map_res_total) (fastforce simp: read_edge_def trade_at_def)
  then have "map_res (\<lambda>u. map_res read_edge (nh_edges H u)) (nh_masters H) =
      Inr (map (\<lambda>u. map trade_at (nh_edges H u)) (nh_masters H))"
    by (rule map_res_total)
  then show ?thesis by (simp add: trading_host_def map_of_zip_map fun_eq_iff)
qed

text \<open>The edges of a trader, before any analysis.\<close>

definition trades_with :: "(nat \<Rightarrow> bool) \<Rightarrow> (nat \<times> 'd::linordered_field trade_edge) list \<Rightarrow> bool" where
  "trades_with P es \<longleftrightarrow> es \<noteq> [] \<and> (\<forall>p\<in>set es. te_type (snd p) \<in> {SALE, PURCHASE} \<and> te_amount (snd p) > 0 \<and>
     te_weight (snd p) = 0 \<and> P (fst p))"

lemma trades_with_mono: "trades_with P es \<Longrightarrow> (\<And>v. P v \<Longrightarrow> Q v) \<Longrightarrow> trades_with Q es"
  by (simp add: trades_with_def)

definition trading_host_ok :: "nat \<Rightarrow> (nat \<Rightarrow> nat) \<Rightarrow> (nat \<Rightarrow> bool) \<Rightarrow> 'd::linordered_field host \<Rightarrow> bool" where
  "trading_host_ok i owner P H \<longleftrightarrow> distinct (h_masters H) \<and>
     (\<forall>v. nn_sold (h_node H v) = 0 \<and> nn_bought (h_node H v) = 0) \<and>
     (\<forall>u. u \<notin> set (h_masters H) \<longrightarrow> h_edges H u = []) \<and>
     (\<forall>u\<in>set (h_masters H). owner u = i \<and> trades_with P (h_edges H u))"

text \<open>A graph of trades, spread over hosts: the other end of a trade is a trader.\<close>

definition is_master :: "(nat \<Rightarrow> nat) \<Rightarrow> 'd host list \<Rightarrow> nat \<Rightarrow> bool" where
  "is_master owner hs v \<longleftrightarrow> owner v < length hs \<and> v \<in> set (h_masters (hs ! owner v))"

definition trading_graph :: "(nat \<Rightarrow> nat) \<Rightarrow> 'd::linordered_field host list \<Rightarrow> bool" where
  "trading_graph owner hs \<longleftrightarrow> (\<forall>i<length hs. trading_host_ok i owner (is_master owner hs) (hs ! i))"

lemma trading_graph_imported:
  assumes "trading_graph (env_owner env) hs" and "hs \<noteq> []"
    and "\<forall>h<length hs. h_masters (hs ! h) \<noteq> [] \<and> length (h_masters (hs ! h)) \<le> u64_max \<and>
      (\<forall>u\<in>set (h_masters (hs ! h)). env_is_local env h u)"
  shows "imported env hs"
proof -
  have ok: "trading_host_ok h (env_owner env) (is_master (env_owner env) hs) (hs ! h)" if "h < length hs" for h
    using assms(1) that by (simp add: trading_graph_def)
  have "positive_host (hs ! h)" if h: "h < length hs" for h
    unfolding positive_host_def positive_def
  proof (intro allI)
    fix u
    show "\<forall>p\<in>set (h_edges (hs ! h) u). 0 < te_amount (snd p)"
      using ok [OF h] by (cases "u \<in> set (h_masters (hs ! h))") (auto simp: trading_host_ok_def trades_with_def)
  qed
  moreover have "fresh_hosts (env_owner env) hs"
    using ok by (simp add: fresh_hosts_def trading_host_ok_def trades_with_def is_master_def)
  ultimately show ?thesis using assms(2,3) ok by (simp add: imported_def trading_host_ok_def)
qed

lemma projected_edges:
  assumes "projects ren network_projection g h" and "keeps_master network_projection g u"
  shows "set (nh_edges h (ren u)) =
    (\<lambda>p. (ren (fst p), project_edge (snd p))) ` set (kept_edges network_projection g u)"
proof -
  have "mset (nh_edges h (ren u)) =
      mset (map (\<lambda>p. (ren (fst p), project_edge (snd p))) (kept_edges network_projection g u))"
    using assms by (simp add: projects_def network_projection_def)
  from mset_eq_setD [OF this] show ?thesis by simp
qed

lemma projected_trade:
  assumes "readable e" "trade_edge_ok e"
  shows "\<exists>t. trade_of (project_edge e) = Some t \<and> te_type t \<in> {SALE, PURCHASE} \<and> te_amount t > 0 \<and> te_weight t = 0"
  using assms by (auto simp: readable_def trade_edge_ok_def trade_of_def project_edge_def)

lemma kept_edge_facts:
  assumes holds: "holds_edges owner gid es fs" and mir: "mirrored es" and i: "i < length fs"
    and u: "u \<in> set (fh_masters (fs ! i))" and p: "p \<in> set (kept_edges network_projection (fs ! i) u)"
  shows "readable (snd p)" "trade_edge_ok (snd p)"
proof -
  have pe: "p \<in> set (fh_edges (fs ! i) u)" "pj_keep_edge network_projection (fs ! i) (snd p) u (fst p) = Inr True"
    using p by (auto simp: kept_edges_def)
  then obtain e s d where "e \<in> es" "snd p = e\<lparr>fe_src_glbid := s, fe_dst_glbid := d\<rparr>"
    using holds i u unfolding holds_edges_def by blast
  then show "readable (snd p)" using mir by (simp add: mirrored_def)
  show "trade_edge_ok (snd p)" using kept_edge_iff [OF holds mir _ u pe(1)] pe(2) i by simp
qed

text \<open>The host of the analysis that a projected host becomes.\<close>

definition kept_master :: "(nat \<Rightarrow> nat) \<Rightarrow> (nat \<Rightarrow> nat) \<Rightarrow> 'd::linordered_field full_host list \<Rightarrow> nat \<Rightarrow> bool" where
  "kept_master owner ren fs w \<longleftrightarrow>
     (\<exists>v. w = ren v \<and> owner v < length fs \<and> keeps_master network_projection (fs ! owner v) v)"

lemma projected_edge:
  assumes holds: "holds_edges owner gid es fs" and mir: "mirrored es" and i: "i < length fs"
    and pr: "projects ren network_projection (fs ! i) h"
    and u: "keeps_master network_projection (fs ! i) u" and p: "p \<in> set (nh_edges h (ren u))"
  shows "\<exists>t. trade_of (snd p) = Some t \<and> te_type t \<in> {SALE, PURCHASE} \<and> te_amount t > 0 \<and> te_weight t = 0 \<and>
    kept_master owner ren fs (fst p)"
proof -
  obtain q where q: "q \<in> set (kept_edges network_projection (fs ! i) u)" "p = (ren (fst q), project_edge (snd q))"
    using p projected_edges [OF pr u] by auto
  have "u \<in> set (fh_masters (fs ! i))" using u by (simp add: keeps_master_def)
  note facts = kept_edge_facts [OF holds mir i this q(1)]
  have "kept_master owner ren fs (fst p)"
    using kept_edge_target [OF holds mir i u q(1)] q(2) by (auto simp: kept_master_def)
  then show ?thesis using projected_trade [OF facts] q(2) by simp
qed

lemma projected_host:
  assumes holds: "holds_edges owner gid es fs" and mir: "mirrored es" and i: "i < length fs"
    and pr: "projects ren network_projection (fs ! i) h" and bij: "bij ren" and own: "\<forall>u. owner' (ren u) = owner u"
  shows "\<exists>H. trading_host h = Inr H \<and> h_masters H = nh_masters h \<and>
    trading_host_ok i owner' (kept_master owner ren fs) H"
proof -
  have masters: "set (nh_masters h) = ren ` {u. keeps_master network_projection (fs ! i) u}"
    using pr by (simp add: projects_def)
  note edge = projected_edge [OF holds mir i pr]
  have "trade_of (snd p) \<noteq> None" if u': "u' \<in> set (nh_masters h)" and p: "p \<in> set (nh_edges h u')" for u' p
  proof -
    obtain u where "keeps_master network_projection (fs ! i) u" "u' = ren u" using u' masters by blast
    then show ?thesis using edge p by fastforce
  qed
  note host = trading_host_reads [of h, OF this]
  obtain node where node: "\<And>g v. g \<in> set fs \<Longrightarrow> fh_node g v = node v" "\<And>v. \<exists>f0 n ty. node v = full_node_new f0 n ty"
    using held_node [OF holds] by metis
  have nodes: "nh_node h (ren v) = project_node (node v)" for v
    using pr node(1) [of "fs ! i"] i by (simp add: projects_def network_projection_def)
  have zero: "nn_sold (nh_node h u) = 0 \<and> nn_bought (nh_node h u) = 0" for u
    using nodes [of "inv ren u"] node(2) [of "inv ren u"] bij
    by (auto simp: bij_is_surj surj_f_inv_f project_node_def full_node_new_def)
  have trades: "owner' u' = i \<and> trades_with (kept_master owner ren fs) (map trade_at (nh_edges h u'))"
    if "u' \<in> set (nh_masters h)" for u'
  proof -
    have "u' \<in> ren ` {u. keeps_master network_projection (fs ! i) u}" using that unfolding masters .
    then obtain u where u: "keeps_master network_projection (fs ! i) u" "u' = ren u" by blast
    have "owner u = i" using u(1) holds i by (simp add: keeps_master_def holds_edges_def)
    moreover have "nh_edges h (ren u) \<noteq> []"
      using u(1) projected_edges [OF pr u(1)] by (auto simp: keeps_master_def kept_edges_def network_projection_def)
    ultimately show ?thesis using u(2) own edge [OF u(1)] by (fastforce simp: trades_with_def trade_at_def)
  qed
  have "distinct (nh_masters h)" using pr by (simp add: projects_def)
  then show ?thesis using host zero trades by (simp add: trading_host_ok_def)
qed

lemma projected_graph:
  assumes holds: "holds_edges owner gid es fs" and mir: "mirrored es"
    and pr: "project_ok ren project" and own: "\<forall>u. owner' (ren u) = owner u"
  shows "\<exists>hs. map_res trading_host (project network_projection fs) = Inr hs \<and> hs \<noteq> [] \<and> trading_graph owner' hs"
proof -
  let ?hs = "project network_projection fs"
  have "\<forall>g\<in>set fs. decided network_projection g" using held_decided [OF holds mir] by blast
  then have len: "length ?hs = length fs"
    and proj: "\<And>i. i < length fs \<Longrightarrow> projects ren network_projection (fs ! i) (?hs ! i)" and bij: "bij ren"
    using pr by (simp_all add: project_ok_def)
  note host = projected_host [OF holds mir _ proj bij own]
  have "\<exists>H. trading_host h = Inr H \<and> h_masters H = nh_masters h" if "h \<in> set ?hs" for h
    using that host len by (metis in_set_conv_nth)
  from map_res_ok [of ?hs trading_host, OF this] obtain hs where
    hs: "map_res trading_host ?hs = Inr hs" "length hs = length fs" "\<forall>i<length fs. h_masters (hs ! i) = nh_masters (?hs ! i)"
    using len by auto
  have master: "is_master owner' hs w" if w: "kept_master owner ren fs w" for w
  proof -
    obtain v where "w = ren v" "owner v < length fs" "keeps_master network_projection (fs ! owner v) v"
      using w by (auto simp: kept_master_def)
    moreover from this have "set (nh_masters (?hs ! owner v)) = ren ` {u. keeps_master network_projection (fs ! owner v) u}"
      using proj [of "owner v"] by (simp add: projects_def)
    ultimately show ?thesis using hs(2,3) own by (simp add: is_master_def)
  qed
  have "trading_host_ok i owner' (is_master owner' hs) (hs ! i)" if i: "i < length fs" for i
  proof -
    have "trading_host (?hs ! i) = Inr (hs ! i)" using map_res_nth [OF hs(1)] i len by simp
    then have "trading_host_ok i owner' (kept_master owner ren fs) (hs ! i)" using host [OF i i] by simp
    then show ?thesis using master trades_with_mono unfolding trading_host_ok_def by blast
  qed
  moreover have "hs \<noteq> []" using hs(2) holds by (auto simp: holds_edges_def)
  ultimately show ?thesis using hs by (auto simp: trading_graph_def)
qed

section \<open>The statistics\<close>

lemma host_counted:
  assumes holds: "holds_edges owner gid es fs" and mir: "mirrored es" and g: "g \<in> set fs"
  shows "\<exists>c. count_host throws g = Inr c"
proof -
  obtain node where node: "\<And>v. fh_node g v = node v" "\<And>v. \<exists>f0 n ty. node v = full_node_new f0 n ty"
    using held_node [OF holds] g by metis
  have "\<exists>n. counted_node throws g u = Inr n \<and> edges_readable (snd n)" if u: "u \<in> set (fh_masters g)" for u
  proof -
    obtain ty where ty: "fn_type (fh_node g u) = Some ty" using node(2) [of u] by (auto simp: node(1) full_node_new_def)
    have "is_trade (snd p) \<in> range Inr" if p: "p \<in> set (fh_edges g u)" for p
    proof -
      obtain i where i: "i < length fs" "fs ! i = g" using g by (auto simp: in_set_conv_nth)
      then obtain e s d where e: "e \<in> es" "snd p = e\<lparr>fe_src_glbid := s, fe_dst_glbid := d\<rparr>"
        using holds u p unfolding holds_edges_def by blast
      then have "readable (snd p)" using mir by (simp add: mirrored_def)
      then show ?thesis by (auto simp: readable_def is_trade_def)
    qed
    then show ?thesis by (auto simp: counted_node_def ty edges_readable_def)
  qed
  from map_res_ok [of "fh_masters g" "counted_node throws g" "\<lambda>_ n. edges_readable (snd n)", OF this]
  obtain ns where "map_res (counted_node throws g) (fh_masters g) = Inr ns" "\<forall>n\<in>set ns. edges_readable (snd n)"
    by (metis in_set_conv_nth)
  then show ?thesis using count_node_loop [of ns] by (simp add: count_host_def count_edges_def)
qed

lemma statistics_printed:
  assumes "holds_edges owner gid es fs" "mirrored es"
  shows "\<exists>stats. graph_statistics throws fs = Inr stats \<and> length stats = length fs"
proof -
  obtain cs where "map_res (count_host throws) fs = Inr cs" "length cs = length fs"
    using map_res_ok [of fs "count_host throws" "\<lambda>_ _. True"] host_counted [OF assms] by auto
  then show ?thesis by (simp add: graph_statistics_def Let_def)
qed

section \<open>The property\<close>


section \<open>A run over one file\<close>

text \<open>One host, a graph library that does what is asked of it, and a file with one sale.\<close>

fun split_commas :: "string \<Rightarrow> string list" where
  "split_commas [] = [[]]"
| "split_commas (c # cs) = (if c = CHR '','' then [] # split_commas cs
     else case split_commas cs of t # ts \<Rightarrow> (c # t) # ts | [] \<Rightarrow> [[c]])"

definition sample_stod :: "string \<Rightarrow> rat res" where
  "sample_stod s = Inr (of_nat (read_digits s))"

definition sample_wmd :: "nat \<Rightarrow> string list \<Rightarrow> rat file_parser" where
  "sample_wmd k files = \<lparr>fp_files = files, fp_parse_line = \<lambda>line n.
     res_map (\<lambda>e. ParsedEdges [e, inverse_edge e]) (full_edge_commercial sample_stod (split_commas line)),
     fp_get_dst_data = get_dst_data\<rparr>"

definition parsed_lines :: "(string \<Rightarrow> string list) \<Rightarrow> 'd file_parser list \<Rightarrow> 'd parsed res list" where
  "parsed_lines contents ps = concat (map (\<lambda>p. concat (map (\<lambda>f.
     map (\<lambda>line. fp_parse_line p line (length line)) (contents f)) (fp_files p))) ps)"

fun edges_of_line :: "'d parsed res \<Rightarrow> 'd full_edge list" where
  "edges_of_line (Inr (ParsedEdges es)) = es"
| "edges_of_line _ = []"

definition sample_build :: "(string \<Rightarrow> string list) \<Rightarrow> 'd::zero file_parser list \<Rightarrow> 'd full_host list res" where
  "sample_build contents ps = (let rs = parsed_lines contents ps; es = concat (map edges_of_line rs);
       ms = remdups (map fe_src es @ map fe_dst es) in
     if \<exists>r\<in>set rs. isl r then Inl InvalidArgument
     else Inr [\<lparr>fh_node = (\<lambda>v. full_node_new 0 v PERSON), fh_masters = ms,
       fh_edges = (\<lambda>u. map (\<lambda>e. (fe_dst e, e)) (filter (\<lambda>e. fe_src e = u) es)), fh_size = length ms\<rparr>])"

definition sample_project :: "'d projection \<Rightarrow> 'd full_host list \<Rightarrow> 'd network_host list" where
  "sample_project pj fs = map (\<lambda>g. \<lparr>nh_node = (\<lambda>u. pj_project_node pj g (fh_node g u) u),
     nh_masters = remdups (filter (keeps_master pj g) (fh_masters g)),
     nh_edges = (\<lambda>u. map (\<lambda>p. (fst p, pj_project_edge pj g (snd p) u (fst p))) (kept_edges pj g u))\<rparr>) fs"

definition sample_contents :: "string \<Rightarrow> string list" where
  "sample_contents f = (if f = ''data/commercial.csv'' then [''Sale,1,2,8486,,,,5''] else [])"

definition sample_importer :: "(string \<Rightarrow> string list) \<Rightarrow> rat importer" where
  "sample_importer contents = \<lparr>im_wmd = sample_wmd, im_split = (\<lambda>line n c k. split_commas line), im_encode = read_digits,
     im_frequency = 0, im_build = sample_build contents, im_project = sample_project,
     im_throws = (\<lambda>_ _. False)\<rparr>"

lemma stored_parsed: "stored contents ps r \<longleftrightarrow> r \<in> set (parsed_lines contents ps)"
  by (auto simp: stored_def parsed_lines_def)

lemma edge_of_line: "e \<in> set (edges_of_line r) \<longleftrightarrow> (\<exists>es. r = Inr (ParsedEdges es) \<and> e \<in> set es)"
  by (cases r rule: edges_of_line.cases) auto

lemma sample_build_ok: "build_ok (\<lambda>_. 0) id contents (sample_build contents)"
  unfolding build_ok_def
proof (intro allI impI)
  fix ps :: "'d::zero file_parser list"
  assume "\<forall>e. \<not> stored contents ps (Inl e)"
  then have ok: "\<not> (\<exists>r\<in>set (parsed_lines contents ps). isl r)" by (auto simp: stored_parsed isl_def)
  have es: "{e. \<exists>es. stored contents ps (Inr (ParsedEdges es)) \<and> e \<in> set es} =
      set (concat (map edges_of_line (parsed_lines contents ps)))" (is "?A = set ?es")
    by (auto simp: stored_parsed edge_of_line)
  have glb: "\<exists>s d. e = e\<lparr>fe_src_glbid := s, fe_dst_glbid := d\<rparr>" for e :: "'d full_edge"
    by (intro exI [of _ "fe_src_glbid e"] exI [of _ "fe_dst_glbid e"]) simp
  have glb': "\<exists>s d. e\<lparr>fe_src_glbid := s, fe_dst_glbid := d\<rparr> \<in> set ?es \<and>
      fe_src (e\<lparr>fe_src_glbid := s, fe_dst_glbid := d\<rparr>) = fe_src e" if "e \<in> set ?es" for e
    using that by (intro exI [of _ "fe_src_glbid e"] exI [of _ "fe_dst_glbid e"]) simp
  have nodes: "\<exists>node. \<forall>v. (\<exists>f0 n ty. node v = full_node_new f0 n ty) \<and>
      full_node_new 0 v PERSON = (node v :: 'd full_node)"
    by (intro exI [of _ "\<lambda>v. full_node_new 0 v PERSON"]) blast
  show "\<exists>fs. sample_build contents ps = Inr fs \<and> holds_edges (\<lambda>_. 0) id ?A fs"
    unfolding es using ok glb glb' nodes
    by (auto simp: sample_build_def Let_def holds_edges_def image_iff simp del: set_concat)
qed

lemma sample_project_ok: "project_ok id sample_project"
  by (auto simp: project_ok_def projects_def sample_project_def keeps_master_def)

lemma sample_importer_ok: "importer_ok (\<lambda>_. 0) contents (sample_importer contents)"
proof -
  have "wmd_ok sample_stod sample_wmd"
    by (auto simp: wmd_ok_def sample_wmd_def res_map_Inr_iff)
  then show ?thesis
    using sample_build_ok [of contents] sample_project_ok
    by (auto simp: importer_ok_def sample_importer_def)
qed

lemma sample_lines_parse:
  "\<not> stored sample_contents (import_parsers (sample_importer contents)
     (files_of_options (default_options\<lparr>opt_k := 1, opt_rrr := 3, input_directory := ''data''\<rparr>))) (Inl e)"
proof -
  have tokens: "split_commas ''Sale,1,2,8486,,,,5'' = [''Sale'', ''1'', ''2'', ''8486'', [], [], [], ''5'']"
    by simp
  have "stoull ''1'' = Inr 1" "stoull ''2'' = Inr 2" "stoull ''8486'' = Inr 8486" by code_simp+
  then have "\<exists>e. full_edge_commercial sample_stod (split_commas ''Sale,1,2,8486,,,,5'') = Inr e"
    unfolding tokens by (simp add: full_edge_commercial_def sample_stod_def stoull_at_def vec_get_def)
  then show ?thesis
    by (auto simp: stored_def import_parsers_def sample_importer_def sample_wmd_def sample_contents_def
        cyber_parser_def social_parser_def uses_parser_def node_parser_def files_of_options_def
        input_files_of_def add_file_def default_options_def Let_def res_map_def split: sum.splits)
qed


end
