(* ===== verification/Stats.thy ===== *)
theory Stats
  imports TextStream
begin

text \<open>
  Measurements (include/scea/stats.hpp): a timer, hardware and software event counters of the
  Linux kernel, and the object that counts over a scope and prints a report when it is
  destroyed. The system calls are parameters; \<open>kernel_ok\<close> is what the manual of
  \<open>perf_event_open\<close> says of them, as far as the code relies on it. Counters may also count what
  the measurement itself causes.
\<close>

section \<open>System calls\<close>

datatype ioctl_request = IOC_RESET | IOC_ENABLE | IOC_DISABLE

text \<open>The fields the code sets; \<open>memset\<close> clears all others.\<close>

record perf_attr =
  pa_type :: nat
  pa_config :: nat
  pa_disabled :: bool
  pa_exclude_kernel :: bool
  pa_exclude_hv :: bool

text \<open>
  A call returns its result, \<open>-1\<close> for an error; \<open>k_read\<close> also what it has stored in the buffer, if
  anything.
\<close>

record 'k kernel =
  k_open :: "perf_attr \<Rightarrow> 'k \<Rightarrow> int \<times> 'k"
  k_ioctl :: "int \<Rightarrow> ioctl_request \<Rightarrow> 'k \<Rightarrow> int \<times> 'k"
  k_read :: "int \<Rightarrow> 'k \<Rightarrow> (int \<times> nat option) \<times> 'k"
  k_close :: "int \<Rightarrow> 'k \<Rightarrow> 'k"
  k_now :: "'k \<Rightarrow> int \<times> 'k"
  k_maxrss :: "'k \<Rightarrow> nat \<times> 'k"

record 'k world =
  w_kernel :: 'k
  w_out :: string
  w_err :: string

definition complain :: "bool \<Rightarrow> string \<Rightarrow> 'k world \<Rightarrow> 'k world" where
  "complain failed msg w = (if failed then w\<lparr>w_err := w_err w @ msg @ [newline]\<rparr> else w)"

section \<open>PerfEvent\<close>

definition perf_attr_of :: "nat \<Rightarrow> nat \<Rightarrow> perf_attr" where
  "perf_attr_of ty config = \<lparr>pa_type = ty, pa_config = config, pa_disabled = True,
     pa_exclude_kernel = False, pa_exclude_hv = False\<rparr>"

definition perf_event :: "'k kernel \<Rightarrow> nat \<Rightarrow> nat \<Rightarrow> 'k world \<Rightarrow> int \<times> 'k world" where
  "perf_event K ty config w = (case k_open K (perf_attr_of ty config) (w_kernel w) of (fd, k) \<Rightarrow>
     (fd, complain (fd = - 1) ''Error opening leader '' (w\<lparr>w_kernel := k\<rparr>)))"

definition perf_ioctl :: "'k kernel \<Rightarrow> ioctl_request \<Rightarrow> string \<Rightarrow> int \<Rightarrow> 'k world \<Rightarrow> 'k world" where
  "perf_ioctl K request msg fd w = (case k_ioctl K fd request (w_kernel w) of (ret, k) \<Rightarrow>
     complain (ret = - 1) msg (w\<lparr>w_kernel := k\<rparr>))"

definition perf_start :: "'k kernel \<Rightarrow> int \<Rightarrow> 'k world \<Rightarrow> 'k world" where
  "perf_start K fd w = perf_ioctl K IOC_ENABLE ''Error in PERF_EVENT_IOC_ENABLE'' fd
     (perf_ioctl K IOC_RESET ''Error in PERF_EVENT_IOC_RESET'' fd w)"

definition perf_stop :: "'k kernel \<Rightarrow> int \<Rightarrow> 'k world \<Rightarrow> 'k world" where
  "perf_stop K fd w = perf_ioctl K IOC_DISABLE ''Error in PERF_EVENT_IOC_DISABLE'' fd w"

text \<open>\<open>None\<close>: the variable that is returned was never written.\<close>

definition perf_read_value :: "'k kernel \<Rightarrow> int \<Rightarrow> 'k world \<Rightarrow> nat option \<times> 'k world" where
  "perf_read_value K fd w = (case k_read K fd (w_kernel w) of ((ret, stored), k) \<Rightarrow>
     (stored, complain (ret = - 1) ''Error reading count'' (w\<lparr>w_kernel := k\<rparr>)))"

definition perf_close :: "'k kernel \<Rightarrow> int \<Rightarrow> 'k world \<Rightarrow> 'k world" where
  "perf_close K fd w = w\<lparr>w_kernel := k_close K fd (w_kernel w)\<rparr>"

section \<open>ScopeBenchmarker\<close>

record scope =
  scope_name :: string
  start_time :: int
  scope_events :: "int list"

text \<open>The type and the number of an event.\<close>

datatype event_kind = Event nat nat

text \<open>
  Cache misses, cache references, instructions, minor and major page faults, with the numbers
  linux/perf\_event.h gives to the types and events.
\<close>

definition scope_specs :: "event_kind list" where
  "scope_specs = [Event 0 3, Event 0 2, Event 0 1, Event 1 5, Event 1 6]"

fun open_events :: "'k kernel \<Rightarrow> event_kind list \<Rightarrow> 'k world \<Rightarrow> int list \<times> 'k world" where
  "open_events K [] w = ([], w)"
| "open_events K (Event ty config # specs) w =
     (case perf_event K ty config w of (fd, w1) \<Rightarrow>
      case open_events K specs w1 of (fds, w2) \<Rightarrow> (fd # fds, w2))"

definition scope_begin :: "'k kernel \<Rightarrow> string \<Rightarrow> 'k world \<Rightarrow> scope \<times> 'k world" where
  "scope_begin K name w = (case open_events K scope_specs w of (fds, w1) \<Rightarrow>
     let w2 = fold (perf_start K) fds w1 in
     case k_now K (w_kernel w2) of (t, k) \<Rightarrow>
       (\<lparr>scope_name = name, start_time = t, scope_events = fds\<rparr>, w2\<lparr>w_kernel := k\<rparr>))"

fun read_events :: "'k kernel \<Rightarrow> int list \<Rightarrow> 'k world \<Rightarrow> nat option list \<times> 'k world" where
  "read_events K [] w = ([], w)"
| "read_events K (fd # fds) w =
     (case perf_read_value K fd w of (c, w1) \<Rightarrow>
      case read_events K fds w1 of (cs, w2) \<Rightarrow> (c # cs, w2))"

definition get_duration_nano :: "int \<Rightarrow> int \<Rightarrow> nat" where
  "get_duration_nano t t' = nat ((t' - t) mod 2 ^ 64)"

definition report_line :: "string \<Rightarrow> nat \<Rightarrow> string" where
  "report_line label n = label @ '': '' @ show_u64 n @ [newline]"

definition report :: "string \<Rightarrow> nat \<Rightarrow> nat \<Rightarrow> nat list \<Rightarrow> string" where
  "report name duration max_rss counts =
     ''Benchmark results for '' @ name @ '':'' @ [newline] @
     ''Duration: '' @ show_u64 duration @ '' nanoseconds'' @ [newline] @
     ''Max RSS: '' @ show_u64 max_rss @ '' KB'' @ [newline] @
     concat (map (\<lambda>(label, n). report_line label n) (zip [''Cache Misses'', ''Cache References'',
       ''Instructions'', ''Minor Page Faults'', ''Major Page Faults''] counts))"

text \<open>Printing a count that was never written has no defined result.\<close>

definition scope_end :: "'k kernel \<Rightarrow> scope \<Rightarrow> 'k world \<Rightarrow> 'k world res" where
  "scope_end K sc w = (case k_now K (w_kernel w) of (t, k) \<Rightarrow>
     let fds = scope_events sc; w1 = fold (perf_stop K) fds (w\<lparr>w_kernel := k\<rparr>) in
     case read_events K (take 3 fds) w1 of (hardware, w2) \<Rightarrow>
     case k_maxrss K (w_kernel w2) of (max_rss, k2) \<Rightarrow>
     case read_events K (drop 3 fds) (w2\<lparr>w_kernel := k2\<rparr>) of (faults, w3) \<Rightarrow>
       if None \<in> set (hardware @ faults) then Inl Indeterminate
       else Inr (fold (perf_close K) (rev fds) (w3\<lparr>w_out := w_out w3 @
         report (scope_name sc) (get_duration_nano (start_time sc) t) max_rss
           (map the (hardware @ faults))\<rparr>)))"

text \<open>A block whose first statement is \<open>BENCHMARK_SCOPE(name)\<close>.\<close>

definition benchmark_scope :: "'k kernel \<Rightarrow> string \<Rightarrow> ('k \<Rightarrow> 'k) \<Rightarrow> 'k world \<Rightarrow> 'k world res" where
  "benchmark_scope K name work w = (case scope_begin K name w of (sc, w1) \<Rightarrow>
     scope_end K sc (w1\<lparr>w_kernel := work (w_kernel w1)\<rparr>))"

section \<open>The documented behaviour of the calls\<close>

record counter =
  c_event :: event_kind
  c_enabled :: bool
  c_value :: nat

text \<open>\<open>counted view k fd e on n\<close>: descriptor \<open>fd\<close> counts the event \<open>e\<close>, and has counted at least \<open>n\<close>.\<close>

definition counted :: "('k \<Rightarrow> int \<Rightarrow> counter option) \<Rightarrow> 'k \<Rightarrow> int \<Rightarrow> event_kind \<Rightarrow> bool \<Rightarrow> nat \<Rightarrow> bool" where
  "counted view k fd e on n \<longleftrightarrow>
     (\<exists>c. view k fd = Some c \<and> c_event c = e \<and> c_enabled c = on \<and> n \<le> c_value c)"

fun after_ioctl :: "ioctl_request \<Rightarrow> bool \<times> nat \<Rightarrow> bool \<times> nat" where
  "after_ioctl IOC_RESET (on, n) = (on, 0)"
| "after_ioctl IOC_ENABLE (on, n) = (True, n)"
| "after_ioctl IOC_DISABLE (on, n) = (False, n)"

text \<open>No call disturbs the counters behind other descriptors.\<close>

definition undisturbed :: "('k \<Rightarrow> int \<Rightarrow> counter option) \<Rightarrow> int set \<Rightarrow> 'k \<Rightarrow> 'k \<Rightarrow> bool" where
  "undisturbed view fds k k' \<longleftrightarrow>
     (\<forall>fd e on n. fd \<notin> fds \<longrightarrow> counted view k fd e on n \<longrightarrow> counted view k' fd e on n)"

definition open_ok :: "'k kernel \<Rightarrow> ('k \<Rightarrow> int \<Rightarrow> counter option) \<Rightarrow> bool" where
  "open_ok K view \<longleftrightarrow> (\<forall>a k fd k'. k_open K a k = (fd, k') \<longrightarrow> undisturbed view {} k k' \<and>
     (fd \<noteq> - 1 \<longrightarrow> view k fd = None \<and> counted view k' fd (Event (pa_type a) (pa_config a)) (\<not> pa_disabled a) 0))"

definition ioctl_ok :: "'k kernel \<Rightarrow> ('k \<Rightarrow> int \<Rightarrow> counter option) \<Rightarrow> bool" where
  "ioctl_ok K view \<longleftrightarrow> (\<forall>fd r k ret k'. k_ioctl K fd r k = (ret, k') \<longrightarrow> undisturbed view {fd} k k' \<and>
     (\<forall>e on n. counted view k fd e on n \<longrightarrow> ret \<noteq> - 1 \<and>
        counted view k' fd e (fst (after_ioctl r (on, n))) (snd (after_ioctl r (on, n)))))"

definition read_ok :: "'k kernel \<Rightarrow> ('k \<Rightarrow> int \<Rightarrow> counter option) \<Rightarrow> bool" where
  "read_ok K view \<longleftrightarrow> (\<forall>fd k r k'. k_read K fd k = (r, k') \<longrightarrow> undisturbed view {} k k' \<and>
     (\<forall>e on n. counted view k fd e on n \<longrightarrow> (\<exists>c\<ge>n. r = (8, Some c))) \<and> (fd = - 1 \<longrightarrow> r = (- 1, None)))"

definition others_ok :: "'k kernel \<Rightarrow> ('k \<Rightarrow> int \<Rightarrow> counter option) \<Rightarrow> bool" where
  "others_ok K view \<longleftrightarrow> (\<forall>k. undisturbed view {} k (snd (k_now K k)) \<and>
     undisturbed view {} k (snd (k_maxrss K k)) \<and> (\<forall>fd. undisturbed view {fd} k (k_close K fd k)))"

definition kernel_ok :: "'k kernel \<Rightarrow> ('k \<Rightarrow> int \<Rightarrow> counter option) \<Rightarrow> bool" where
  "kernel_ok K view \<longleftrightarrow> open_ok K view \<and> ioctl_ok K view \<and> read_ok K view \<and> others_ok K view"

text \<open>What runs inside a scope: it adds its events to every counter that is on.\<close>

definition causes :: "('k \<Rightarrow> int \<Rightarrow> counter option) \<Rightarrow> (event_kind \<Rightarrow> nat) \<Rightarrow> ('k \<Rightarrow> 'k) \<Rightarrow> bool" where
  "causes view events work \<longleftrightarrow> (\<forall>k fd e on n. counted view k fd e on n \<longrightarrow>
     counted view (work k) fd e on (if on then n + events e else n))"

text \<open>The kernel lets the process open a counter.\<close>

fun grants :: "'k kernel \<Rightarrow> event_kind \<Rightarrow> bool" where
  "grants K (Event ty config) \<longleftrightarrow> (\<forall>k. fst (k_open K (perf_attr_of ty config) k) \<noteq> - 1)"

fun refuses :: "'k kernel \<Rightarrow> event_kind \<Rightarrow> bool" where
  "refuses K (Event ty config) \<longleftrightarrow> (\<forall>k. fst (k_open K (perf_attr_of ty config) k) = - 1)"

lemma undisturbedD:
  "undisturbed view fds k k' \<Longrightarrow> fd \<notin> fds \<Longrightarrow> counted view k fd e on n \<Longrightarrow> counted view k' fd e on n"
  unfolding undisturbed_def by blast

lemma undisturbed_all:
  "undisturbed view {} k k' \<Longrightarrow> \<forall>fd\<in>A. counted view k fd (ev fd) on (n fd) \<Longrightarrow>
    \<forall>fd\<in>A. counted view k' fd (ev fd) on (n fd)"
  by (simp add: undisturbed_def)

lemma kernel_open:
  assumes "kernel_ok K view" "k_open K a k = (fd, k')"
  shows "undisturbed view {} k k'" "fd \<noteq> - 1 \<Longrightarrow> \<not> counted view k fd e on n"
    "fd \<noteq> - 1 \<Longrightarrow> counted view k' fd (Event (pa_type a) (pa_config a)) (\<not> pa_disabled a) 0"
proof -
  have ok: "open_ok K view" using assms(1) by (simp add: kernel_ok_def)
  have law: "undisturbed view {} k k' \<and> (fd \<noteq> - 1 \<longrightarrow> view k fd = None \<and>
      counted view k' fd (Event (pa_type a) (pa_config a)) (\<not> pa_disabled a) 0)"
    by (rule ok [unfolded open_ok_def, THEN spec, THEN spec, THEN spec, THEN spec, THEN mp, OF assms(2)])
  then show "undisturbed view {} k k'" "fd \<noteq> - 1 \<Longrightarrow> \<not> counted view k fd e on n"
    "fd \<noteq> - 1 \<Longrightarrow> counted view k' fd (Event (pa_type a) (pa_config a)) (\<not> pa_disabled a) 0"
    by (simp, simp add: counted_def, blast)
qed

lemma kernel_ioctl:
  assumes "kernel_ok K view" "k_ioctl K fd r k = (ret, k')"
  shows "undisturbed view {fd} k k'" "counted view k fd e on n \<Longrightarrow> ret \<noteq> - 1"
    "counted view k fd e on n \<Longrightarrow> after_ioctl r (on, n) = (on', n') \<Longrightarrow> counted view k' fd e on' n'"
proof -
  have ok: "ioctl_ok K view" using assms(1) by (simp add: kernel_ok_def)
  have law: "undisturbed view {fd} k k' \<and> (\<forall>e on n. counted view k fd e on n \<longrightarrow> ret \<noteq> - 1 \<and>
      counted view k' fd e (fst (after_ioctl r (on, n))) (snd (after_ioctl r (on, n))))"
    by (rule ok [unfolded ioctl_ok_def, THEN spec, THEN spec, THEN spec, THEN spec, THEN spec, THEN mp, OF assms(2)])
  then show "undisturbed view {fd} k k'" "counted view k fd e on n \<Longrightarrow> ret \<noteq> - 1" by blast+
  show "counted view k fd e on n \<Longrightarrow> after_ioctl r (on, n) = (on', n') \<Longrightarrow> counted view k' fd e on' n'"
    using law by (metis fst_conv snd_conv)
qed

lemma kernel_read:
  assumes "kernel_ok K view" "k_read K fd k = (r, k')"
  shows "undisturbed view {} k k'" "counted view k fd e on n \<Longrightarrow> \<exists>c\<ge>n. r = (8, Some c)"
    "fd = - 1 \<Longrightarrow> r = (- 1, None)"
proof -
  have ok: "read_ok K view" using assms(1) by (simp add: kernel_ok_def)
  have "undisturbed view {} k k' \<and> (\<forall>e on n. counted view k fd e on n \<longrightarrow> (\<exists>c\<ge>n. r = (8, Some c))) \<and>
      (fd = - 1 \<longrightarrow> r = (- 1, None))"
    by (rule ok [unfolded read_ok_def, THEN spec, THEN spec, THEN spec, THEN spec, THEN mp, OF assms(2)])
  then show "undisturbed view {} k k'" "counted view k fd e on n \<Longrightarrow> \<exists>c\<ge>n. r = (8, Some c)"
    "fd = - 1 \<Longrightarrow> r = (- 1, None)" by blast+
qed

lemma kernel_other:
  assumes "kernel_ok K view"
  shows "undisturbed view {} k (snd (k_now K k))" "undisturbed view {} k (snd (k_maxrss K k))"
  using assms unfolding kernel_ok_def others_ok_def by blast+

section \<open>A scope reports what ran inside it\<close>

lemma world_complain [simp]:
  "w_kernel (complain b msg w) = w_kernel w" "w_out (complain b msg w) = w_out w"
  "complain False msg w = w"
  by (simp_all add: complain_def)

lemma perf_ioctl_ok:
  assumes ok: "kernel_ok K view"
  shows "counted view (w_kernel w) fd e on n \<Longrightarrow> after_ioctl r (on, n) = (on', n') \<Longrightarrow>
      counted view (w_kernel (perf_ioctl K r msg fd w)) fd e on' n' \<and>
      w_err (perf_ioctl K r msg fd w) = w_err w \<and> w_out (perf_ioctl K r msg fd w) = w_out w"
    and "fd' \<noteq> fd \<Longrightarrow> counted view (w_kernel w) fd' e on n \<Longrightarrow>
      counted view (w_kernel (perf_ioctl K r msg fd w)) fd' e on n"
proof -
  obtain ret k where call: "k_ioctl K fd r (w_kernel w) = (ret, k)" by (metis prod.exhaust)
  note law = kernel_ioctl [OF ok call]
  show "fd' \<noteq> fd \<Longrightarrow> counted view (w_kernel w) fd' e on n \<Longrightarrow>
      counted view (w_kernel (perf_ioctl K r msg fd w)) fd' e on n"
    using undisturbedD [OF law(1)] by (simp add: perf_ioctl_def call)
  assume "counted view (w_kernel w) fd e on n" "after_ioctl r (on, n) = (on', n')"
  with law(2,3) show "counted view (w_kernel (perf_ioctl K r msg fd w)) fd e on' n' \<and>
      w_err (perf_ioctl K r msg fd w) = w_err w \<and> w_out (perf_ioctl K r msg fd w) = w_out w"
    by (auto simp: perf_ioctl_def call)
qed

lemma perf_start_ok:
  assumes ok: "kernel_ok K view"
  shows "counted view (w_kernel w) fd e on n \<Longrightarrow> counted view (w_kernel (perf_start K fd w)) fd e True 0 \<and>
      w_err (perf_start K fd w) = w_err w \<and> w_out (perf_start K fd w) = w_out w"
    and "fd' \<noteq> fd \<Longrightarrow> counted view (w_kernel w) fd' e on n \<Longrightarrow>
      counted view (w_kernel (perf_start K fd w)) fd' e on n"
proof -
  let ?w = "perf_ioctl K IOC_RESET ''Error in PERF_EVENT_IOC_RESET'' fd w"
  show "counted view (w_kernel (perf_start K fd w)) fd e True 0 \<and>
      w_err (perf_start K fd w) = w_err w \<and> w_out (perf_start K fd w) = w_out w"
    if "counted view (w_kernel w) fd e on n"
  proof -
    have "counted view (w_kernel ?w) fd e on 0 \<and> w_err ?w = w_err w \<and> w_out ?w = w_out w"
      by (rule perf_ioctl_ok(1) [OF ok that]) simp
    then show ?thesis
      using perf_ioctl_ok(1) [OF ok, of ?w fd e on 0 IOC_ENABLE True 0] by (simp add: perf_start_def)
  qed
  show "fd' \<noteq> fd \<Longrightarrow> counted view (w_kernel w) fd' e on n \<Longrightarrow>
      counted view (w_kernel (perf_start K fd w)) fd' e on n"
    unfolding perf_start_def by (intro perf_ioctl_ok(2) [OF ok])
qed

lemma perf_stop_ok:
  assumes ok: "kernel_ok K view"
  shows "counted view (w_kernel w) fd e on n \<Longrightarrow> counted view (w_kernel (perf_stop K fd w)) fd e False n \<and>
      w_err (perf_stop K fd w) = w_err w \<and> w_out (perf_stop K fd w) = w_out w"
    and "fd' \<noteq> fd \<Longrightarrow> counted view (w_kernel w) fd' e on n \<Longrightarrow>
      counted view (w_kernel (perf_stop K fd w)) fd' e on n"
  unfolding perf_stop_def using perf_ioctl_ok(1) [OF ok, of w fd e on n IOC_DISABLE False n]
  by simp (rule perf_ioctl_ok(2) [OF ok])

text \<open>An operation on every event in turn.\<close>

lemma each_event:
  assumes step: "\<And>fd w. P fd w \<Longrightarrow> Q fd (f fd w) \<and> w_err (f fd w) = w_err w \<and> w_out (f fd w) = w_out w"
    and keep: "\<And>fd fd' w. fd' \<noteq> fd \<Longrightarrow> P fd' w \<Longrightarrow> P fd' (f fd w)"
      "\<And>fd fd' w. fd' \<noteq> fd \<Longrightarrow> Q fd' w \<Longrightarrow> Q fd' (f fd w)"
    and "distinct fds" "\<forall>fd\<in>set fds. P fd w"
  shows "(\<forall>fd\<in>set fds. Q fd (fold f fds w)) \<and> w_err (fold f fds w) = w_err w \<and> w_out (fold f fds w) = w_out w"
  using assms(4,5)
proof (induction fds arbitrary: w)
  case (Cons fd fds)
  have others: "Q fd w' \<Longrightarrow> Q fd (fold f fds w')" for w'
    using Cons.prems(1) keep(2) by (induction fds arbitrary: w') auto
  have "\<forall>fd'\<in>set fds. P fd' (f fd w)"
  proof
    fix fd' assume "fd' \<in> set fds"
    moreover from this have "fd' \<noteq> fd" using Cons.prems(1) by auto
    ultimately show "P fd' (f fd w)" using keep(1) Cons.prems(2) by simp
  qed
  then show ?case using Cons.IH [of "f fd w"] step [of fd w] others Cons.prems by simp
qed simp

lemma start_all:
  assumes ok: "kernel_ok K view" and "distinct fds"
    and "\<forall>fd\<in>set fds. counted view (w_kernel w) fd (ev fd) False 0"
  shows "(\<forall>fd\<in>set fds. counted view (w_kernel (fold (perf_start K) fds w)) fd (ev fd) True 0) \<and>
    w_err (fold (perf_start K) fds w) = w_err w \<and> w_out (fold (perf_start K) fds w) = w_out w"
  by (rule each_event [where P = "\<lambda>fd w. counted view (w_kernel w) fd (ev fd) False 0",
        OF perf_start_ok(1) [OF ok] perf_start_ok(2) [OF ok] perf_start_ok(2) [OF ok] assms(2,3)])

lemma stop_all:
  assumes ok: "kernel_ok K view" and "distinct fds"
    and "\<forall>fd\<in>set fds. counted view (w_kernel w) fd (ev fd) True (n fd)"
  shows "(\<forall>fd\<in>set fds. counted view (w_kernel (fold (perf_stop K) fds w)) fd (ev fd) False (n fd)) \<and>
    w_err (fold (perf_stop K) fds w) = w_err w \<and> w_out (fold (perf_stop K) fds w) = w_out w"
  by (rule each_event [where P = "\<lambda>fd w. counted view (w_kernel w) fd (ev fd) True (n fd)",
        OF perf_stop_ok(1) [OF ok] perf_stop_ok(2) [OF ok] perf_stop_ok(2) [OF ok] assms(2,3)])

lemma open_events_ok:
  assumes ok: "kernel_ok K view"
  shows "\<forall>e\<in>set specs. grants K e \<Longrightarrow> open_events K specs w = (fds, w') \<Longrightarrow>
    list_all2 (\<lambda>fd e. counted view (w_kernel w') fd e False 0) fds specs \<and> distinct fds \<and>
    (\<forall>fd\<in>set fds. \<forall>e on n. \<not> counted view (w_kernel w) fd e on n) \<and>
    undisturbed view {} (w_kernel w) (w_kernel w') \<and> w_err w' = w_err w \<and> w_out w' = w_out w"
proof (induction specs arbitrary: w fds)
  case Nil
  then show ?case by (simp add: undisturbed_def)
next
  case (Cons e specs)
  obtain ty config where e: "e = Event ty config" by (cases e)
  obtain fd k where call: "k_open K (perf_attr_of ty config) (w_kernel w) = (fd, k)"
    by (metis prod.exhaust)
  have "grants K e" using Cons.prems(1) by simp
  then have "fd \<noteq> - 1" using call unfolding e grants.simps by (metis fst_conv)
  note law = kernel_open [OF ok call]
  obtain fds' where later: "open_events K specs (w\<lparr>w_kernel := k\<rparr>) = (fds', w')" "fds = fd # fds'"
    using Cons.prems(2) \<open>fd \<noteq> - 1\<close> by (auto simp: e perf_event_def call split: prod.splits)
  have now: "counted view k fd e False 0"
    using law(3) \<open>fd \<noteq> - 1\<close> by (simp add: e perf_attr_of_def)
  from Cons.IH [OF _ later(1)] Cons.prems(1)
  have IH: "list_all2 (\<lambda>fd e. counted view (w_kernel w') fd e False 0) fds' specs" "distinct fds'"
    "\<forall>fd\<in>set fds'. \<forall>e on n. \<not> counted view k fd e on n" "undisturbed view {} k (w_kernel w')"
    "w_err w' = w_err w" "w_out w' = w_out w" by simp_all
  have "fd \<notin> set fds'" using now IH(3) by blast
  moreover have "counted view (w_kernel w') fd e False 0" using undisturbedD [OF IH(4)] now by blast
  moreover have "undisturbed view {} (w_kernel w) (w_kernel w')"
    using undisturbedD [OF law(1)] undisturbedD [OF IH(4)] unfolding undisturbed_def by blast
  moreover have "\<forall>fd'\<in>set fds. \<forall>e on n. \<not> counted view (w_kernel w) fd' e on n"
  proof (intro ballI allI notI)
    fix fd' e on n
    assume fd': "fd' \<in> set fds" "counted view (w_kernel w) fd' e on n"
    then have "counted view k fd' e on n" using undisturbedD [OF law(1)] by blast
    then show False using fd' law(2) \<open>fd \<noteq> - 1\<close> IH(3) unfolding later(2) by auto
  qed
  ultimately show ?case using IH by (simp add: later(2))
qed

lemma read_events_ok:
  assumes ok: "kernel_ok K view"
  shows "read_events K fds w = (cs, w') \<Longrightarrow>
      \<forall>fd\<in>set fds. counted view (w_kernel w) fd (ev fd) False (events (ev fd)) \<Longrightarrow>
    list_all2 (\<lambda>fd c. \<exists>n\<ge>events (ev fd). c = Some n) fds cs \<and>
    undisturbed view {} (w_kernel w) (w_kernel w') \<and> w_err w' = w_err w \<and> w_out w' = w_out w"
proof (induction fds arbitrary: w cs)
  case Nil
  then show ?case by (simp add: undisturbed_def)
next
  case (Cons fd fds)
  obtain r k where call: "k_read K fd (w_kernel w) = (r, k)" by (metis prod.exhaust)
  note law = kernel_read [OF ok call]
  have "counted view (w_kernel w) fd (ev fd) False (events (ev fd))" using Cons.prems(2) by simp
  then obtain n where n: "n \<ge> events (ev fd)" "r = (8, Some n)" using law(2) by blast
  obtain cs' where later: "read_events K fds (w\<lparr>w_kernel := k\<rparr>) = (cs', w')" "cs = Some n # cs'"
    using Cons.prems(1) by (auto simp: perf_read_value_def call n(2) split: prod.splits)
  have "\<forall>fd\<in>set fds. counted view k fd (ev fd) False (events (ev fd))"
    using Cons.prems(2) undisturbedD [OF law(1)] by simp
  from Cons.IH [OF later(1)] this
  have IH: "list_all2 (\<lambda>fd c. \<exists>n\<ge>events (ev fd). c = Some n) fds cs'" "undisturbed view {} k (w_kernel w')"
    "w_err w' = w_err w" "w_out w' = w_out w" by simp_all
  have "undisturbed view {} (w_kernel w) (w_kernel w')"
    using undisturbedD [OF law(1)] undisturbedD [OF IH(2)] unfolding undisturbed_def by blast
  then show ?case using IH n by (simp add: later(2))
qed

lemma read_refused:
  assumes ok: "kernel_ok K view"
  shows "read_events K fds w = (cs, w') \<Longrightarrow> - 1 \<in> set fds \<Longrightarrow> None \<in> set cs"
proof (induction fds arbitrary: w cs)
  case (Cons fd fds)
  obtain r k where call: "k_read K fd (w_kernel w) = (r, k)" by (metis prod.exhaust)
  show ?case
    using Cons kernel_read(3) [OF ok call]
    by (cases r) (auto simp: perf_read_value_def call split: prod.splits)
qed simp

text \<open>The events of descriptors that were opened for \<open>specs\<close> in that order.\<close>

lemma list_all2_keys:
  assumes "list_all2 R fds specs" "distinct fds"
  obtains ev where "specs = map ev fds" "\<forall>fd\<in>set fds. R fd (ev fd)"
proof
  let ?ev = "\<lambda>fd. the (map_of (zip fds specs) fd)"
  have len: "length fds = length specs" using assms(1) by (rule list_all2_lengthD)
  have at: "?ev (fds ! i) = specs ! i" if "i < length fds" for i
    using map_of_zip_nth [OF len assms(2)] that len by simp
  show "specs = map ?ev fds" using at len by (intro nth_equalityI) simp_all
  show "\<forall>fd\<in>set fds. R fd (?ev fd)"
    using at assms(1) by (auto simp: in_set_conv_nth list_all2_conv_all_nth)
qed

lemma scope_begin_ok:
  assumes ok: "kernel_ok K view" and grants: "\<forall>e\<in>set scope_specs. grants K e"
    and run: "scope_begin K name w = (sc, w')"
  shows "\<exists>ev. scope_name sc = name \<and> distinct (scope_events sc) \<and> scope_specs = map ev (scope_events sc) \<and>
    (\<forall>fd\<in>set (scope_events sc). counted view (w_kernel w') fd (ev fd) True 0) \<and>
    w_err w' = w_err w \<and> w_out w' = w_out w"
proof -
  obtain fds w1 where opened: "open_events K scope_specs w = (fds, w1)" by (metis prod.exhaust)
  note o = open_events_ok [OF ok grants opened]
  obtain ev where ev: "scope_specs = map ev fds" "\<forall>fd\<in>set fds. counted view (w_kernel w1) fd (ev fd) False 0"
    using o by (elim conjE) (rule list_all2_keys)
  have started: "(\<forall>fd\<in>set fds. counted view (w_kernel (fold (perf_start K) fds w1)) fd (ev fd) True 0) \<and>
      w_err (fold (perf_start K) fds w1) = w_err w1 \<and> w_out (fold (perf_start K) fds w1) = w_out w1"
    using start_all [OF ok _ ev(2)] o by blast
  obtain t k where now: "k_now K (w_kernel (fold (perf_start K) fds w1)) = (t, k)" by (metis prod.exhaust)
  have "undisturbed view {} (w_kernel (fold (perf_start K) fds w1)) k"
    using kernel_other(1) [OF ok, of "w_kernel (fold (perf_start K) fds w1)"] by (simp add: now)
  from undisturbed_all [OF this conjunct1 [OF started]]
  have "\<forall>fd\<in>set fds. counted view k fd (ev fd) True 0" .
  then show ?thesis
    using run ev(1) o started by (auto simp: scope_begin_def opened now Let_def)
qed

lemma scope_end_ok:
  assumes ok: "kernel_ok K view" and specs: "distinct (scope_events sc)" "scope_specs = map ev (scope_events sc)"
    and counts: "\<forall>fd\<in>set (scope_events sc). counted view (w_kernel w) fd (ev fd) True (events (ev fd))"
  shows "\<exists>duration max_rss counts w'. scope_end K sc w = Inr w' \<and>
    w_out w' = w_out w @ report (scope_name sc) duration max_rss counts \<and> w_err w' = w_err w \<and>
    list_all2 (\<lambda>e n. events e \<le> n) scope_specs counts"
proof -
  let ?fds = "scope_events sc"
  obtain t k where now: "k_now K (w_kernel w) = (t, k)" by (metis prod.exhaust)
  let ?w0 = "w\<lparr>w_kernel := k\<rparr>"
  let ?w1 = "fold (perf_stop K) ?fds ?w0"
  have "undisturbed view {} (w_kernel w) k" using kernel_other(1) [OF ok, of "w_kernel w"] by (simp add: now)
  from undisturbed_all [OF this counts]
  have "\<forall>fd\<in>set ?fds. counted view (w_kernel ?w0) fd (ev fd) True (events (ev fd))" by simp
  then have stopped: "(\<forall>fd\<in>set ?fds. counted view (w_kernel ?w1) fd (ev fd) False (events (ev fd))) \<and>
      w_err ?w1 = w_err ?w0 \<and> w_out ?w1 = w_out ?w0"
    by (rule stop_all [OF ok specs(1)])
  obtain hardware w2 where first: "read_events K (take 3 ?fds) ?w1 = (hardware, w2)" by (metis prod.exhaust)
  have "\<forall>fd\<in>set (take 3 ?fds). counted view (w_kernel ?w1) fd (ev fd) False (events (ev fd))"
    using stopped set_take_subset by fast
  note h = read_events_ok [OF ok first this]
  obtain max_rss k2 where rss: "k_maxrss K (w_kernel w2) = (max_rss, k2)" by (metis prod.exhaust)
  obtain faults w3 where second: "read_events K (drop 3 ?fds) (w2\<lparr>w_kernel := k2\<rparr>) = (faults, w3)"
    by (metis prod.exhaust)
  have "undisturbed view {} (w_kernel w2) k2" using kernel_other(2) [OF ok, of "w_kernel w2"] by (simp add: rss)
  then have "\<forall>fd\<in>set (drop 3 ?fds). counted view (w_kernel (w2\<lparr>w_kernel := k2\<rparr>)) fd (ev fd) False (events (ev fd))"
  proof -
    assume "undisturbed view {} (w_kernel w2) k2"
    moreover have "undisturbed view {} (w_kernel ?w1) (w_kernel w2)" using h by blast
    ultimately have "\<forall>fd\<in>set ?fds. counted view k2 fd (ev fd) False (events (ev fd))"
      using undisturbed_all [OF _ undisturbed_all [OF _ conjunct1 [OF stopped]]] by blast
    then show ?thesis using set_drop_subset [of 3 ?fds] by auto
  qed
  note f = read_events_ok [OF ok second this]
  have all: "list_all2 (\<lambda>fd c. \<exists>n\<ge>events (ev fd). c = Some n) ?fds (hardware @ faults)"
    using list_all2_appendI [OF conjunct1 [OF h] conjunct1 [OF f]] by simp
  then have "None \<notin> set (hardware @ faults)" by (induction rule: list_all2_induct) auto
  moreover have "list_all2 (\<lambda>e n. events e \<le> n) scope_specs (map the (hardware @ faults))"
    using all unfolding specs(2) list_all2_map1 list_all2_map2 by (rule list_all2_mono) auto
  moreover have "w_out (fold (perf_close K) fds w) = w_out w \<and> w_err (fold (perf_close K) fds w) = w_err w" for fds w
    by (induction fds arbitrary: w) (simp_all add: perf_close_def)
  ultimately show ?thesis
    using h f stopped
    by (intro exI [of _ "get_duration_nano (start_time sc) t"] exI [of _ max_rss]
        exI [of _ "map the (hardware @ faults)"])
      (simp add: scope_end_def now first rss second Let_def)
qed

lemma benchmark_scope_ok:
  assumes "kernel_ok K view" and "\<forall>e\<in>set scope_specs. grants K e" and "causes view events work"
  shows "\<exists>duration max_rss counts w'. benchmark_scope K name work w = Inr w' \<and>
    w_out w' = w_out w @ report name duration max_rss counts \<and> w_err w' = w_err w \<and>
    list_all2 (\<lambda>e n. events e \<le> n) scope_specs counts"
proof -
  obtain sc w1 where run: "scope_begin K name w = (sc, w1)" by (metis prod.exhaust)
  then obtain ev where start: "scope_name sc = name" "distinct (scope_events sc)" "scope_specs = map ev (scope_events sc)"
    "\<forall>fd\<in>set (scope_events sc). counted view (w_kernel w1) fd (ev fd) True 0"
    "w_err w1 = w_err w" "w_out w1 = w_out w"
    using scope_begin_ok [OF assms(1,2) run] by blast
  have "\<forall>fd\<in>set (scope_events sc).
      counted view (w_kernel (w1\<lparr>w_kernel := work (w_kernel w1)\<rparr>)) fd (ev fd) True (events (ev fd))"
    using start(4) assms(3) unfolding causes_def by force
  from scope_end_ok [OF assms(1) start(2,3) this] start(1,5,6) show ?thesis
    by (simp add: benchmark_scope_def run)
qed

text \<open>If the kernel refuses a counter, its value is printed although it was never read.\<close>

lemma open_refused:
  "e \<in> set specs \<Longrightarrow> refuses K e \<Longrightarrow> open_events K specs w = (fds, w') \<Longrightarrow> - 1 \<in> set fds"
proof (induction specs arbitrary: w fds)
  case (Cons e' specs)
  obtain ty config where e': "e' = Event ty config" by (cases e')
  obtain fd k where call: "k_open K (perf_attr_of ty config) (w_kernel w) = (fd, k)" by (metis prod.exhaust)
  have "e = e' \<Longrightarrow> fd = - 1" using Cons.prems(2) call unfolding e' by (metis fst_conv refuses.simps)
  then show ?case
    using Cons by (auto simp: e' perf_event_def call split: prod.splits)
qed simp

lemma benchmark_scope_refused:
  assumes ok: "kernel_ok K view" and "e \<in> set scope_specs" "refuses K e"
  shows "benchmark_scope K name work w = Inl Indeterminate"
proof -
  obtain sc w1 where run: "scope_begin K name w = (sc, w1)" by (metis prod.exhaust)
  obtain fds w2 where opened: "open_events K scope_specs w = (fds, w2)" by (metis prod.exhaust)
  have "scope_events sc = fds" using run by (auto simp: scope_begin_def opened Let_def split: prod.splits)
  then have "- 1 \<in> set (take 3 (scope_events sc)) \<or> - 1 \<in> set (drop 3 (scope_events sc))"
    using open_refused [OF assms(2,3) opened] by (metis Un_iff append_take_drop_id set_append)
  then show ?thesis
    using read_refused [OF ok] by (auto simp: benchmark_scope_def run scope_end_def Let_def split: prod.splits)
qed

section \<open>A kernel that behaves so\<close>

text \<open>Descriptors index a list; only available events can be opened.\<close>

record machine =
  mc_counters :: "counter option list"
  mc_clock :: int

definition mc_view :: "machine \<Rightarrow> int \<Rightarrow> counter option" where
  "mc_view m fd = (if 0 \<le> fd \<and> nat fd < length (mc_counters m) then mc_counters m ! nat fd else None)"

fun mc_request :: "ioctl_request \<Rightarrow> counter \<Rightarrow> counter" where
  "mc_request IOC_RESET c = c\<lparr>c_value := 0\<rparr>"
| "mc_request IOC_ENABLE c = c\<lparr>c_enabled := True\<rparr>"
| "mc_request IOC_DISABLE c = c\<lparr>c_enabled := False\<rparr>"

definition mc_put :: "int \<Rightarrow> counter option \<Rightarrow> machine \<Rightarrow> machine" where
  "mc_put fd c m = m\<lparr>mc_counters := (mc_counters m)[nat fd := c]\<rparr>"

definition counting_kernel :: "(event_kind \<Rightarrow> bool) \<Rightarrow> machine kernel" where
  "counting_kernel available = \<lparr>
     k_open = (\<lambda>a m. if available (Event (pa_type a) (pa_config a))
       then (int (length (mc_counters m)), m\<lparr>mc_counters := mc_counters m @ [Some
         \<lparr>c_event = Event (pa_type a) (pa_config a), c_enabled = \<not> pa_disabled a, c_value = 0\<rparr>]\<rparr>)
       else (- 1, m)),
     k_ioctl = (\<lambda>fd r m. case mc_view m fd of None \<Rightarrow> (- 1, m)
       | Some c \<Rightarrow> (0, mc_put fd (Some (mc_request r c)) m)),
     k_read = (\<lambda>fd m. case mc_view m fd of None \<Rightarrow> ((- 1, None), m)
       | Some c \<Rightarrow> ((8, Some (c_value c)), m)),
     k_close = (\<lambda>fd m. if mc_view m fd = None then m else mc_put fd None m),
     k_now = (\<lambda>m. (mc_clock m, m\<lparr>mc_clock := mc_clock m + 1\<rparr>)),
     k_maxrss = (\<lambda>m. (100, m))\<rparr>"

definition spend :: "(event_kind \<Rightarrow> nat) \<Rightarrow> machine \<Rightarrow> machine" where
  "spend events m = m\<lparr>mc_counters := map (map_option (\<lambda>c. if c_enabled c
     then c\<lparr>c_value := c_value c + events (c_event c)\<rparr> else c)) (mc_counters m)\<rparr>"

lemma mc_view_put:
  "mc_view m fd = Some c \<Longrightarrow> mc_view (mc_put fd x m) fd' = (if fd' = fd then x else mc_view m fd')"
  by (auto simp: mc_view_def mc_put_def nth_list_update split: if_splits)

lemma mc_view_append:
  "mc_view (m\<lparr>mc_counters := mc_counters m @ [x]\<rparr>) fd =
    (if fd = int (length (mc_counters m)) then x else mc_view m fd)"
  by (auto simp: mc_view_def nth_append)

lemma counting_kernel_ok: "kernel_ok (counting_kernel available) mc_view"
proof -
  have "open_ok (counting_kernel available) mc_view"
    by (auto simp: open_ok_def counting_kernel_def undisturbed_def counted_def mc_view_append mc_view_def [of _ "int _"]
        split: if_splits)
  moreover have "ioctl_ok (counting_kernel available) mc_view"
    unfolding ioctl_ok_def
  proof (intro allI impI)
    fix fd r m ret m'
    assume "k_ioctl (counting_kernel available) fd r m = (ret, m')"
    then show "undisturbed mc_view {fd} m m' \<and> (\<forall>e on n. counted mc_view m fd e on n \<longrightarrow> ret \<noteq> - 1 \<and>
        counted mc_view m' fd e (fst (after_ioctl r (on, n))) (snd (after_ioctl r (on, n))))"
      by (cases r; auto simp: counting_kernel_def undisturbed_def counted_def mc_view_put split: option.splits)
  qed
  moreover have "read_ok (counting_kernel available) mc_view"
    by (auto simp: read_ok_def counting_kernel_def undisturbed_def counted_def mc_view_def [of _ "- 1"]
        split: option.splits)
  moreover have "undisturbed mc_view {fd} m (if mc_view m fd = None then m else mc_put fd None m)" for fd m
    by (auto simp: undisturbed_def counted_def mc_view_put)
  moreover have "undisturbed mc_view {} m (m\<lparr>mc_clock := t\<rparr>)" for m t
    by (simp add: undisturbed_def counted_def mc_view_def)
  ultimately show ?thesis
    by (simp add: kernel_ok_def others_ok_def counting_kernel_def undisturbed_def)
qed

lemma spend_causes: "causes mc_view events (spend events)"
  by (auto simp: causes_def counted_def mc_view_def spend_def split: if_splits)

section \<open>The property\<close>


text \<open>A scope whose work causes as many events as the number of each event says.\<close>

fun sample_events :: "event_kind \<Rightarrow> nat" where
  "sample_events (Event ty config) = config"


end
