(* ===== verification/Spec2Isabelle.thy ===== *)
theory Spec2Isabelle
  imports ScriptMain CentralityProperties BenchProperties Wf4Load Stats
begin

text \<open>
  A verification library for graph-log-sketch: mutable graph representations, the algorithms
  that are benchmarked on them, the drivers that feed them batches of edges, the tools that
  prepare those batches, and the fourth workflow (influence maximisation on a trading network
  that is spread over several hosts).

  The program. \<open>MutableGraph\<close> is the interface of five representations (\<open>AdjGraph\<close>,
  \<open>CSR\<close>, \<open>LC_CSR\<close>, \<open>LS_CSR\<close>, \<open>MorphGraph\<close>); an algorithm (\<open>Algo\<close>: breadth-first search,
  triangle counting, PageRank, betweenness centrality, nothing) sees a graph only through it.
  The two drivers under microbench/ choose a representation and an algorithm from the command
  line, ingest batch after batch and run the algorithm after each. scripts/ holds the tool
  that cuts an edge list into batches and the one that counts them. wf4/ imports a network,
  keeps its traders, weighs the edges, generates reverse reachable sets, chooses the most
  influential nodes from them, cancels these and lets the rest of the market settle.

  Which theory models what (state and operations have the names of the code):
  \<^item> \<open>Prelude\<close>: results of C++ operations (\<open>res\<close>, one error constructor per way in
    which the source has no defined result, throws or aborts), vectors with their bounds,
    64-bit arithmetic, sequential loops (\<open>fold_res\<close>) and the parallel loop of Galois (\<open>do_all\<close>).
  \<^item> \<open>GraphInterface\<close>: \<open>MutableGraph\<close> as a record of operations; the contracts
    \<open>graph_reading\<close>, \<open>graph_updating\<close> and \<open>graph_sorting\<close> as locales, with \<open>apply_batch\<close> as the
    specification of a batch. \<open>AdjGraph\<close> and \<open>CsrGraph\<close> are the classes of adj.hpp and csr.hpp
    and interpret the contracts; \<open>LcCsrGraph\<close>, \<open>LsCsrGraph\<close> and \<open>MorphGraph\<close> are the adapters to
    Galois graphs (lccsr.hpp, lscsr.hpp, morph.hpp), with the behaviour Galois documents as a predicate
    (\<open>lc_ok\<close>, \<open>ls_ok\<close>, \<open>mo_ok\<close>) and an instance that has it. \<open>ClientCalls\<close>: a type discipline
    for callers, with progress and preservation over any graph with the contracts.
  \<^item> \<open>Distance\<close>, \<open>Bfs\<close>, \<open>BfsParallel\<close>: hop distances; \<open>SSSP_BFS::compute\<close> with
    whole iterations in any order, and with the loads and stores of a level interleaved.
  \<^item> \<open>TriangleCount\<close>, \<open>Pagerank\<close>: tc.hpp and pr.hpp.
  \<^item> \<open>Paths\<close>, \<open>Bc\<close>, \<open>BcSearch\<close>, \<open>BcScores\<close>, \<open>BcSerial\<close>, \<open>BcSerialSearch\<close>,
    \<open>BcSerialScores\<close>: the specification of betweenness by counting walks, the parallel algorithm
    and the serial reference of bc.hpp, and for each its search and its accumulation.
    \<open>BcParallel\<close>, \<open>BcRaces\<close>: the search again, with every load, compare-and-swap, push and addition of a
    level's iterations interleaved.
  \<^item> \<open>Batches\<close>, \<open>LargeDriver\<close>, \<open>TextStream\<close>, \<open>TextDriver\<close>, \<open>DivideBatches\<close>, \<open>BatchRoundTrip\<close>:
    grouping and splitting of edges, the two drivers, input streams, the text format with
    its reader, its writer and its counter, and their round trip. \<open>BenchMain\<close> and \<open>BenchRun\<close>: the \<open>main\<close>
    of both drivers from the parsed options (\<open>Options\<close>) on, with virtual calls and the output file; \<open>ScriptMain\<close>:
    the \<open>main\<close> of both scripts, with their exit codes and messages. \<open>Stats\<close>: the
    counters, the timer and the report of stats.hpp, over a kernel given by what its manual says.
  \<^item> \<open>Wf4Import\<close>, \<open>Wf4Main\<close>: the data, the line parsers and the projection; options
    and statistics. \<open>Wf4Edges\<close>: edge probabilities. \<open>Wf4Rrr\<close>, \<open>Wf4RrrHosts\<close>, \<open>Wf4RrrNet\<close>, \<open>Wf4RrrDriver\<close>:
    one reverse reachable set, the exchange between hosts, the invariant of the network of
    hosts and the epochs. \<open>Wf4Influence\<close>, \<open>Wf4Removal\<close>, \<open>Wf4Greedy\<close>: the choice of influential
    nodes. \<open>Wf4Quiesce\<close>, \<open>Wf4Cancel\<close>, \<open>Wf4Market\<close>, \<open>Wf4Wire\<close>, \<open>Wf4Settle\<close>: cancellation and
    quiescence, the latter also access by access, the proposals on the wire, and that the
    quiescence of all hosts returns and never oversells. \<open>Wf4Verify\<close>: the
    checks the program has of its own results. \<open>Wf4Pipeline\<close>:
    all stages after the import as main runs them. \<open>Wf4Graph\<close>, \<open>Wf4Load\<close>: \<open>main\<close> from the arguments on, with
    the parsers, the statistics and the projection, and that what they hand over is what the stages need.
  \<^item> \<open>GraphProperties\<close>, \<open>CentralityProperties\<close>, \<open>BenchProperties\<close>, \<open>TextProperties\<close>, \<open>Wf4Properties\<close>, \<open>Wf4Outcomes\<close>,
    \<open>Wf4Pipeline\<close>, \<open>Wf4Load\<close>, \<open>ScriptMain\<close>, \<open>Stats\<close>: the properties, C1 onwards in the order of importance, with their witnesses.

  What the lemmas show. For each representation: every batch is \<open>apply_batch\<close>, and every
  reading operation returns what that says. For each algorithm: its result equals a specification over the
  adjacency lists, for every representation with the contract and every order of the parallel
  loops. For the tools: which edges are loaded, when the loops end, which inputs they do not
  handle. For the workflow: frequencies count the generated sets, the choice is greedy and near the
  optimum, cancellation has the stated effect across hosts, no seller oversells, and the
  stages fit together.

  Parameters and hypotheses. Code that is not under src/ is an argument. \<open>galois_rt\<close> is the
  Galois runtime (\<open>order\<close> is any permutation of the items of a parallel loop; reductions and prefix sums return
  what they document): \<open>galois_ok\<close>. An iteration of a parallel loop is one step, except in \<open>BfsParallel\<close>,
  \<open>BcParallel\<close> and \<open>Wf4Market\<close>, where every access is one. The enumeration order of hash maps and sets is a
  parameter (\<open>map_order_ok\<close>, \<open>enum_ok\<close>), so are random draws and shuffles, the partition of the
  nodes, and the Gluon synchronisations (\<open>sync_sold_ok\<close>, \<open>gluon_adds\<close>). Doubles are exact: elements of
  an ordered field; only where the code reads their bits as integers is the format modelled.

  Bounds and fuel. Unsigned 64-bit values are natural numbers with the wrap-around written
  out; theorems ask for at most \<open>u64_max\<close> edges where a sum could wrap. PageRank's loop has its own
  bound of 100 iterations, of which at most 62 are used. The loops of the searches and of the text
  driver are \<open>partial_function\<close>s, and are proved to return; no other fuel is used.

  Not modelled. The printing of progress and statistics, and two functions that only print and are
  never called (\<open>dumpUpdates\<close>, \<open>dumpGraph\<close>). Splitting command lines (Boost, getopt) and mapping files (Boost). Parameters, with their documented
  behaviour as hypotheses: the construction, projection and partition of the graph of the workflow
  (Galois, Gluon; \<open>importer_ok\<close>), std::stod. Dates are indeterminate in the code and so in the model.
\<close>

end
